(* ===== verification/Prelude.thy ===== *)
theory Prelude
  imports Main "HOL-Library.Word"
begin

text \<open>
  What the components share: the machine integer types, the outcome of an operation that may
  panic, Rust's checked arithmetic, and generic lemmas on stacks (lists whose head is the running
  activation) and on words.
\<close>

unbundle bit_operations_syntax

section \<open>Types\<close>

type_synonym u32 = "32 word"
type_synonym usize = "64 word"

text \<open>The type \<open>Tid\<close> of \<open>signal_lock/src/lib.rs\<close>.\<close>

type_synonym tid = u32

text \<open>The equations of the modelled code, which evaluate a schedule or a step.\<close>

named_theorems code_simps \<open>equations of the modelled code\<close>

section \<open>Stacks of activations\<close>

text \<open>
  A stack is a list with the running activation at its head. \<open>each_above R xs\<close> says that every
  activation \<open>p\<close> of the stack is in relation \<open>R\<close> to the list of activations beneath it.
\<close>

fun each_above :: "('p \<Rightarrow> 'p list \<Rightarrow> bool) \<Rightarrow> 'p list \<Rightarrow> bool" where
  "each_above R [] = True"
| "each_above R (p # ps) = (R p ps \<and> each_above R ps)"

text \<open>
  \<open>exposed P Q xs\<close>: some activation of the stack satisfies \<open>P\<close> and none above it satisfies
  \<open>Q\<close>.
\<close>

fun exposed :: "('p \<Rightarrow> bool) \<Rightarrow> ('p \<Rightarrow> bool) \<Rightarrow> 'p list \<Rightarrow> bool" where
  "exposed P Q [] = False"
| "exposed P Q (p # ps) = (P p \<or> (\<not> Q p \<and> exposed P Q ps))"

lemma exposed_mono:
  assumes "exposed P Q xs"
    and "\<And>x. x \<in> set xs \<Longrightarrow> P x \<Longrightarrow> P' x"
    and "\<And>x. x \<in> set xs \<Longrightarrow> Q' x \<Longrightarrow> Q x"
  shows "exposed P' Q' xs"
  using assms by (induction xs) auto

lemma exposed_head_free:
  assumes "exposed P Q (p # ps)" and "\<And>x. P x \<Longrightarrow> \<not> Q x"
  shows "\<not> Q p"
  using assms by auto

lemma each_above_in:
  assumes "each_above R xs" and "p \<in> set xs"
  shows "\<exists>ys. set ys \<subseteq> set xs \<and> R p ys"
  using assms by (induction xs) auto

text \<open>The number of activations of a stack that satisfy a predicate.\<close>

fun count_of :: "('p \<Rightarrow> bool) \<Rightarrow> 'p list \<Rightarrow> nat" where
  "count_of P [] = 0"
| "count_of P (p # ps) = (if P p then Suc (count_of P ps) else count_of P ps)"

lemma count_of_filter: "count_of P xs = length (filter P xs)"
  by (induction xs) auto

lemma count_of_le_length: "count_of P xs \<le> length xs"
  by (simp add: count_of_filter)

lemma count_of_pos: "0 < count_of P xs \<longleftrightarrow> (\<exists>x \<in> set xs. P x)"
  by (induction xs) auto

lemma count_of_unique:
  assumes "count_of P xs \<le> 1"
    and "i < length xs" and "j < length xs" and "P (xs ! i)" and "P (xs ! j)"
  shows "i = j"
proof (rule ccontr)
  assume "i \<noteq> j"
  have "{i, j} \<subseteq> {k. k < length xs \<and> P (xs ! k)}"
    using assms by auto
  then have "card {i, j} \<le> card {k. k < length xs \<and> P (xs ! k)}"
    by (intro card_mono) auto
  with \<open>i \<noteq> j\<close> assms(1) show False
    by (simp add: count_of_filter length_filter_conv_card)
qed

text \<open>\<open>on_stacks R stk\<close>: every thread's stack satisfies \<open>R\<close>.\<close>

definition on_stacks :: "('p list \<Rightarrow> bool) \<Rightarrow> (tid \<Rightarrow> 'p list) \<Rightarrow> bool" where
  "on_stacks R stk \<longleftrightarrow> (\<forall>t. R (stk t))"

lemma on_stacks_at: "on_stacks R stk \<Longrightarrow> stk t = xs \<Longrightarrow> R xs"
  by (auto simp: on_stacks_def)

lemma on_stacks_upd: "on_stacks R stk \<Longrightarrow> R xs \<Longrightarrow> on_stacks R (stk(t := xs))"
  by (simp add: on_stacks_def)

lemma on_stacks_empty [simp]: "on_stacks R (\<lambda>_. []) \<longleftrightarrow> R []"
  by (simp add: on_stacks_def)

section \<open>Sums over the finitely many thread ids\<close>

lemma finite_tids [simp, intro]: "finite (A :: tid set)"
  by (rule finite_subset [OF subset_UNIV]) simp

lemma sum_fun_upd:
  fixes f :: "tid \<Rightarrow> 'b \<Rightarrow> nat"
  shows "(\<Sum>u\<in>UNIV. f u ((g(t := x)) u)) + f t (g t) = (\<Sum>u\<in>UNIV. f u (g u)) + f t x"
proof -
  have "(\<Sum>u\<in>UNIV. f u (h u)) = f t (h t) + (\<Sum>u\<in>UNIV - {t}. f u (h u))" for h :: "tid \<Rightarrow> 'b"
    by (rule sum.remove) simp_all
  moreover have "(\<Sum>u\<in>UNIV - {t}. f u ((g(t := x)) u)) = (\<Sum>u\<in>UNIV - {t}. f u (g u))"
    by (rule sum.cong) simp_all
  ultimately show ?thesis
    by simp
qed

lemma sum_fun_upd_less:
  fixes f :: "tid \<Rightarrow> 'b \<Rightarrow> nat"
  assumes "f t x < f t (g t)"
  shows "(\<Sum>u\<in>UNIV. f u ((g(t := x)) u)) < (\<Sum>u\<in>UNIV. f u (g u))"
  using assms sum_fun_upd [of f g t x] by linarith

section \<open>Panics and Rust's checked arithmetic\<close>

text \<open>
  With debug assertions (and the overflow checks that come with them) an overflowing addition or
  subtraction panics, without them it wraps. \<open>dbg\<close> is the build's \<open>cfg!(debug_assertions)\<close>.
\<close>

datatype panic = Overflow | ExpectFailed | AssertFailed | UnwrapFailed | Poisoned | ExplicitPanic

definition usize_add :: "bool \<Rightarrow> usize \<Rightarrow> usize \<Rightarrow> panic + usize" where
  "usize_add dbg a b =
     (if dbg \<and> \<not> unat a + unat b < 2 ^ 64 then Inl Overflow else Inr (a + b))"

definition usize_sub :: "bool \<Rightarrow> usize \<Rightarrow> usize \<Rightarrow> panic + usize" where
  "usize_sub dbg a b = (if dbg \<and> a < b then Inl Overflow else Inr (a - b))"

text \<open>Sequencing: the first panic ends the computation.\<close>

definition and_then :: "panic + 'a \<Rightarrow> ('a \<Rightarrow> panic + 'b) \<Rightarrow> panic + 'b" where
  "and_then x f = (case x of Inl e \<Rightarrow> Inl e | Inr a \<Rightarrow> f a)"

lemma and_then_simps [simp]: "and_then (Inl e) f = Inl e" "and_then (Inr a) f = f a"
  by (simp_all add: and_then_def)

lemma usize_add_exact:
  assumes "unat a + unat b < 2 ^ 64"
  shows "usize_add dbg a b = Inr (a + b)" and "unat (a + b) = unat a + unat b"
  using assms by (simp_all add: usize_add_def unat_word_ariths)

lemma usize_sub_exact:
  assumes "b \<le> a"
  shows "usize_sub dbg a b = Inr (a - b)" and "unat (a - b) = unat a - unat b"
  using assms by (simp_all add: usize_sub_def unat_sub not_less)

end
