(* ===== verification/Lock_Machine.thy ===== *)
theory Lock_Machine
  imports Prelude
begin

text \<open>
  Threads, signals and the interface of a lock. A thread is a stack of activations of
  \<open>lock()\<close> (up to the drop of the guard it returned): the head is the activation that runs, a
  signal handler that interrupts it and takes the lock again is pushed on top. An activation is
  a program point with its local variables. A lock supplies the code of one atomic action of an
  activation (\<open>act\<close>); the machine here interleaves the actions of all threads in any order,
  under sequential consistency, and lets a signal arrive between any two actions.

  What a lock promises is stated by the locales \<open>owned_lock\<close> (theory Lock\_Contract) and
  \<open>waking_lock\<close> (theory Lock\_Progress), which \<open>FutexLock\<close> and \<open>PipeLock\<close> interpret.
\<close>

section \<open>Environment, events and system states\<close>

datatype errno = EINTR | EAGAIN | EWOULDBLOCK | OtherErrno int

text \<open>
  What the environment contributes to one atomic action: nothing (\<open>Normal\<close>), a spurious failure
  of a weak compare-and-exchange, a spurious return of a blocking call, a restart of a blocking
  call after a signal, the thread that the kernel wakes, a failing system call, or the end of
  file.
\<close>

datatype env = Normal | WeakFail | Spurious | Restart | Wake tid | Fail errno | Eof

definition quiet :: "env \<Rightarrow> bool" where
  "quiet c \<longleftrightarrow> (case c of Normal \<Rightarrow> True | Wake u \<Rightarrow> True | _ \<Rightarrow> False)"

lemma quiet_simps [simp]:
  "quiet Normal" "quiet (Wake u)" "\<not> quiet WeakFail" "\<not> quiet Spurious" "\<not> quiet Restart"
  "\<not> quiet (Fail e)" "\<not> quiet Eof"
  by (simp_all add: quiet_def)

text \<open>
  \<open>AtomicU32::compare_exchange_weak\<close>: \<open>Inr\<close> (Rust's \<open>Ok\<close>) of the previous value and the new
  content, or \<open>Inl\<close> (\<open>Err\<close>) of the value found, which may be the expected one.
\<close>

definition compare_exchange_weak :: "env \<Rightarrow> u32 \<Rightarrow> u32 \<Rightarrow> u32 \<Rightarrow> (u32 + u32) \<times> u32" where
  "compare_exchange_weak c current new w =
     (if w = current \<and> c \<noteq> WeakFail then (Inr w, new) else (Inl w, w))"

text \<open>The errors of \<open>lock()\<close> (\<open>SignalLockError\<close> in \<open>signal_lock/src/lib.rs\<close>).\<close>

datatype signal_lock_error = Recursive

text \<open>
  The operations of a lock: the first program point of \<open>lock()\<close>, the atomic action of a thread
  at a program point on the shared memory, the environment answers that are documented there, the
  points where the activation is over, the points where the thread sleeps in the kernel (a signal
  is delivered after the call has returned), and the thread ids \<open>gettid\<close> may return.
\<close>

record ('m, 'p) lock_code =
  start :: 'p
  act :: "tid \<Rightarrow> env \<Rightarrow> 'm \<Rightarrow> 'p \<Rightarrow> ('m \<times> 'p) option"
  allowed :: "'p \<Rightarrow> env \<Rightarrow> bool"
  finished :: "'p \<Rightarrow> bool"
  sleeping :: "'p \<Rightarrow> bool"
  tid_ok :: "tid \<Rightarrow> bool"

text \<open>\<open>live\<close> counts the activations in progress in all threads.\<close>

record ('m, 'p) sys =
  mem :: 'm
  stacks :: "tid \<Rightarrow> 'p list"
  live :: nat

definition init_sys :: "'m \<Rightarrow> ('m, 'p) sys" where
  "init_sys m = \<lparr>mem = m, stacks = (\<lambda>_. []), live = 0\<rparr>"

text \<open>
  A call (by the thread's code or by a signal handler that interrupts it), an action of the
  running activation, and the return of a finished activation to the one beneath. Every activation
  occupies memory, so fewer than \<open>2 ^ 32 - 1\<close> of them are in progress.
\<close>

datatype event = Call tid | Run tid env | Return tid

fun event_thread :: "event \<Rightarrow> tid" where
  "event_thread (Call t) = t"
| "event_thread (Run t c) = t"
| "event_thread (Return t) = t"

fun quiet_event :: "event \<Rightarrow> bool" where
  "quiet_event (Call t) = False"
| "quiet_event (Run t c) = quiet c"
| "quiet_event (Return t) = True"

definition max_live :: nat where
  "max_live = 2 ^ 32 - 1"

inductive sys_step :: "('m, 'p) lock_code \<Rightarrow> event \<Rightarrow> ('m, 'p) sys \<Rightarrow> ('m, 'p) sys \<Rightarrow> bool"
  for L :: "('m, 'p) lock_code" where
  call: "tid_ok L t \<Longrightarrow> stacks s t = [] \<or> \<not> sleeping L (hd (stacks s t)) \<Longrightarrow> Suc (live s) < max_live \<Longrightarrow>
    sys_step L (Call t) s
      (s\<lparr>stacks := (stacks s)(t := start L # stacks s t), live := Suc (live s)\<rparr>)"
| run: "stacks s t = p # ps \<Longrightarrow> allowed L p c \<Longrightarrow> act L t c (mem s) p = Some (m', p') \<Longrightarrow>
    sys_step L (Run t c) s (s\<lparr>mem := m', stacks := (stacks s)(t := p' # ps)\<rparr>)"
| return: "stacks s t = p # ps \<Longrightarrow> finished L p \<Longrightarrow>
    sys_step L (Return t) s (s\<lparr>stacks := (stacks s)(t := ps), live := live s - 1\<rparr>)"

inductive_cases call_step: "sys_step L (Call t) s s'"
inductive_cases run_step: "sys_step L (Run t c) s s'"
inductive_cases return_step: "sys_step L (Return t) s s'"

inductive reachable :: "('m, 'p) lock_code \<Rightarrow> 'm \<Rightarrow> ('m, 'p) sys \<Rightarrow> bool"
  for L :: "('m, 'p) lock_code" and m0 :: 'm where
  initial: "reachable L m0 (init_sys m0)"
| step: "reachable L m0 s \<Longrightarrow> sys_step L e s s' \<Longrightarrow> reachable L m0 s'"

section \<open>Executing a schedule\<close>

text \<open>The step relation as a function, and the run of a list of events.\<close>

fun exec :: "('m, 'p) lock_code \<Rightarrow> event \<Rightarrow> ('m, 'p) sys \<Rightarrow> ('m, 'p) sys option" where
  "exec L (Call t) s =
     (if tid_ok L t \<and> (stacks s t = [] \<or> \<not> sleeping L (hd (stacks s t))) \<and> Suc (live s) < max_live
      then Some (s\<lparr>stacks := (stacks s)(t := start L # stacks s t), live := Suc (live s)\<rparr>)
      else None)"
| "exec L (Run t c) s =
     (case stacks s t of
        [] \<Rightarrow> None
      | p # ps \<Rightarrow>
          if allowed L p c
          then (case act L t c (mem s) p of
                  None \<Rightarrow> None
                | Some (m', p') \<Rightarrow> Some (s\<lparr>mem := m', stacks := (stacks s)(t := p' # ps)\<rparr>))
          else None)"
| "exec L (Return t) s =
     (case stacks s t of
        [] \<Rightarrow> None
      | p # ps \<Rightarrow>
          if finished L p
          then Some (s\<lparr>stacks := (stacks s)(t := ps), live := live s - 1\<rparr>) else None)"

fun exec_all :: "('m, 'p) lock_code \<Rightarrow> event list \<Rightarrow> ('m, 'p) sys \<Rightarrow> ('m, 'p) sys option" where
  "exec_all L [] s = Some s"
| "exec_all L (e # es) s = (case exec L e s of None \<Rightarrow> None | Some s' \<Rightarrow> exec_all L es s')"

lemma sys_step_exec: "sys_step L e s s' \<longleftrightarrow> exec L e s = Some s'"
  by (cases e)
    (auto intro!: sys_step.intros elim!: call_step run_step return_step
      split: if_splits list.splits option.splits simp del: One_nat_def)

lemma exec_all_reachable_from:
  assumes "reachable L m0 s" and "exec_all L es s = Some s'"
  shows "reachable L m0 s'"
  using assms
  by (induction es arbitrary: s)
    (auto split: option.splits intro: reachable.step [OF _ sys_step_exec [THEN iffD2]])

lemma exec_all_reachable:
  assumes "exec_all L es (init_sys m0) = Some s"
  shows "reachable L m0 s"
  using reachable.initial assms by (rule exec_all_reachable_from)

text \<open>Every property of one step that is kept holds in all reachable states.\<close>

lemma reachable_invariant:
  assumes "reachable L m0 s"
    and "P (init_sys m0)"
    and "\<And>s e s'. reachable L m0 s \<Longrightarrow> P s \<Longrightarrow> sys_step L e s s' \<Longrightarrow> P s'"
  shows "P s"
  using assms(1) by induction (use assms(2,3) in auto)

lemma init_sys_simps [simp]:
  "mem (init_sys m) = m" "stacks (init_sys m) = (\<lambda>_. [])" "live (init_sys m) = 0"
  by (simp_all add: init_sys_def)

section \<open>Steps that only concern the machine\<close>

text \<open>Only threads with a valid id have activations.\<close>

lemma reachable_tid_ok:
  assumes "reachable L m0 s" and "stacks s t \<noteq> []"
  shows "tid_ok L t"
proof -
  have "\<forall>t. stacks s t \<noteq> [] \<longrightarrow> tid_ok L t"
    using assms(1)
    by (rule reachable_invariant) (auto elim!: sys_step.cases split: if_splits)
  with assms(2) show ?thesis by blast
qed

text \<open>The number of activations, in all threads, that satisfy a predicate.\<close>

definition total :: "('p \<Rightarrow> bool) \<Rightarrow> ('m, 'p) sys \<Rightarrow> nat" where
  "total P s = (\<Sum>t\<in>UNIV. count_of P (stacks s t))"

text \<open>\<open>live\<close> is the number of activations on all stacks.\<close>

definition depth :: "('m, 'p) sys \<Rightarrow> nat" where
  "depth s = (\<Sum>t\<in>UNIV. length (stacks s t))"

lemma reachable_live:
  assumes "reachable L m0 s"
  shows "live s = depth s \<and> live s < max_live"
  using assms
proof (rule reachable_invariant)
  show "live (init_sys m0) = depth (init_sys m0) \<and> live (init_sys m0) < max_live"
    by (simp add: depth_def max_live_def)
next
  fix s s' :: "('a, 'b) sys" and e
  assume inv: "live s = depth s \<and> live s < max_live" and step: "sys_step L e s s'"
  from step show "live s' = depth s' \<and> live s' < max_live"
  proof cases
    case (call t)
    with inv sum_fun_upd [of "\<lambda>_. length" "stacks s" t "start L # stacks s t"] show ?thesis
      by (simp add: depth_def)
  next
    case (run t p ps c m' p')
    with inv sum_fun_upd [of "\<lambda>_. length" "stacks s" t "p' # ps"] show ?thesis
      by (simp add: depth_def)
  next
    case (return t p ps)
    with sum_fun_upd [of "\<lambda>_. length" "stacks s" t ps] have "Suc (depth s') = depth s"
      by (simp add: depth_def)
    moreover from return have "live s' = live s - 1" by simp
    ultimately show ?thesis using inv by linarith
  qed
qed

end
