(* ===== verification/Lock_Contract.thy ===== *)
theory Lock_Contract
  imports Lock_Machine
begin

text \<open>
  The contract of a lock that records its owner's thread id. \<open>owned_lock\<close> states what each atomic
  action does to the owner; mutual exclusion, exclusive access to the protected item, the detection
  of recursive locking and the refinement of an abstract lock are proved from it once.
\<close>

section \<open>The abstract lock\<close>

text \<open>
  What \<open>SignalLock\<close> promises: it is free or held by one thread, a thread takes it only when it is
  free and only the holder frees it.
\<close>

inductive abs_lock_step :: "tid \<Rightarrow> tid option \<Rightarrow> tid option \<Rightarrow> bool" where
  abs_skip: "abs_lock_step t h h"
| abs_acquire: "abs_lock_step t None (Some t)"
| abs_release: "abs_lock_step t (Some t) None"

definition owner_of :: "('m \<Rightarrow> tid) \<Rightarrow> ('m, 'p) sys \<Rightarrow> tid option" where
  "owner_of own s = (if own (mem s) = 0 then None else Some (own (mem s)))"

section \<open>Invariants over an owner and a classification of program points\<close>

text \<open>The owner has exactly one activation that holds the lock, every other thread has none.\<close>

definition owner_inv :: "('m \<Rightarrow> tid) \<Rightarrow> ('p \<Rightarrow> bool) \<Rightarrow> ('m, 'p) sys \<Rightarrow> bool" where
  "owner_inv own holds s \<longleftrightarrow>
     (\<forall>t. count_of holds (stacks s t) = (if t \<noteq> 0 \<and> own (mem s) = t then 1 else 0))"

text \<open>
  An activation that contends for the lock is above none that holds it, and one that has failed
  with \<open>Err(Recursive)\<close> is above one that holds it.
\<close>

definition frame_ok ::
    "('p \<Rightarrow> bool) \<Rightarrow> ('p \<Rightarrow> bool) \<Rightarrow> ('p \<Rightarrow> bool) \<Rightarrow> 'p \<Rightarrow> 'p list \<Rightarrow> bool" where
  "frame_ok holds contends recursive p ps \<longleftrightarrow>
     (contends p \<longrightarrow> (\<forall>q \<in> set ps. \<not> holds q)) \<and> (recursive p \<longrightarrow> (\<exists>q \<in> set ps. holds q))"

definition nesting_inv ::
    "('p \<Rightarrow> bool) \<Rightarrow> ('p \<Rightarrow> bool) \<Rightarrow> ('p \<Rightarrow> bool) \<Rightarrow> ('m, 'p) sys \<Rightarrow> bool" where
  "nesting_inv holds contends recursive s \<longleftrightarrow>
     (\<forall>t. each_above (frame_ok holds contends recursive) (stacks s t))"

lemma owner_inv_holds:
  assumes "owner_inv own holds s" and "q \<in> set (stacks s t)" and "holds q"
  shows "t \<noteq> 0 \<and> own (mem s) = t"
proof -
  have "0 < count_of holds (stacks s t)"
    unfolding count_of_pos using assms(2,3) by blast
  with assms(1) show ?thesis
    by (auto simp: owner_inv_def split: if_splits)
qed

lemma owner_inv_owned:
  assumes "owner_inv own holds s" and "own (mem s) = t" and "t \<noteq> 0"
  shows "\<exists>q \<in> set (stacks s t). holds q"
  using assms unfolding owner_inv_def count_of_pos [symmetric] by simp

lemma owner_inv_not_owned:
  assumes "owner_inv own holds s" and "own (mem s) \<noteq> t" and "q \<in> set (stacks s t)"
  shows "\<not> holds q"
  using owner_inv_holds assms by fastforce

section \<open>The laws of a lock that records its owner\<close>

locale exclusive_lock =
  fixes L :: "('m, 'p) lock_code"
    and m0 :: 'm
    and own :: "'m \<Rightarrow> tid"
    and item :: "'m \<Rightarrow> 'a"
    and holds :: "'p \<Rightarrow> bool"
  assumes own_initial: "own m0 = 0"
    and start_free: "\<not> holds (start L)"
    and tid_nonzero: "tid_ok L t \<Longrightarrow> t \<noteq> 0"
    and finished_not_holds: "finished L p \<Longrightarrow> \<not> holds p"
    and act_keeps: "tid_ok L t \<Longrightarrow> act L t c m p = Some (m', p') \<Longrightarrow> holds p \<longleftrightarrow> holds p' \<Longrightarrow>
      own m' = own m"
    and act_acquires: "tid_ok L t \<Longrightarrow> act L t c m p = Some (m', p') \<Longrightarrow> \<not> holds p \<Longrightarrow> holds p' \<Longrightarrow>
      own m = 0 \<and> own m' = t"
    and act_releases: "tid_ok L t \<Longrightarrow> act L t c m p = Some (m', p') \<Longrightarrow> holds p \<Longrightarrow> \<not> holds p' \<Longrightarrow>
      own m' = 0"
    and act_item: "act L t c m p = Some (m', p') \<Longrightarrow> \<not> holds p \<Longrightarrow> item m' = item m"
begin

lemma run_owner_inv:
  assumes inv: "owner_inv own holds s" and stk: "stacks s t = p # ps" and ok: "tid_ok L t"
    and act: "act L t c (mem s) p = Some (m', p')"
  shows "owner_inv own holds (s\<lparr>mem := m', stacks := (stacks s)(t := p' # ps)\<rparr>)"
proof -
  have t0: "t \<noteq> 0" by (rule tid_nonzero [OF ok])
  have cnt: "count_of holds (p # ps) = (if own (mem s) = t then 1 else 0)"
    using inv t0 by (simp add: owner_inv_def flip: stk)
  have others: "count_of holds (stacks s u) = (if u \<noteq> 0 \<and> own (mem s) = u then 1 else 0)" for u
    using inv by (simp add: owner_inv_def)
  consider (same) "holds p \<longleftrightarrow> holds p'" | (acq) "\<not> holds p" "holds p'" | (rel) "holds p" "\<not> holds p'"
    by blast
  then show ?thesis
  proof cases
    case same
    then have "own m' = own (mem s)" by (rule act_keeps [OF ok act])
    with same cnt others t0 show ?thesis by (auto simp: owner_inv_def split: if_splits)
  next
    case acq
    with act_acquires [OF ok act] cnt others t0 show ?thesis
      by (auto simp: owner_inv_def split: if_splits)
  next
    case rel
    with cnt have own: "own (mem s) = t" by (simp split: if_splits)
    from act_releases [OF ok act rel] own rel cnt others t0 show ?thesis
      by (auto simp: owner_inv_def split: if_splits)
  qed
qed

lemma reachable_owner_inv:
  assumes "reachable L m0 s"
  shows "owner_inv own holds s"
  using assms
proof (rule reachable_invariant)
  show "owner_inv own holds (init_sys m0)"
    by (simp add: owner_inv_def own_initial)
next
  fix s e s'
  assume r: "reachable L m0 s" and inv: "owner_inv own holds s" and step: "sys_step L e s s'"
  from step show "owner_inv own holds s'"
  proof cases
    case (call t)
    with inv start_free show ?thesis by (simp add: owner_inv_def)
  next
    case (run t p ps c m' p')
    have "tid_ok L t" using reachable_tid_ok [OF r] run by simp
    with run run_owner_inv inv show ?thesis by auto
  next
    case (return t p ps)
    have "count_of holds (p # ps) = (if t \<noteq> 0 \<and> own (mem s) = t then 1 else 0)"
      using inv by (auto simp: owner_inv_def simp flip: return(3))
    with inv return finished_not_holds show ?thesis
      by (auto simp: owner_inv_def split: if_splits)
  qed
qed

text \<open>Two activations that hold the lock are the same activation of the same thread.\<close>

lemma mutual_exclusion:
  assumes r: "reachable L m0 s"
    and "i < length (stacks s t)" and "holds (stacks s t ! i)"
    and "j < length (stacks s u)" and "holds (stacks s u ! j)"
  shows "t = u \<and> i = j"
proof -
  have inv: "owner_inv own holds s" using reachable_owner_inv [OF r] .
  have "own (mem s) = t" and "own (mem s) = u"
    using owner_inv_holds [OF inv] assms nth_mem by metis+
  then have "t = u" by simp
  moreover have "count_of holds (stacks s t) \<le> 1"
    using inv by (simp add: owner_inv_def)
  ultimately show ?thesis
    using count_of_unique assms(2-) by blast
qed

text \<open>Hence at most one activation of the whole program holds the lock.\<close>

lemma one_holder:
  assumes "reachable L m0 s"
  shows "total holds s \<le> 1"
proof -
  have "total holds s = (\<Sum>t\<in>UNIV. if t = own (mem s) \<and> t \<noteq> 0 then 1 else 0)"
    using reachable_owner_inv [OF assms] unfolding total_def owner_inv_def
    by (intro sum.cong) auto
  also have "\<dots> \<le> (\<Sum>t\<in>UNIV. if t = own (mem s) then 1 else 0)"
    by (intro sum_mono) simp
  also have "\<dots> = 1" by simp
  finally show ?thesis .
qed

text \<open>While an activation runs that holds the lock, no other one holds it.\<close>

lemma other_not_holds:
  assumes inv: "owner_inv own holds s" and stk: "stacks s t = p # ps"
    and q: "q \<in> set (stacks s u)" "u \<noteq> t \<or> q \<in> set ps" "holds q"
  shows "\<not> holds p"
proof
  assume p: "holds p"
  have "own (mem s) = u" by (rule owner_inv_holds [OF inv q(1,3), THEN conjunct2])
  moreover have own: "own (mem s) = t" using owner_inv_holds [OF inv _ p, of t] stk by simp
  ultimately have "0 < count_of holds ps" using q by (auto simp: count_of_pos)
  moreover have "count_of holds (p # ps) \<le> 1"
    using inv by (simp add: owner_inv_def flip: stk)
  ultimately show False using p by simp
qed

text \<open>While an activation holds the lock, no step of another activation changes the item.\<close>

lemma exclusive_item:
  assumes r: "reachable L m0 s" and "q \<in> set (stacks s u)" and "holds q"
    and step: "sys_step L e s s'"
    and other: "event_thread e \<noteq> u \<or> \<not> holds (hd (stacks s u))"
  shows "item (mem s') = item (mem s)"
  using step
proof cases
  case (run t p ps c m' p')
  have inv: "owner_inv own holds s" using reachable_owner_inv [OF r] by simp
  have "own (mem s) = u" using owner_inv_holds [OF inv assms(2,3)] by simp
  with other run have "\<not> holds p"
    using owner_inv_not_owned [OF inv, of t p] by (cases "t = u") auto
  with run act_item show ?thesis by simp
qed simp_all

text \<open>Every step is a step of the abstract lock by the thread that moves.\<close>

lemma refines_abs_lock:
  assumes r: "reachable L m0 s" and step: "sys_step L e s s'"
  shows "abs_lock_step (event_thread e) (owner_of own s) (owner_of own s')"
  using step
proof cases
  case (run t p ps c m' p')
  have ok: "tid_ok L t" using reachable_tid_ok [OF r] run by simp
  have act: "act L t c (mem s) p = Some (m', p')" by (rule run)
  have held: "holds p \<Longrightarrow> own (mem s) = t \<and> t \<noteq> 0"
    using owner_inv_holds [of own holds s p t] reachable_owner_inv [OF r] run by simp
  consider (same) "holds p \<longleftrightarrow> holds p'" | (acq) "\<not> holds p" "holds p'" | (rel) "holds p" "\<not> holds p'"
    by blast
  then show ?thesis
    by cases
      (use run act_keeps [OF ok act] act_acquires [OF ok act] act_releases [OF ok act] held
        tid_nonzero [OF ok] in \<open>auto simp: owner_of_def intro: abs_lock_step.intros\<close>)
qed (auto simp: owner_of_def intro: abs_lock_step.intros)

end

section \<open>The laws of a lock that detects recursion\<close>

locale owned_lock = exclusive_lock L m0 own item holds
  for L :: "('m, 'p) lock_code" and m0 :: 'm and own :: "'m \<Rightarrow> tid" and item :: "'m \<Rightarrow> 'a"
    and holds :: "'p \<Rightarrow> bool" +
  fixes contends recursive :: "'p \<Rightarrow> bool"
  assumes start_quiet: "\<not> contends (start L)" "\<not> recursive (start L)"
    and contends_not_holds: "contends p \<Longrightarrow> \<not> holds p"
    and act_contends: "tid_ok L t \<Longrightarrow> act L t c m p = Some (m', p') \<Longrightarrow> contends p' \<Longrightarrow>
      \<not> contends p \<Longrightarrow> own m \<noteq> t \<and> \<not> holds p"
    and act_recursive: "tid_ok L t \<Longrightarrow> act L t c m p = Some (m', p') \<Longrightarrow> recursive p' \<Longrightarrow>
      \<not> recursive p \<Longrightarrow> own m = t \<and> \<not> holds p"
    and start_recursive: "tid_ok L t \<Longrightarrow> act L t c m (start L) = Some (m', p') \<Longrightarrow> own m = t \<Longrightarrow>
      recursive p' \<and> m' = m"
begin

abbreviation "lock_inv s \<equiv> owner_inv own holds s \<and> nesting_inv holds contends recursive s"

lemma run_nesting_inv:
  assumes own_inv: "owner_inv own holds s" and nest: "nesting_inv holds contends recursive s"
    and stk: "stacks s t = p # ps" and ok: "tid_ok L t"
    and act: "act L t c (mem s) p = Some (m', p')"
  shows "nesting_inv holds contends recursive (s\<lparr>mem := m', stacks := (stacks s)(t := p' # ps)\<rparr>)"
proof -
  have each: "each_above (frame_ok holds contends recursive) (p # ps)"
    using nest by (simp add: nesting_inv_def flip: stk)
  have "\<forall>q \<in> set ps. \<not> holds q" if "contends p'"
  proof (cases "contends p")
    case True
    with each show ?thesis by (simp add: frame_ok_def)
  next
    case False
    with act_contends [OF ok act that] own_inv stk show ?thesis
      by (auto dest: owner_inv_not_owned)
  qed
  moreover have "\<exists>q \<in> set ps. holds q" if "recursive p'"
  proof (cases "recursive p")
    case True
    with each show ?thesis by (simp add: frame_ok_def)
  next
    case False
    with act_recursive [OF ok act that] owner_inv_owned [OF own_inv _ tid_nonzero [OF ok]] stk
    show ?thesis by auto
  qed
  ultimately show ?thesis
    using nest each by (simp add: nesting_inv_def frame_ok_def)
qed

lemma nesting_step:
  assumes "reachable L m0 s" and inv: "nesting_inv holds contends recursive s" and step: "sys_step L e s s'"
  shows "nesting_inv holds contends recursive s'"
  using step
proof cases
  case (call t)
  with inv start_quiet show ?thesis
    by (auto simp: nesting_inv_def frame_ok_def)
next
  case (run t p ps c m' p')
  have "tid_ok L t" using reachable_tid_ok [OF assms(1)] run by simp
  with run run_nesting_inv reachable_owner_inv [OF assms(1)] inv show ?thesis by auto
next
  case (return t p ps)
  have "each_above (frame_ok holds contends recursive) (p # ps)"
    using inv by (auto simp: nesting_inv_def simp flip: return(3))
  with inv return show ?thesis
    by (auto simp: nesting_inv_def split: if_splits)
qed

lemma reachable_inv:
  assumes "reachable L m0 s"
  shows "lock_inv s"
proof
  show "nesting_inv holds contends recursive s"
    using assms
  proof (rule reachable_invariant)
    show "nesting_inv holds contends recursive (init_sys m0)" by (simp add: nesting_inv_def)
  qed (rule nesting_step)
qed (rule reachable_owner_inv [OF assms])

text \<open>A contender never waits for its own thread: its thread does not hold the lock.\<close>

lemma contender_not_owner:
  assumes inv: "lock_inv s" and "stacks s t = p # ps" and "contends p" and "t \<noteq> 0"
  shows "own (mem s) \<noteq> t"
proof
  assume "own (mem s) = t"
  with owner_inv_owned inv assms(2,4) obtain q where "q \<in> set (p # ps)" "holds q" by metis
  moreover have "frame_ok holds contends recursive p ps"
    using inv assms(2) unfolding nesting_inv_def by (metis each_above.simps(2))
  ultimately show False
    using assms(3) contends_not_holds by (auto simp: frame_ok_def)
qed

text \<open>
  An activation has failed with \<open>Err(Recursive)\<close> only while its own thread holds the lock in an
  activation beneath, and a call made while the thread holds the lock fails so at once.
\<close>

lemma recursive_held_beneath:
  assumes "reachable L m0 s" and "stacks s t = p # ps" and "recursive p"
  shows "\<exists>q \<in> set ps. holds q"
proof -
  have "nesting_inv holds contends recursive s" using reachable_inv [OF assms(1)] by simp
  then have "frame_ok holds contends recursive p ps"
    using assms(2) unfolding nesting_inv_def by (metis each_above.simps(2))
  with assms(3) show ?thesis by (simp add: frame_ok_def)
qed

lemma reentrant_call_recursive:
  assumes r: "reachable L m0 s" and stk: "stacks s t = start L # ps" and "q \<in> set ps" and "holds q"
    and step: "sys_step L (Run t c) s s'"
  shows "\<exists>p'. stacks s' t = p' # ps \<and> recursive p' \<and> mem s' = mem s"
proof -
  have ok: "tid_ok L t" using reachable_tid_ok [OF r] stk by simp
  have own: "own (mem s) = t"
    using owner_inv_holds [of own holds s q t] reachable_inv [OF r] assms(2-4) by simp
  from step stk obtain m' p' where "act L t c (mem s) (start L) = Some (m', p')"
    and "s' = s\<lparr>mem := m', stacks := (stacks s)(t := p' # ps)\<rparr>"
    by (auto elim: run_step)
  with start_recursive [OF ok _ own] show ?thesis by auto
qed

end

end
