(* ===== verification/Std_Mutex.thy ===== *)
theory Std_Mutex
  imports Lock_Contract
begin

text \<open>
  The implementation of the trait \<open>Lock\<close> for \<open>std::sync::Mutex\<close> (\<open>signal_lock/src/lib.rs\<close>), which
  the crate offers for comparison. The standard library's mutex blocks while it is held and is poisoned
  by a panic of its holder; the implementation unwraps, and so panics when the mutex is poisoned.
  Unlike the locks of the crate it does not detect recursion.
\<close>

section \<open>The operations\<close>

record 'a std_mutex =
  item :: 'a
  mutex_owner :: tid
  poisoned :: bool

text \<open>
  After \<open>lock\<close>, \<open>unwrap\<close> has the guard of the result or of the \<open>PoisonError\<close>, which the panic drops.
\<close>

datatype 'l mutex_pc =
    MutexLock
  | Unwrap
  | Guarded 'l
  | DropPoisoned
  | MutexDone
  | MutexPanicked

definition std_mutex_new :: "'a \<Rightarrow> 'a std_mutex" where
  "std_mutex_new x = \<lparr>item = x, mutex_owner = 0, poisoned = False\<rparr>"

definition std_lock :: "tid \<Rightarrow> 'a std_mutex \<Rightarrow> ('a std_mutex \<times> 'l mutex_pc) option" where
  "std_lock t m = (if mutex_owner m = 0 then Some (m\<lparr>mutex_owner := t\<rparr>, Unwrap) else None)"

definition std_unwrap :: "'l \<Rightarrow> 'a std_mutex \<Rightarrow> 'a std_mutex \<times> 'l mutex_pc" where
  "std_unwrap l0 m = (m, if poisoned m then DropPoisoned else Guarded l0)"

text \<open>The critical section goes on, ends, or panics (the answer \<open>Fail\<close> of the environment).\<close>

definition std_guarded ::
    "('l \<Rightarrow> 'a \<Rightarrow> ('l \<times> 'a) option) \<Rightarrow> env \<Rightarrow> 'l \<Rightarrow> 'a std_mutex \<Rightarrow> 'a std_mutex \<times> 'l mutex_pc" where
  "std_guarded body c l m =
     (if c = Normal then
        case body l (item m) of
          Some (l', x) \<Rightarrow> (m\<lparr>item := x\<rparr>, Guarded l')
        | None \<Rightarrow> (m\<lparr>mutex_owner := 0\<rparr>, MutexDone)
      else (m\<lparr>mutex_owner := 0, poisoned := True\<rparr>, MutexPanicked))"

fun std_mutex_act ::
    "('l \<Rightarrow> 'a \<Rightarrow> ('l \<times> 'a) option) \<Rightarrow> 'l \<Rightarrow> tid \<Rightarrow> env \<Rightarrow> 'a std_mutex \<Rightarrow> 'l mutex_pc \<Rightarrow>
     ('a std_mutex \<times> 'l mutex_pc) option" where
  "std_mutex_act body l0 t c m MutexLock = std_lock t m"
| "std_mutex_act body l0 t c m Unwrap = Some (std_unwrap l0 m)"
| "std_mutex_act body l0 t c m (Guarded l) = Some (std_guarded body c l m)"
| "std_mutex_act body l0 t c m DropPoisoned = Some (m\<lparr>mutex_owner := 0\<rparr>, MutexPanicked)"
| "std_mutex_act body l0 t c m p = None"

fun std_mutex_allowed :: "'l mutex_pc \<Rightarrow> env \<Rightarrow> bool" where
  "std_mutex_allowed (Guarded l) c = (c = Normal \<or> c = Fail EAGAIN)"
| "std_mutex_allowed p c = (c = Normal)"

fun std_mutex_finished :: "'l mutex_pc \<Rightarrow> bool" where
  "std_mutex_finished MutexDone = True"
| "std_mutex_finished MutexPanicked = True"
| "std_mutex_finished p = False"

fun std_mutex_holds :: "'l mutex_pc \<Rightarrow> bool" where
  "std_mutex_holds Unwrap = True"
| "std_mutex_holds (Guarded l) = True"
| "std_mutex_holds DropPoisoned = True"
| "std_mutex_holds p = False"

definition std_mutex_code ::
    "('l \<Rightarrow> 'a \<Rightarrow> ('l \<times> 'a) option) \<Rightarrow> 'l \<Rightarrow> ('a std_mutex, 'l mutex_pc) lock_code" where
  "std_mutex_code body l0 =
     \<lparr>start = MutexLock, act = std_mutex_act body l0, allowed = std_mutex_allowed,
      finished = std_mutex_finished, sleeping = (\<lambda>_. False), tid_ok = (\<lambda>t. t \<noteq> 0)\<rparr>"

lemma std_mutex_code_simps [simp]:
  "start (std_mutex_code body l0) = MutexLock" "act (std_mutex_code body l0) = std_mutex_act body l0"
  "allowed (std_mutex_code body l0) = std_mutex_allowed" "finished (std_mutex_code body l0) = std_mutex_finished"
  "sleeping (std_mutex_code body l0) = (\<lambda>_. False)" "tid_ok (std_mutex_code body l0) = (\<lambda>t. t \<noteq> 0)"
  by (simp_all add: std_mutex_code_def)

lemmas std_mutex_defs = std_lock_def std_unwrap_def std_guarded_def

interpretation std_mutex: exclusive_lock "std_mutex_code body l0" "std_mutex_new x0" mutex_owner
    std_mutex.item std_mutex_holds for body l0 x0
proof (unfold_locales, goal_cases)
  case 1
  show ?case by (simp add: std_mutex_new_def)
next
  case (4 p)
  then show ?case by (cases p) simp_all
next
  case (5 t c m p m' p')
  then show ?case by (cases p) (auto simp: std_mutex_defs split: if_splits option.splits)
next
  case (6 t c m p m' p')
  then show ?case by (cases p) (auto simp: std_mutex_defs split: if_splits option.splits)
next
  case (7 t c m p m' p')
  then show ?case by (cases p) (auto simp: std_mutex_defs split: if_splits option.splits)
next
  case (8 t c m p m' p')
  then show ?case by (cases p) (auto simp: std_mutex_defs split: if_splits)
qed simp_all

section \<open>Recursion and poisoning\<close>

text \<open>A call above an activation that holds the mutex is stuck: nothing but its own thread could free it.\<close>

lemma reentrant_call_stuck:
  assumes r: "reachable (std_mutex_code body l0) (std_mutex_new x0) s"
    and stk: "stacks s t = MutexLock # ps" and q: "q \<in> set ps" "std_mutex_holds q"
  shows "\<not> sys_step (std_mutex_code body l0) (Run t c) s s'"
proof
  assume "sys_step (std_mutex_code body l0) (Run t c) s s'"
  then have "mutex_owner (mem s) = 0"
    by (cases rule: run_step) (auto simp: stk std_lock_def split: if_splits)
  moreover have "mutex_owner (mem s) \<noteq> 0"
    using owner_inv_holds [OF std_mutex.reachable_owner_inv [OF r] _ q(2), of t] stk q(1) by auto
  ultimately show False by simp
qed

text \<open>In a poisoned mutex, no critical section runs, now or later.\<close>

definition poison_closed :: "('a std_mutex, 'l mutex_pc) sys \<Rightarrow> bool" where
  "poison_closed s \<longleftrightarrow> poisoned (mem s) \<longrightarrow> (\<forall>t l. Guarded l \<notin> set (stacks s t))"

lemma std_mutex_act_poison:
  assumes "std_mutex_act body l0 t c m p = Some (m', p')"
  shows "poisoned m \<Longrightarrow> poisoned m'" and "poisoned m' \<Longrightarrow> \<not> poisoned m \<Longrightarrow> std_mutex_holds p"
    and "poisoned m' \<Longrightarrow> p' = Guarded l \<Longrightarrow> \<exists>l. p = Guarded l \<and> poisoned m"
  using assms by (cases p; auto simp: std_mutex_defs split: if_splits option.splits)+

lemma poison_closed_run:
  assumes r: "reachable (std_mutex_code body l0) (std_mutex_new x0) s" and closed: "poison_closed s"
    and stk: "stacks s t = p # ps" and act: "std_mutex_act body l0 t c (mem s) p = Some (m', p')"
  shows "poison_closed (s\<lparr>mem := m', stacks := (stacks s)(t := p' # ps)\<rparr>)" (is "poison_closed ?s'")
  unfolding poison_closed_def
proof (intro impI allI notI)
  fix u l
  assume "poisoned (mem ?s')" and g: "Guarded l \<in> set (stacks ?s' u)"
  then have m': "poisoned m'" by simp
  have old: "Guarded l = p' \<or> Guarded l \<in> set (stacks s u) \<and> (u \<noteq> t \<or> Guarded l \<in> set ps)"
    using g stk by (auto split: if_splits)
  show False
  proof (cases "poisoned (mem s)")
    case True
    with closed have none: "Guarded k \<notin> set (stacks s v)" for k v by (simp add: poison_closed_def)
    have "p' \<noteq> Guarded k" for k
      using std_mutex_act_poison(3) [OF act m'] none [of _ t] stk by auto
    with old none show False by metis
  next
    case False
    then have "std_mutex_holds p" using std_mutex_act_poison(2) [OF act m'] by simp
    then have "\<not> std_mutex_holds q" if "q \<in> set (stacks s v)" "v \<noteq> t \<or> q \<in> set ps" for q v
      using std_mutex.other_not_holds [OF std_mutex.reachable_owner_inv [OF r] stk that] by blast
    moreover have "p' \<noteq> Guarded k" for k
      using std_mutex_act_poison(3) [OF act m'] False by auto
    ultimately show False using old by (metis std_mutex_holds.simps(2))
  qed
qed

lemma poison_closed_reachable:
  assumes "reachable (std_mutex_code body l0) (std_mutex_new x0) s"
  shows "poison_closed s"
  using assms
proof (induction rule: reachable.induct)
  case initial
  show ?case by (simp add: poison_closed_def std_mutex_new_def)
next
  case (step s e s')
  from step.hyps(2) show ?case
  proof cases
    case (call t)
    with step.IH show ?thesis by (auto simp: poison_closed_def)
  next
    case (return t p ps)
    then have "set (stacks s' u) \<subseteq> set (stacks s u)" for u by auto
    moreover have "mem s' = mem s" using return(2) by simp
    ultimately show ?thesis using step.IH unfolding poison_closed_def by (metis subsetD)
  next
    case (run t p ps c m' p')
    with poison_closed_run [OF step.hyps(1) step.IH] show ?thesis by simp
  qed
qed

end
