(* ===== verification/Lock_Progress.thy ===== *)
theory Lock_Progress
  imports Lock_Contract
begin

text \<open>
  The second half of the contract: no wake-up is lost. An activation \<open>waits\<close> when it is about to
  block, or blocked, until another one wakes it. \<open>waking_lock\<close> states how the responsibility for
  waking is handed over from step to step; from it follows that a waiter is always backed by the
  current owner (\<open>pend\<close>) or by an activation that is itself not stuck behind a waiter, hence that
  the threads never deadlock. With a well-founded order that the steps descend, all calls return
  when no further signals, spurious wake-ups or spurious failures occur.
\<close>

definition some_waiting :: "(tid \<Rightarrow> 'm \<Rightarrow> 'p \<Rightarrow> bool) \<Rightarrow> 'm \<Rightarrow> (tid \<Rightarrow> 'p list) \<Rightarrow> bool" where
  "some_waiting waiting m stk \<longleftrightarrow> (\<exists>t. \<exists>q \<in> set (stk t). waiting t m q)"

text \<open>Every waiter is backed.\<close>

definition backed ::
    "(tid \<Rightarrow> 'm \<Rightarrow> 'p \<Rightarrow> bool) \<Rightarrow> (tid \<Rightarrow> 'm \<Rightarrow> 'p \<Rightarrow> bool) \<Rightarrow> ('m \<Rightarrow> bool) \<Rightarrow> ('m, 'p) sys \<Rightarrow> bool" where
  "backed waiting resp pend s \<longleftrightarrow>
     (some_waiting waiting (mem s) (stacks s) \<longrightarrow>
        pend (mem s) \<or> (\<exists>t. exposed (resp t (mem s)) (waiting t (mem s)) (stacks s t)))"

definition idle :: "('m, 'p) sys \<Rightarrow> bool" where
  "idle s \<longleftrightarrow> (\<forall>t. stacks s t = [])"

definition quiet_step :: "('m, 'p) lock_code \<Rightarrow> ('m, 'p) sys \<Rightarrow> ('m, 'p) sys \<Rightarrow> bool" where
  "quiet_step L s s' \<longleftrightarrow> (\<exists>e. quiet_event e \<and> sys_step L e s s')"

locale waking_lock = owned_lock L m0 own item holds contends recursive
  for L :: "('m, 'p) lock_code" and m0 :: 'm and own :: "'m \<Rightarrow> tid" and item :: "'m \<Rightarrow> 'a"
    and holds contends recursive :: "'p \<Rightarrow> bool" +
  fixes sound :: "('m, 'p) sys \<Rightarrow> bool"
    and waiting resp asleep :: "tid \<Rightarrow> 'm \<Rightarrow> 'p \<Rightarrow> bool"
    and pend :: "'m \<Rightarrow> bool"
  assumes reachable_sound: "reachable L m0 s \<Longrightarrow> sound s"
    and waiting_contends: "waiting t m p \<Longrightarrow> contends p"
    and finished_idle: "finished L p \<Longrightarrow> \<not> resp t m p \<and> \<not> waiting t m p"
    and resp_not_waiting: "resp t m p \<Longrightarrow> \<not> waiting t m p"
    and asleep_waiting: "asleep t m p \<Longrightarrow> waiting t m p"
    and others_keep: "reachable L m0 s \<Longrightarrow> sound s \<Longrightarrow> stacks s t = p # ps \<Longrightarrow>
      act L t c (mem s) p = Some (m', p') \<Longrightarrow> q \<in> set ps \<and> u = t \<or> q \<in> set (stacks s u) \<and> u \<noteq> t \<Longrightarrow>
      (resp u (mem s) q \<longrightarrow> resp u m' q) \<and> (waiting u m' q \<longrightarrow> waiting u (mem s) q)"
    and hand_over: "reachable L m0 s \<Longrightarrow> sound s \<Longrightarrow> stacks s t = p # ps \<Longrightarrow> allowed L p c \<Longrightarrow>
      act L t c (mem s) p = Some (m', p') \<Longrightarrow> \<not> pend m' \<Longrightarrow>
      some_waiting waiting m' ((stacks s)(t := p' # ps)) \<Longrightarrow>
      resp t m' p' \<or> (\<exists>u q qs. u \<noteq> t \<and> stacks s u = q # qs \<and> resp u m' q) \<or>
      (\<not> pend (mem s) \<and> \<not> resp t (mem s) p \<and> \<not> waiting t m' p')"
    and pend_owned: "sound s \<Longrightarrow> pend (mem s) \<Longrightarrow>
      own (mem s) \<noteq> 0 \<or> (\<forall>t p. \<not> asleep t (mem s) p)"
    and act_progress: "reachable L m0 s \<Longrightarrow> sound s \<Longrightarrow> stacks s t = p # ps \<Longrightarrow>
      \<not> asleep t (mem s) p \<Longrightarrow> \<not> finished L p \<Longrightarrow>
      \<exists>c m' p'. quiet c \<and> allowed L p c \<and> act L t c (mem s) p = Some (m', p')"
begin

lemma start_not_waiting: "\<not> waiting t m (start L)"
  using waiting_contends start_quiet(1) by blast

text \<open>A step by an activation that neither was responsible nor waits leaves the responsible one exposed.\<close>

lemma neutral_exposed:
  assumes r: "reachable L m0 s" and stk: "stacks s t = p # ps"
    and act: "act L t c (mem s) p = Some (m', p')"
    and u: "exposed (resp u (mem s)) (waiting u (mem s)) (stacks s u)"
    and p: "\<not> resp t (mem s) p" and p': "\<not> waiting t m' p'"
  shows "exposed (resp u m') (waiting u m') (((stacks s)(t := p' # ps)) u)"
proof (cases "u = t")
  case True
  note keep = others_keep [OF r reachable_sound [OF r] stk act]
  from True u p stk have "exposed (resp t (mem s)) (waiting t (mem s)) ps" by simp
  then have "exposed (resp t m') (waiting t m') ps"
    by (rule exposed_mono) (use keep in blast)+
  with True p' show ?thesis by simp
next
  case False
  note keep = others_keep [OF r reachable_sound [OF r] stk act]
  from False have "exposed (resp u m') (waiting u m') (stacks s u)"
    using keep by (intro exposed_mono [OF u]) blast+
  with False show ?thesis by simp
qed

lemma run_backed:
  assumes r: "reachable L m0 s" and J: "backed waiting resp pend s"
    and stk: "stacks s t = p # ps" and allowed: "allowed L p c"
    and act: "act L t c (mem s) p = Some (m', p')"
  shows "backed waiting resp pend (s\<lparr>mem := m', stacks := (stacks s)(t := p' # ps)\<rparr>)"
    (is "backed _ _ _ ?s'")
proof -
  have ok: "sound s" by (rule reachable_sound [OF r])
  note keep = others_keep [OF r ok stk act]
  have "\<exists>u. exposed (resp u (mem ?s')) (waiting u (mem ?s')) (stacks ?s' u)"
    if w: "some_waiting waiting (mem ?s') (stacks ?s')" and "\<not> pend (mem ?s')"
  proof -
    from that(2) have np: "\<not> pend m'" by simp
    from w have w': "some_waiting waiting m' ((stacks s)(t := p' # ps))" by simp
    from hand_over [OF r ok stk allowed act np w'] consider
      (self) "resp t m' p'"
    | (other) u q qs where "u \<noteq> t" "stacks s u = q # qs" "resp u m' q"
    | (neutral) "\<not> pend (mem s)" "\<not> resp t (mem s) p" "\<not> waiting t m' p'"
      by blast
    then show ?thesis
    proof cases
      case self
      then have "exposed (resp t (mem ?s')) (waiting t (mem ?s')) (stacks ?s' t)" by simp
      then show ?thesis ..
    next
      case other
      then have "exposed (resp u (mem ?s')) (waiting u (mem ?s')) (stacks ?s' u)" by simp
      then show ?thesis ..
    next
      case neutral
      from w' neutral(3) keep have "some_waiting waiting (mem s) (stacks s)"
        unfolding some_waiting_def by (auto simp: stk split: if_splits) (metis list.set_intros(2) stk)+
      with J neutral(1) obtain u where u: "exposed (resp u (mem s)) (waiting u (mem s)) (stacks s u)"
        by (auto simp: backed_def)
      from neutral_exposed [OF r stk act u neutral(2,3)]
      have "exposed (resp u (mem ?s')) (waiting u (mem ?s')) (stacks ?s' u)" by simp
      then show ?thesis ..
    qed
  qed
  then show ?thesis unfolding backed_def by blast
qed

lemma backed_step:
  assumes "reachable L m0 s" and J: "backed waiting resp pend s" and step: "sys_step L e s s'"
  shows "backed waiting resp pend s'"
  using step
proof cases
  case (call t)
  have "exposed (resp u (mem s)) (waiting u (mem s)) (stacks s' u)"
    if "exposed (resp u (mem s)) (waiting u (mem s)) (stacks s u)" for u
    using that call start_not_waiting by auto
  moreover have "some_waiting waiting (mem s) (stacks s)" if "some_waiting waiting (mem s') (stacks s')"
    using that call start_not_waiting by (auto simp: some_waiting_def split: if_splits)
  moreover have "mem s' = mem s" using call by simp
  ultimately show ?thesis
    using J unfolding backed_def by metis
next
  case (run t p ps c m' p')
  with run_backed [OF assms(1,2)] show ?thesis by simp
next
  case (return t p ps)
  then have p: "\<not> resp t (mem s) p" "\<not> waiting t (mem s) p"
    using finished_idle by blast+
  have "some_waiting waiting (mem s) (stacks s)" if "some_waiting waiting (mem s') (stacks s')"
    using that return by (fastforce simp: some_waiting_def split: if_splits)
  moreover have "exposed (resp u (mem s')) (waiting u (mem s')) (stacks s' u)"
    if "exposed (resp u (mem s)) (waiting u (mem s)) (stacks s u)" for u
    using that return p by (cases "u = t") auto
  moreover have "mem s' = mem s" using return by simp
  ultimately show ?thesis
    using J unfolding backed_def by metis
qed

text \<open>No wake-up is lost.\<close>

lemma no_lost_wakeup:
  assumes "reachable L m0 s"
  shows "backed waiting resp pend s"
  using assms
proof (rule reachable_invariant)
  show "backed waiting resp pend (init_sys m0)"
    by (simp add: backed_def some_waiting_def)
qed (rule backed_step)

text \<open>As long as a thread has an activation, the running activation of some thread is awake.\<close>

lemma some_awake:
  assumes r: "reachable L m0 s" and "\<not> idle s"
  shows "\<exists>t p ps. stacks s t = p # ps \<and> \<not> asleep t (mem s) p"
proof (rule ccontr)
  assume "\<not> ?thesis"
  then have all: "asleep t (mem s) p" if "stacks s t = p # ps" for t p ps
    using that by blast
  from assms(2) obtain t p ps where stk: "stacks s t = p # ps"
    by (metis idle_def list.exhaust)
  with all asleep_waiting have "some_waiting waiting (mem s) (stacks s)"
    unfolding some_waiting_def by (metis list.set_intros(1))
  with no_lost_wakeup [OF r] consider
    (pend) "pend (mem s)" | (resp) u where "exposed (resp u (mem s)) (waiting u (mem s)) (stacks s u)"
    by (auto simp: backed_def)
  then show False
  proof cases
    case pend
    with pend_owned [OF reachable_sound [OF r]] all [OF stk] have "own (mem s) \<noteq> 0" by blast
    moreover have inv: "lock_inv s" by (rule reachable_inv [OF r])
    ultimately obtain q where "q \<in> set (stacks s (own (mem s)))" "holds q"
      using owner_inv_owned by blast
    then obtain x xs where x: "stacks s (own (mem s)) = x # xs"
      by (metis list.set_cases)
    with all asleep_waiting waiting_contends have "contends x" by blast
    with contender_not_owner [OF inv x] \<open>own (mem s) \<noteq> 0\<close> show False by blast
  next
    case resp
    then obtain x xs where x: "stacks s u = x # xs" by (cases "stacks s u") auto
    with resp resp_not_waiting have "\<not> waiting u (mem s) x"
      using exposed_head_free by metis
    with all [OF x] asleep_waiting show False by blast
  qed
qed

lemma no_deadlock:
  assumes r: "reachable L m0 s" and "\<not> idle s"
  shows "\<exists>s'. quiet_step L s s'"
proof -
  from some_awake [OF assms] obtain t p ps
    where stk: "stacks s t = p # ps" and awake: "\<not> asleep t (mem s) p" by blast
  show ?thesis
  proof (cases "finished L p")
    case True
    from sys_step.return [of s t p ps L, OF stk True] show ?thesis
      unfolding quiet_step_def by (metis quiet_event.simps(3))
  next
    case False
    from act_progress [OF r reachable_sound [OF r] stk awake False] obtain c m' p'
      where "quiet c" "allowed L p c" "act L t c (mem s) p = Some (m', p')" by blast
    with sys_step.run [of s t p ps L, OF stk] show ?thesis
      unfolding quiet_step_def by (metis quiet_event.simps(2))
  qed
qed

end

section \<open>Termination\<close>

text \<open>\<open>bm\<close> bounds the steps of the client's critical section \<open>body\<close>.\<close>

definition body_bounded :: "('l \<Rightarrow> 'a \<Rightarrow> ('l \<times> 'a) option) \<Rightarrow> ('l \<Rightarrow> nat) \<Rightarrow> bool" where
  "body_bounded body bm \<longleftrightarrow> (\<forall>l x l' x'. body l x = Some (l', x') \<longrightarrow> bm l' < bm l)"

lemma body_boundedD: "body_bounded body bm \<Longrightarrow> body l x = Some (l', x') \<Longrightarrow> bm l' < bm l"
  unfolding body_bounded_def by blast

context waking_lock
begin

lemma quiet_reachable: "reachable L m0 s \<Longrightarrow> quiet_step L s s' \<Longrightarrow> reachable L m0 s'"
  unfolding quiet_step_def by (blast intro: reachable.step)

text \<open>If every quiet step descends in a well-founded order, no run of quiet steps is infinite.\<close>

lemma no_infinite_run:
  assumes wf: "wf R" and desc: "\<And>s s'. reachable L m0 s \<Longrightarrow> quiet_step L s s' \<Longrightarrow> (s', s) \<in> R"
    and start: "reachable L m0 (f 0)"
  shows "\<not> (\<forall>i. quiet_step L (f i) (f (Suc i)))"
proof
  assume run: "\<forall>i. quiet_step L (f i) (f (Suc i))"
  have "reachable L m0 (f i)" for i
    by (induction i) (use start run quiet_reachable in auto)
  with run desc have "\<forall>i. (f (Suc i), f i) \<in> R" by blast
  with wf show False by (auto simp: wf_iff_no_infinite_down_chain)
qed

text \<open>Then every reachable state can run on to a state where all activations have returned.\<close>

lemma all_return:
  assumes wf: "wf R" and desc: "\<And>s s'. reachable L m0 s \<Longrightarrow> quiet_step L s s' \<Longrightarrow> (s', s) \<in> R"
    and start: "reachable L m0 s"
  shows "\<exists>s'. (quiet_step L)\<^sup>*\<^sup>* s s' \<and> idle s'"
  using wf start
proof (induction s rule: wf_induct_rule)
  case (less s)
  show ?case
  proof (cases "idle s")
    case True
    then show ?thesis by blast
  next
    case False
    from no_deadlock [OF less.prems this] obtain s1 where s1: "quiet_step L s s1" by blast
    with less.IH [OF desc quiet_reachable] less.prems
    obtain s' where "(quiet_step L)\<^sup>*\<^sup>* s1 s'" "idle s'" by blast
    with s1 show ?thesis by (meson converse_rtranclp_into_rtranclp)
  qed
qed

end

end
