(* ===== verification/Spec_Machine.thy ===== *)
theory Spec_Machine
  imports Lock_Progress
begin

text \<open>
  The TLA+ specifications of the two locks (\<open>tla/futex.tla\<close>, \<open>tla/pipe.tla\<close>) are PlusCal
  algorithms with the same frame: processes that call \<open>lock_unlock\<close> in a loop, a signal handler that
  may interrupt it at chosen labels and calls it again, and the two counters that bound the runs.
  This theory models the frame with the procedure \<open>lock_unlock\<close> and its global variables as
  parameters, and states in the locale \<open>spec_simulation\<close> what makes a procedure the specification
  of a lock's code: each action is a quiet action of the code or leaves the code's state as it is.
  From it follow, for every number of processes, signal depth and number of iterations, that the
  runs of the specification are runs of the code, that the specification's assertions hold and that
  it terminates. Theories Futex\_Spec and Pipe\_Spec interpret it.
\<close>

section \<open>Processes\<close>

text \<open>
  A process is its program counter in the main loop with the procedure activations on top of it,
  the running one first; an activation of \<open>lock_unlock\<close> is its label with its local variables. (The
  translation to TLA+ keeps the same in \<open>pc\<close>, in the current locals and in the frames of \<open>stack\<close>.)
\<close>

datatype main_label = At_start | At_p_done | At_Done

datatype 'v call = Handler_s0 | Handler_s1 | In_lock 'v

record 'v process =
  main :: main_label
  calls :: "'v call list"
  iterations :: nat
  signal_depth :: nat

record ('g, 'v) spec =
  glob :: 'g
  procs :: "tid \<Rightarrow> 'v process"
  failed :: bool

text \<open>What a step resolves: \<open>either skip or call handle_signal()\<close>, and the waiter of \<open>futex_wake\<close>.\<close>

datatype choice = Skip | Interrupt | Wakes tid

text \<open>
  How an action of \<open>lock_unlock\<close> ends: at the next label, in \<open>maybe_signal()\<close> with the label after
  it, in the \<open>return\<close> of \<open>Err(Recursive)\<close>, in \<open>u_end\<close>, or in a failed assertion.
\<close>

datatype 'v outcome = Goto 'v | Maybe_signal 'v | Err_recursive | Finish | Assert_fails

text \<open>The procedure: its first label, and its action, which is None while it is blocked.\<close>

record ('g, 'v) procedure =
  entry :: 'v
  action :: "tid \<Rightarrow> choice \<Rightarrow> nat \<Rightarrow> 'g \<Rightarrow> 'v \<Rightarrow> ('g \<times> 'v outcome) option"

definition may_signal :: "nat \<Rightarrow> 'v process \<Rightarrow> bool" where
  "may_signal D p \<longleftrightarrow> 0 < iterations p \<and> signal_depth p < D"

definition count_down :: "nat \<Rightarrow> nat" where
  "count_down n = (if n > 0 then n - 1 else n)"

section \<open>Steps\<close>

text \<open>
  \<open>D\<close> is \<open>MaxSignalDepth\<close>. The rules are the labels of the main loop and of \<open>handle_signal\<close>, and the
  outcomes of an action of \<open>lock_unlock\<close>.
\<close>

definition set_process :: "tid \<Rightarrow> 'v process \<Rightarrow> ('g, 'v) spec \<Rightarrow> ('g, 'v) spec" where
  "set_process t p s = s\<lparr>procs := (procs s)(t := p)\<rparr>"

inductive spec_step ::
    "('g, 'v) procedure \<Rightarrow> nat \<Rightarrow> tid \<Rightarrow> choice \<Rightarrow> ('g, 'v) spec \<Rightarrow> ('g, 'v) spec \<Rightarrow> bool"
  for P :: "('g, 'v) procedure" and D :: nat and t :: tid and c :: choice where
  start_call: "procs s t = p \<Longrightarrow> calls p = [] \<Longrightarrow> main p = At_start \<Longrightarrow> 0 < iterations p \<Longrightarrow>
    spec_step P D t c s (set_process t (p\<lparr>calls := [In_lock (entry P)]\<rparr>) s)"
| start_done: "procs s t = p \<Longrightarrow> calls p = [] \<Longrightarrow> main p = At_start \<Longrightarrow> iterations p = 0 \<Longrightarrow>
    spec_step P D t c s (set_process t (p\<lparr>main := At_p_done\<rparr>) s)"
| p_done: "procs s t = p \<Longrightarrow> calls p = [] \<Longrightarrow> main p = At_p_done \<Longrightarrow>
    spec_step P D t c s (set_process t (p\<lparr>main := At_Done\<rparr>) s)"
| s0: "procs s t = p \<Longrightarrow> calls p = Handler_s0 # cs \<Longrightarrow>
    spec_step P D t c s (set_process t
      (p\<lparr>signal_depth := signal_depth p + 1, calls := In_lock (entry P) # Handler_s1 # cs\<rparr>) s)"
| s1: "procs s t = p \<Longrightarrow> calls p = Handler_s1 # cs \<Longrightarrow>
    spec_step P D t c s (set_process t (p\<lparr>signal_depth := signal_depth p - 1, calls := cs\<rparr>) s)"
| goto: "procs s t = p \<Longrightarrow> calls p = In_lock v # cs \<Longrightarrow>
    action P t c (signal_depth p) (glob s) v = Some (g, Goto v') \<Longrightarrow>
    spec_step P D t c s (set_process t (p\<lparr>calls := In_lock v' # cs\<rparr>) (s\<lparr>glob := g\<rparr>))"
| skip: "procs s t = p \<Longrightarrow> calls p = In_lock v # cs \<Longrightarrow>
    action P t c (signal_depth p) (glob s) v = Some (g, Maybe_signal v') \<Longrightarrow> c \<noteq> Interrupt \<Longrightarrow>
    spec_step P D t c s (set_process t (p\<lparr>calls := In_lock v' # cs\<rparr>) (s\<lparr>glob := g\<rparr>))"
| interrupt: "procs s t = p \<Longrightarrow> calls p = In_lock v # cs \<Longrightarrow>
    action P t c (signal_depth p) (glob s) v = Some (g, Maybe_signal v') \<Longrightarrow> c = Interrupt \<Longrightarrow>
    may_signal D p \<Longrightarrow>
    spec_step P D t c s
      (set_process t (p\<lparr>calls := Handler_s0 # In_lock v' # cs\<rparr>) (s\<lparr>glob := g\<rparr>))"
| leave: "procs s t = p \<Longrightarrow> calls p = In_lock v # cs \<Longrightarrow>
    action P t c (signal_depth p) (glob s) v = Some (g, Err_recursive) \<Longrightarrow>
    spec_step P D t c s (set_process t (p\<lparr>calls := cs\<rparr>) (s\<lparr>glob := g\<rparr>))"
| u_end: "procs s t = p \<Longrightarrow> calls p = In_lock v # cs \<Longrightarrow>
    action P t c (signal_depth p) (glob s) v = Some (g, Finish) \<Longrightarrow>
    spec_step P D t c s (set_process t
      (p\<lparr>iterations := count_down (iterations p), calls := cs\<rparr>) (s\<lparr>glob := g\<rparr>))"
| assert_fails: "procs s t = p \<Longrightarrow> calls p = In_lock v # cs \<Longrightarrow>
    action P t c (signal_depth p) (glob s) v = Some (g, Assert_fails) \<Longrightarrow>
    spec_step P D t c s (s\<lparr>failed := True\<rparr>)"

text \<open>The step relation as a function.\<close>

definition spec_exec ::
    "('g, 'v) procedure \<Rightarrow> nat \<Rightarrow> tid \<Rightarrow> choice \<Rightarrow> ('g, 'v) spec \<Rightarrow> ('g, 'v) spec option" where
  "spec_exec P D t c s =
     (let p = procs s t in
      case calls p of
        [] \<Rightarrow>
          (case main p of
             At_start \<Rightarrow>
               if 0 < iterations p then Some (set_process t (p\<lparr>calls := [In_lock (entry P)]\<rparr>) s)
               else Some (set_process t (p\<lparr>main := At_p_done\<rparr>) s)
           | At_p_done \<Rightarrow> Some (set_process t (p\<lparr>main := At_Done\<rparr>) s)
           | At_Done \<Rightarrow> None)
      | Handler_s0 # cs \<Rightarrow>
          Some (set_process t
            (p\<lparr>signal_depth := signal_depth p + 1, calls := In_lock (entry P) # Handler_s1 # cs\<rparr>) s)
      | Handler_s1 # cs \<Rightarrow>
          Some (set_process t (p\<lparr>signal_depth := signal_depth p - 1, calls := cs\<rparr>) s)
      | In_lock v # cs \<Rightarrow>
          (case action P t c (signal_depth p) (glob s) v of
             None \<Rightarrow> None
           | Some (g, Goto v') \<Rightarrow>
               Some (set_process t (p\<lparr>calls := In_lock v' # cs\<rparr>) (s\<lparr>glob := g\<rparr>))
           | Some (g, Maybe_signal v') \<Rightarrow>
               if c \<noteq> Interrupt
               then Some (set_process t (p\<lparr>calls := In_lock v' # cs\<rparr>) (s\<lparr>glob := g\<rparr>))
               else if may_signal D p
               then Some (set_process t
                 (p\<lparr>calls := Handler_s0 # In_lock v' # cs\<rparr>) (s\<lparr>glob := g\<rparr>))
               else None
           | Some (g, Err_recursive) \<Rightarrow> Some (set_process t (p\<lparr>calls := cs\<rparr>) (s\<lparr>glob := g\<rparr>))
           | Some (g, Finish) \<Rightarrow>
               Some (set_process t
                 (p\<lparr>iterations := count_down (iterations p), calls := cs\<rparr>) (s\<lparr>glob := g\<rparr>))
           | Some (g, Assert_fails) \<Rightarrow> Some (s\<lparr>failed := True\<rparr>)))"

lemma spec_exec_step:
  assumes "spec_exec P D t c s = Some s'"
  shows "spec_step P D t c s s'"
  using assms unfolding spec_exec_def Let_def
  by (auto split: list.splits call.splits main_label.splits if_splits option.splits outcome.splits
      intro: spec_step.intros [OF refl] simp del: One_nat_def)

lemma spec_step_exec:
  assumes "spec_step P D t c s s'"
  shows "spec_exec P D t c s = Some s'"
  using assms by cases (simp_all add: spec_exec_def)

definition spec_init :: "tid set \<Rightarrow> nat \<Rightarrow> 'g \<Rightarrow> ('g, 'v) spec" where
  "spec_init Proc N g =
     \<lparr>glob = g,
      procs = (\<lambda>t. \<lparr>main = (if t \<in> Proc then At_start else At_Done), calls = [],
                    iterations = (if t \<in> Proc then N else 0), signal_depth = 0\<rparr>),
      failed = False\<rparr>"

inductive spec_reachable ::
    "('g, 'v) procedure \<Rightarrow> tid set \<Rightarrow> nat \<Rightarrow> nat \<Rightarrow> 'g \<Rightarrow> ('g, 'v) spec \<Rightarrow> bool"
  for P :: "('g, 'v) procedure" and Proc :: "tid set" and D N :: nat and g0 :: 'g where
  spec_initial: "spec_reachable P Proc D N g0 (spec_init Proc N g0)"
| spec_next: "spec_reachable P Proc D N g0 s \<Longrightarrow> spec_step P D t c s s' \<Longrightarrow>
    spec_reachable P Proc D N g0 s'"

definition spec_next_state :: "('g, 'v) procedure \<Rightarrow> nat \<Rightarrow> ('g, 'v) spec \<Rightarrow> ('g, 'v) spec \<Rightarrow> bool" where
  "spec_next_state P D s s' \<longleftrightarrow> (\<exists>t c. spec_step P D t c s s')"

text \<open>The goal of the specification's property \<open>Termination\<close>: every process is at \<open>Done\<close>.\<close>

definition all_done :: "('g, 'v) spec \<Rightarrow> bool" where
  "all_done s \<longleftrightarrow> (\<forall>t. main (procs s t) = At_Done \<and> calls (procs s t) = [])"

text \<open>
  The formula \<open>Spec\<close>: a behaviour starts in \<open>Init\<close>, makes a step of \<open>Next\<close> or stutters, and is weakly
  fair: if from some point on a step that changes the state is always possible, one is made. The
  further fairness conditions of the formula, on each process, are not needed. \<open>Termination\<close> says that
  every such behaviour reaches a state where all processes are done.
\<close>

definition spec_behaviour ::
    "('g, 'v) procedure \<Rightarrow> tid set \<Rightarrow> nat \<Rightarrow> nat \<Rightarrow> 'g \<Rightarrow> (nat \<Rightarrow> ('g, 'v) spec) \<Rightarrow> bool" where
  "spec_behaviour P Proc D N g0 f \<longleftrightarrow>
     f 0 = spec_init Proc N g0 \<and> (\<forall>i. spec_next_state P D (f i) (f (Suc i)) \<or> f (Suc i) = f i)"

definition weakly_fair :: "('g, 'v) procedure \<Rightarrow> nat \<Rightarrow> (nat \<Rightarrow> ('g, 'v) spec) \<Rightarrow> bool" where
  "weakly_fair P D f \<longleftrightarrow>
     (\<forall>i. (\<forall>j \<ge> i. \<exists>s'. spec_next_state P D (f j) s' \<and> s' \<noteq> f j) \<longrightarrow>
          (\<exists>j \<ge> i. spec_next_state P D (f j) (f (Suc j)) \<and> f (Suc j) \<noteq> f j))"

definition spec_terminating :: "('g, 'v) procedure \<Rightarrow> tid set \<Rightarrow> nat \<Rightarrow> nat \<Rightarrow> 'g \<Rightarrow> bool" where
  "spec_terminating P Proc D N g0 \<longleftrightarrow>
     (\<forall>f. spec_behaviour P Proc D N g0 f \<and> weakly_fair P D f \<longrightarrow> (\<exists>i. all_done (f i)))"

fun spec_exec_all ::
    "('g, 'v) procedure \<Rightarrow> nat \<Rightarrow> (tid \<times> choice) list \<Rightarrow> ('g, 'v) spec \<Rightarrow> ('g, 'v) spec option" where
  "spec_exec_all P D [] s = Some s"
| "spec_exec_all P D ((t, c) # es) s =
     (case spec_exec P D t c s of None \<Rightarrow> None | Some s' \<Rightarrow> spec_exec_all P D es s')"

lemma spec_exec_all_from:
  assumes "spec_exec_all P D es s = Some s'" and "spec_reachable P Proc D N g0 s"
  shows "spec_reachable P Proc D N g0 s'"
  using assms
  by (induction P D es s rule: spec_exec_all.induct)
    (auto split: option.splits dest: spec_exec_step intro: spec_next)

lemma spec_exec_all_reachable:
  assumes "spec_exec_all P D es (spec_init Proc N g0) = Some s"
  shows "spec_reachable P Proc D N g0 s"
  using assms spec_initial by (rule spec_exec_all_from)

section \<open>How often the lock is taken\<close>

text \<open>The calls of \<open>lock_unlock\<close> by process \<open>t\<close> that reach \<open>u_end\<close> in a run.\<close>

definition at_u_end :: "('g, 'v) procedure \<Rightarrow> tid \<Rightarrow> choice \<Rightarrow> ('g, 'v) spec \<Rightarrow> bool" where
  "at_u_end P t c s =
     (case calls (procs s t) of
        In_lock v # cs \<Rightarrow>
          (case action P t c (signal_depth (procs s t)) (glob s) v of
             Some (g, Finish) \<Rightarrow> True
           | _ \<Rightarrow> False)
      | _ \<Rightarrow> False)"

fun unlocks :: "('g, 'v) procedure \<Rightarrow> nat \<Rightarrow> tid \<Rightarrow> (tid \<times> choice) list \<Rightarrow> ('g, 'v) spec \<Rightarrow> nat" where
  "unlocks P D t [] s = 0"
| "unlocks P D t ((u, c) # es) s =
     (case spec_exec P D u c s of
        None \<Rightarrow> 0
      | Some s' \<Rightarrow> (if u = t \<and> at_u_end P u c s then 1 else 0) + unlocks P D t es s')"

lemma iterations_step:
  assumes "spec_step P D u c s s'"
  shows "iterations (procs s t) \<le> iterations (procs s' t) + (if u = t \<and> at_u_end P u c s then 1 else 0)"
  using assms by cases (auto simp: set_process_def at_u_end_def count_down_def)

lemma iterations_run:
  assumes "spec_exec_all P D es s = Some s'"
  shows "iterations (procs s t) \<le> iterations (procs s' t) + unlocks P D t es s"
  using assms
proof (induction P D es s rule: spec_exec_all.induct)
  case (2 P D u c es s)
  then obtain s1 where s1: "spec_exec P D u c s = Some s1" "spec_exec_all P D es s1 = Some s'"
    by (auto split: option.splits)
  with 2 iterations_step [OF spec_exec_step [OF s1(1)], of t] show ?case by fastforce
qed simp

text \<open>A process leaves the main loop only when its iterations are used up.\<close>

lemma loop_left:
  assumes "spec_reachable P Proc D N g0 s"
  shows "main (procs s t) = At_start \<or> iterations (procs s t) = 0"
  using assms
proof induction
  case (spec_next s u c s')
  from spec_next.hyps(2) spec_next.IH show ?case
    by cases (auto simp: set_process_def count_down_def)
qed (simp add: spec_init_def)

text \<open>Every process of a completed run has had the lock at least \<open>MaxIterations\<close> times.\<close>

definition all_take_turns :: "('g, 'v) procedure \<Rightarrow> tid set \<Rightarrow> nat \<Rightarrow> nat \<Rightarrow> 'g \<Rightarrow> bool" where
  "all_take_turns P Proc D N g0 \<longleftrightarrow>
     (\<forall>es s t. spec_exec_all P D es (spec_init Proc N g0) = Some s \<and> all_done s \<and> t \<in> Proc \<longrightarrow>
        N \<le> unlocks P D t es (spec_init Proc N g0))"

lemma at_least_iterations: "all_take_turns P Proc D N g0"
  unfolding all_take_turns_def
proof (intro allI impI, elim conjE)
  fix es s t
  assume run: "spec_exec_all P D es (spec_init Proc N g0) = Some s" and "all_done s" and t: "t \<in> Proc"
  then have "iterations (procs s t) = 0"
    using loop_left [OF spec_exec_all_reachable [OF run], of t] by (simp add: all_done_def)
  with iterations_run [OF run, of t] t show "N \<le> unlocks P D t es (spec_init Proc N g0)"
    by (simp add: spec_init_def)
qed

lemma all_take_turnsD:
  assumes "all_take_turns P Proc D N g0"
    and "spec_exec_all P D es (spec_init Proc N g0) = Some s" and "all_done s" and "t \<in> Proc"
  shows "N \<le> unlocks P D t es (spec_init Proc N g0)"
  using assms unfolding all_take_turns_def by blast

section \<open>The shape of a process\<close>

text \<open>Below the running activation, handlers that wait in \<open>s1\<close> alternate with interrupted calls.\<close>

fun beneath :: "'v call list \<Rightarrow> bool" where
  "beneath [] = True"
| "beneath (Handler_s1 # In_lock v # cs) = beneath cs"
| "beneath _ = False"

fun well_nested :: "'v call list \<Rightarrow> bool" where
  "well_nested [] = True"
| "well_nested (In_lock v # cs) = beneath cs"
| "well_nested (Handler_s0 # In_lock v # cs) = beneath cs"
| "well_nested (Handler_s1 # In_lock v # cs) = beneath cs"
| "well_nested _ = False"

fun activations :: "'v call list \<Rightarrow> 'v list" where
  "activations [] = []"
| "activations (In_lock v # cs) = v # activations cs"
| "activations (Handler_s0 # cs) = activations cs"
| "activations (Handler_s1 # cs) = activations cs"

fun suspended :: "'v call list \<Rightarrow> 'v list" where
  "suspended (In_lock v # cs) = activations cs"
| "suspended cs = activations cs"

fun handlers :: "'v call list \<Rightarrow> nat" where
  "handlers [] = 0"
| "handlers (Handler_s1 # cs) = Suc (handlers cs)"
| "handlers (Handler_s0 # cs) = handlers cs"
| "handlers (In_lock v # cs) = handlers cs"

lemma beneath_handlers: "beneath cs \<Longrightarrow> length (activations cs) = handlers cs"
  by (induction cs rule: beneath.induct) simp_all

lemma beneath_well_nested: "beneath cs \<Longrightarrow> well_nested cs"
  by (cases cs rule: beneath.cases) simp_all

lemma well_nested_interrupted:
  assumes "well_nested (Handler_s1 # cs) \<or> well_nested (Handler_s0 # cs)"
  obtains v cs' where "cs = In_lock v # cs'" and "beneath cs'"
  using assms by (cases cs rule: activations.cases) auto

lemma no_activations:
  assumes "well_nested cs" and "activations cs = []"
  shows "cs = []"
  using assms by (cases cs rule: well_nested.cases) simp_all

definition process_inv :: "nat \<Rightarrow> 'v process \<Rightarrow> bool" where
  "process_inv D p \<longleftrightarrow>
     well_nested (calls p) \<and> signal_depth p = handlers (calls p) \<and> signal_depth p \<le> D \<and>
     (\<forall>cs. calls p = Handler_s0 # cs \<longrightarrow> may_signal D p) \<and>
     (calls p \<noteq> [] \<longrightarrow> main p = At_start)"

text \<open>
  Every call of \<open>lock_unlock\<close> counts \<open>iterations\<close> down when it ends, and a call by a handler takes one
  of the \<open>D\<close> levels: the calls a process can still make.
\<close>

definition calls_left :: "nat \<Rightarrow> 'v process \<Rightarrow> nat" where
  "calls_left D p =
     (if iterations p = 0 then 0 else 2 * iterations p + Suc D - length (activations (calls p)))"

lemma process_inv_activations:
  assumes "process_inv D p"
  shows "length (activations (calls p)) \<le> Suc D"
proof (cases "calls p" rule: well_nested.cases)
  case (2 v cs)
  with assms beneath_handlers [of cs] show ?thesis by (simp add: process_inv_def)
next
  case (3 v cs)
  with assms beneath_handlers [of cs] show ?thesis by (simp add: process_inv_def)
next
  case (4 v cs)
  with assms beneath_handlers [of cs] show ?thesis by (simp add: process_inv_def)
qed (use assms in \<open>simp_all add: process_inv_def\<close>)

end
