(* ===== verification/Spec_Simulation.thy ===== *)
theory Spec_Simulation
  imports Spec_Machine
begin

text \<open>
  The locale that relates a procedure of the specification to the code of a lock, and what follows
  from it: every reachable state of the specification, seen as a state of the code, is reachable
  there, no assertion fails, and every run ends with all processes done.
\<close>

text \<open>The specifications' critical section does nothing to the item.\<close>

definition no_body :: "unit \<Rightarrow> 'a \<Rightarrow> (unit \<times> 'a) option" where
  "no_body l x = None"

lemma no_body_bounded: "body_bounded no_body (\<lambda>_. 0)"
  by (simp add: body_bounded_def no_body_def)

section \<open>A state of the specification as a state of the code\<close>

definition spec_stacks :: "(tid \<Rightarrow> 'v \<Rightarrow> 'p) \<Rightarrow> ('g, 'v) spec \<Rightarrow> tid \<Rightarrow> 'p list" where
  "spec_stacks vp s t = map (vp t) (activations (calls (procs s t)))"

definition spec_view :: "('g \<Rightarrow> 'm) \<Rightarrow> (tid \<Rightarrow> 'v \<Rightarrow> 'p) \<Rightarrow> ('g, 'v) spec \<Rightarrow> ('m, 'p) sys" where
  "spec_view vg vp s =
     \<lparr>mem = vg (glob s), stacks = spec_stacks vp s,
      live = (\<Sum>t\<in>UNIV. length (activations (calls (procs s t))))\<rparr>"

lemma spec_view_simps [simp]:
  "mem (spec_view vg vp s) = vg (glob s)"
  "stacks (spec_view vg vp s) t = map (vp t) (activations (calls (procs s t)))"
  by (simp_all add: spec_view_def spec_stacks_def)

lemma set_process_simps [simp]:
  "procs (set_process t p s) = (procs s)(t := p)"
  "glob (set_process t p s) = glob s"
  "failed (set_process t p s) = failed s"
  by (simp_all add: set_process_def)

lemma spec_init_simps [simp]:
  "calls (procs (spec_init Proc N g) t) = []"
  "signal_depth (procs (spec_init Proc N g) t) = 0"
  "t \<notin> Proc \<Longrightarrow> iterations (procs (spec_init Proc N g) t) = 0"
  "glob (spec_init Proc N g) = g"
  "\<not> failed (spec_init Proc N g)"
  by (simp_all add: spec_init_def)

lemma spec_view_init: "spec_view vg vp (spec_init Proc N g) = init_sys (vg g)"
  by (simp add: spec_view_def spec_stacks_def [abs_def] init_sys_def)

text \<open>The view after a step that keeps the activations, runs one, adds one or removes one.\<close>

lemma spec_view_upd:
  "spec_view vg vp (set_process t p' (s\<lparr>glob := g\<rparr>)) =
     (spec_view vg vp s)
       \<lparr>mem := vg g,
        stacks := (stacks (spec_view vg vp s))(t := map (vp t) (activations (calls p'))),
        live := live (spec_view vg vp s) + length (activations (calls p')) -
          length (activations (calls (procs s t)))\<rparr>"
  using sum_fun_upd [of "\<lambda>_ p. length (activations (calls p))" "procs s" t p']
  by (auto simp: spec_view_def spec_stacks_def)

lemma spec_same_mem [simp]: "(spec_view vg vp s)\<lparr>mem := vg (glob s)\<rparr> = spec_view vg vp s"
  by (simp add: spec_view_def)

lemma spec_same_glob [simp]: "s\<lparr>glob := glob s\<rparr> = (s :: ('g, 'v) spec)"
  by simp

lemma sys_upd_same:
  assumes "mem s = m" and "stacks s t = xs"
  shows "s\<lparr>mem := m, stacks := (stacks s)(t := xs)\<rparr> = s"
  using assms by (simp add: fun_upd_idem)

lemma spec_view_same:
  assumes "map (vp t) (activations (calls p')) = map (vp t) (activations (calls (procs s t)))"
    and "vg g = vg (glob s)"
  shows "spec_view vg vp (set_process t p' (s\<lparr>glob := g\<rparr>)) = spec_view vg vp s"
proof -
  from assms(1) have "length (activations (calls p')) = length (activations (calls (procs s t)))"
    by (rule map_eq_imp_length_eq)
  with sys_upd_same [of "spec_view vg vp s" "vg g" t "map (vp t) (activations (calls p'))"] assms
  show ?thesis by (simp add: spec_view_upd)
qed

lemma spec_view_run:
  assumes "activations (calls (procs s t)) = v # vs" and "activations (calls p') = v' # vs"
    and "act L t c (vg (glob s)) (vp t v) = Some (vg g, vp t v')" and "allowed L (vp t v) c"
  shows "sys_step L (Run t c) (spec_view vg vp s) (spec_view vg vp (set_process t p' (s\<lparr>glob := g\<rparr>)))"
proof -
  from assms have "sys_step L (Run t c) (spec_view vg vp s)
      ((spec_view vg vp s)\<lparr>mem := vg g,
        stacks := (stacks (spec_view vg vp s))(t := vp t v' # map (vp t) vs)\<rparr>)"
    by (intro sys_step.run) simp_all
  then show ?thesis using assms(1,2) by (simp add: spec_view_upd)
qed

lemma spec_view_call:
  fixes L :: "('m, 'p) lock_code" and s :: "('g, 'v) spec"
  assumes "activations (calls p') = v # activations (calls (procs s t))" and "vp t v = start L"
    and "tid_ok L t"
    and "activations (calls (procs s t)) = [] \<or> \<not> sleeping L (vp t (hd (activations (calls (procs s t)))))"
    and "Suc (live (spec_view vg vp s)) < max_live"
  shows "sys_step L (Call t) (spec_view vg vp s) (spec_view vg vp (set_process t p' s))"
proof -
  let ?s = "spec_view vg vp s"
  have "stacks ?s t = [] \<or> \<not> sleeping L (hd (stacks ?s t))"
    using assms(4) by (cases "activations (calls (procs s t))") simp_all
  from sys_step.call [OF assms(3) this assms(5)] show ?thesis
    using assms(1,2) spec_view_upd [where s = s and g = "glob s" and vg = vg and vp = vp and t = t and p' = p'] by simp
qed

lemma spec_view_return:
  assumes "activations (calls (procs s t)) = v # activations (calls p')" and "finished L (vp t v)"
    and "vg g = vg (glob s)"
  shows "sys_step L (Return t) (spec_view vg vp s) (spec_view vg vp (set_process t p' (s\<lparr>glob := g\<rparr>)))"
  using sys_step.return [of "spec_view vg vp s" t "vp t v" "map (vp t) (activations (calls p'))" L] assms
  by (simp add: spec_view_upd)

section \<open>What is left to do\<close>

fun main_rank :: "main_label \<Rightarrow> nat" where
  "main_rank At_start = 2"
| "main_rank At_p_done = 1"
| "main_rank At_Done = 0"

fun call_rank :: "('v \<Rightarrow> nat) \<Rightarrow> 'v call \<Rightarrow> nat" where
  "call_rank rank (In_lock v) = rank v"
| "call_rank rank _ = 1"

definition process_rank :: "('v \<Rightarrow> nat) \<Rightarrow> 'v process \<Rightarrow> nat" where
  "process_rank rank p = main_rank (main p) + sum_list (map (call_rank rank) (calls p))"

definition total_left :: "nat \<Rightarrow> ('g, 'v) spec \<Rightarrow> nat" where
  "total_left D s = (\<Sum>t\<in>UNIV. calls_left D (procs s t))"

definition total_rank :: "('v \<Rightarrow> nat) \<Rightarrow> ('g, 'v) spec \<Rightarrow> nat" where
  "total_rank rank s = (\<Sum>t\<in>UNIV. process_rank rank (procs s t))"

lemma total_left_upd:
  "total_left D (set_process t p' s) + calls_left D (procs s t) = total_left D s + calls_left D p'"
  using sum_fun_upd [of "\<lambda>_. calls_left D" "procs s" t p'] by (simp add: total_left_def)

lemma total_rank_upd:
  "total_rank rank (set_process t p' s) + process_rank rank (procs s t) =
     total_rank rank s + process_rank rank p'"
  using sum_fun_upd [of "\<lambda>_. process_rank rank" "procs s" t p'] by (simp add: total_rank_def)

lemma total_glob [simp]:
  "total_left D (s\<lparr>glob := g\<rparr>) = total_left D s" "total_rank rank (s\<lparr>glob := g\<rparr>) = total_rank rank s"
  by (simp_all add: total_left_def total_rank_def)

text \<open>
  A step leaves the code's state as it is and passes a label, or is a call, which uses up one of the
  calls left, or is a quiet step of the code.
\<close>

definition spec_advances ::
    "('m, 'p) lock_code \<Rightarrow> ('g \<Rightarrow> 'm) \<Rightarrow> (tid \<Rightarrow> 'v \<Rightarrow> 'p) \<Rightarrow> ('v \<Rightarrow> nat) \<Rightarrow> nat \<Rightarrow>
     ('g, 'v) spec \<Rightarrow> ('g, 'v) spec \<Rightarrow> bool" where
  "spec_advances L vg vp rank D s s' \<longleftrightarrow>
     spec_view vg vp s' = spec_view vg vp s \<and> total_left D s' = total_left D s \<and>
       total_rank rank s' < total_rank rank s \<or>
     (\<exists>t. sys_step L (Call t) (spec_view vg vp s) (spec_view vg vp s')) \<and>
       total_left D s' < total_left D s \<or>
     quiet_step L (spec_view vg vp s) (spec_view vg vp s') \<and> total_left D s' \<le> total_left D s"

lemma advances_label:
  assumes "procs s t = p" and "map (vp t) (activations (calls p')) = map (vp t) (activations (calls p))"
    and "vg g = vg (glob s)" and "calls_left D p' = calls_left D p"
    and "process_rank rank p' < process_rank rank p"
  shows "spec_advances L vg vp rank D s (set_process t p' (s\<lparr>glob := g\<rparr>))"
  using assms total_left_upd [of D t p' "s\<lparr>glob := g\<rparr>"] total_rank_upd [of rank t p' "s\<lparr>glob := g\<rparr>"]
  by (simp add: spec_advances_def spec_view_same)

lemma advances_call:
  assumes "procs s t = p" and "sys_step L (Call t) (spec_view vg vp s) (spec_view vg vp (set_process t p' s))"
    and "calls_left D p' < calls_left D p"
  shows "spec_advances L vg vp rank D s (set_process t p' s)"
proof -
  have "total_left D (set_process t p' s) < total_left D s"
    using assms(1,3) total_left_upd [of D t p' s] by simp
  with assms(2) show ?thesis unfolding spec_advances_def by blast
qed

lemma advances_quiet:
  assumes "procs s t = p" and "quiet_event e"
    and "sys_step L e (spec_view vg vp s) (spec_view vg vp (set_process t p' (s\<lparr>glob := g\<rparr>)))"
    and "calls_left D p' \<le> calls_left D p"
  shows "spec_advances L vg vp rank D s (set_process t p' (s\<lparr>glob := g\<rparr>))"
proof -
  have "total_left D (set_process t p' (s\<lparr>glob := g\<rparr>)) \<le> total_left D s"
    using assms(1,4) total_left_upd [of D t p' "s\<lparr>glob := g\<rparr>"] by simp
  with assms(2,3) show ?thesis unfolding spec_advances_def quiet_step_def by blast
qed

section \<open>The simulation\<close>

text \<open>
  \<open>vg\<close> and \<open>vp\<close> read the global and the local variables as the code's memory and program point,
  \<open>gok\<close> and \<open>vok\<close> are their invariants, \<open>in_cs\<close> is \<open>in_critical_section\<close> and \<open>busy\<close> the label \<open>u0\<close>,
  where it is set. \<open>rank\<close> counts the labels passed without an action of the code; \<open>maybe_signal()\<close>
  descends by two, which pays for the handler.
\<close>

locale spec_simulation = waking_lock L m0 own item holds contends recursive sound waiting resp asleep pend
  for L :: "('m, 'p) lock_code" and m0 :: 'm and own :: "'m \<Rightarrow> tid" and item :: "'m \<Rightarrow> 'a"
    and holds contends recursive :: "'p \<Rightarrow> bool" and sound :: "('m, 'p) sys \<Rightarrow> bool"
    and waiting resp asleep :: "tid \<Rightarrow> 'm \<Rightarrow> 'p \<Rightarrow> bool" and pend :: "'m \<Rightarrow> bool" +
  fixes P :: "('g, 'v) procedure"
    and g0 :: 'g
    and vg :: "'g \<Rightarrow> 'm"
    and vp :: "tid \<Rightarrow> 'v \<Rightarrow> 'p"
    and rank :: "'v \<Rightarrow> nat"
    and gok :: "'g \<Rightarrow> bool"
    and vok :: "tid \<Rightarrow> 'v \<Rightarrow> bool"
    and in_cs :: "'g \<Rightarrow> bool"
    and busy :: "'v \<Rightarrow> bool"
  assumes initial_view: "vg g0 = m0" "gok g0" "\<not> in_cs g0"
    and entry_view: "vp t (entry P) = start L" "vok t (entry P)"
    and busy_holds: "busy v \<Longrightarrow> holds (vp t v)"
    and action_sim: "reachable L m0 s \<Longrightarrow> mem s = vg g \<Longrightarrow> stacks s t = vp t v # ps \<Longrightarrow>
      (own (vg g) = t \<longrightarrow> holds (vp t v)) \<Longrightarrow> (holds (vp t v) \<longrightarrow> in_cs g = busy v) \<Longrightarrow>
      gok g \<Longrightarrow> vok t v \<Longrightarrow> action P t c d g v = Some (g', out) \<Longrightarrow>
      gok g' \<and>
      (case out of
         Goto v' \<Rightarrow>
           vok t v' \<and> (in_cs g' \<longleftrightarrow> busy v' \<or> \<not> busy v \<and> in_cs g) \<and>
           (vg g' = vg g \<and> vp t v' = vp t v \<and> rank v' < rank v \<or>
            (\<exists>e. quiet e \<and> allowed L (vp t v) e \<and>
                 act L t e (vg g) (vp t v) = Some (vg g', vp t v')))
       | Maybe_signal v' \<Rightarrow>
           g' = g \<and> vok t v' \<and> vp t v' = vp t v \<and> \<not> holds (vp t v) \<and> \<not> sleeping L (vp t v) \<and>
           rank v' + 2 \<le> rank v
       | Err_recursive \<Rightarrow> False
       | Finish \<Rightarrow> g' = g \<and> finished L (vp t v)
       | Assert_fails \<Rightarrow> False)"
    and action_progress: "reachable L m0 s \<Longrightarrow> mem s = vg g \<Longrightarrow> stacks s t = vp t v # ps \<Longrightarrow>
      gok g \<Longrightarrow> vok t v \<Longrightarrow> \<not> asleep t (vg g) (vp t v) \<Longrightarrow>
      \<exists>c. c \<noteq> Interrupt \<and> action P t c d g v \<noteq> None"
begin

lemma entry_free: "\<not> holds (vp t (entry P))" "\<not> busy (entry P)"
  using start_free busy_holds entry_view(1) by (metis, metis)

text \<open>The specification's invariant.\<close>

definition others_busy :: "tid \<Rightarrow> ('g, 'v) spec \<Rightarrow> bool" where
  "others_busy t s \<longleftrightarrow> (\<exists>u. u \<noteq> t \<and> (\<exists>v \<in> set (activations (calls (procs s u))). busy v))"

definition process_ok :: "tid set \<Rightarrow> nat \<Rightarrow> tid \<Rightarrow> 'v process \<Rightarrow> bool" where
  "process_ok Proc D t p \<longleftrightarrow>
     process_inv D p \<and> (t \<notin> Proc \<longrightarrow> calls p = [] \<and> iterations p = 0) \<and>
     (\<forall>v \<in> set (activations (calls p)). vok t v) \<and>
     (\<forall>v \<in> set (suspended (calls p)). \<not> holds (vp t v) \<and> \<not> sleeping L (vp t v))"

definition spec_inv :: "tid set \<Rightarrow> nat \<Rightarrow> ('g, 'v) spec \<Rightarrow> bool" where
  "spec_inv Proc D s \<longleftrightarrow>
     (\<forall>t. process_ok Proc D t (procs s t)) \<and> gok (glob s) \<and> \<not> failed s \<and>
     (\<forall>t. in_cs (glob s) \<longleftrightarrow>
        (\<exists>v \<in> set (activations (calls (procs s t))). busy v) \<or> others_busy t s)"

lemma spec_inv_upd:
  assumes inv: "spec_inv Proc D s" and "process_ok Proc D t p'" and "gok g"
    and cs: "in_cs g \<longleftrightarrow> (\<exists>v \<in> set (activations (calls p')). busy v) \<or> others_busy t s"
  shows "spec_inv Proc D (set_process t p' (s\<lparr>glob := g\<rparr>))"
  using assms unfolding spec_inv_def by (auto simp: others_busy_def split: if_splits)

lemma spec_inv_init: "spec_inv Proc D (spec_init Proc N g0)"
  by (auto simp: spec_inv_def process_ok_def process_inv_def others_busy_def initial_view)

lemma spec_inv_process:
  assumes "spec_inv Proc D s" and "procs s t = p"
  shows "process_ok Proc D t p" and "process_inv D p"
  using assms by (auto simp: spec_inv_def process_ok_def)

lemma spec_inv_in_cs:
  assumes "spec_inv Proc D s"
  shows "in_cs (glob s) \<longleftrightarrow>
    (\<exists>v \<in> set (activations (calls (procs s t))). busy v) \<or> others_busy t s"
  using assms unfolding spec_inv_def by blast

lemma suspended_not_busy:
  assumes "process_ok Proc D t p" and "v \<in> set (suspended (calls p))"
  shows "\<not> busy v"
  using assms busy_holds unfolding process_ok_def by blast

text \<open>What the mutual exclusion of the code gives for the running activation of a process.\<close>

lemma running_activation:
  assumes inv: "spec_inv Proc D s" and r: "reachable L m0 (spec_view vg vp s)"
    and p: "procs s t = p" "calls p = In_lock v # cs"
  shows "own (vg (glob s)) = t \<longrightarrow> holds (vp t v)"
    and "holds (vp t v) \<longrightarrow> in_cs (glob s) = busy v"
    and "busy v \<longrightarrow> \<not> others_busy t s"
proof -
  note ok = spec_inv_process(1) [OF inv p(1)]
  have stk: "stacks (spec_view vg vp s) t = vp t v # map (vp t) (activations cs)"
    using p by simp
  have oi: "owner_inv own holds (spec_view vg vp s)" by (rule reachable_owner_inv [OF r])
  have "tid_ok L t" using reachable_tid_ok [OF r] stk by fastforce
  then have t: "t \<noteq> 0" by (rule tid_nonzero)
  show "own (vg (glob s)) = t \<longrightarrow> holds (vp t v)"
  proof
    assume "own (vg (glob s)) = t"
    then obtain q where "q \<in> set (stacks (spec_view vg vp s) t)" "holds q"
      using owner_inv_owned [OF oi _ t] by auto
    with stk ok p(2) show "holds (vp t v)" by (auto simp: process_ok_def)
  qed
  have excl: "\<not> others_busy t s" if "holds (vp t v)"
  proof
    assume "others_busy t s"
    then obtain u w where u: "u \<noteq> t" "w \<in> set (activations (calls (procs s u)))" "busy w"
      by (auto simp: others_busy_def)
    from owner_inv_holds [OF oi, of "vp u w" u] u busy_holds have "own (vg (glob s)) = u" by auto
    moreover from owner_inv_holds [OF oi, of "vp t v" t] stk that have "own (vg (glob s)) = t" by auto
    ultimately show False using u(1) by simp
  qed
  show "busy v \<longrightarrow> \<not> others_busy t s" using excl busy_holds by blast
  show "holds (vp t v) \<longrightarrow> in_cs (glob s) = busy v"
    using spec_inv_in_cs [OF inv, of t] excl p suspended_not_busy [OF ok] by auto
qed

text \<open>There is room for one more activation as long as a process has a level left.\<close>

lemma room_for_call:
  assumes inv: "spec_inv Proc D s" and "t \<in> Proc"
    and lt: "length (activations (calls (procs s t))) \<le> D" and bound: "card Proc * Suc D < max_live"
  shows "Suc (live (spec_view vg vp s)) < max_live"
proof -
  let ?n = "\<lambda>u. length (activations (calls (procs s u)))"
  have le: "?n u \<le> (if u \<in> Proc then Suc D else 0)" for u
  proof (cases "u \<in> Proc")
    case True
    then show ?thesis
      using process_inv_activations [OF spec_inv_process(2) [OF inv refl], of u] by simp
  next
    case False
    then show ?thesis using spec_inv_process(1) [OF inv refl, of u] by (simp add: process_ok_def)
  qed
  have "(\<Sum>u\<in>UNIV. ?n u) < (\<Sum>u\<in>UNIV. if u \<in> Proc then Suc D else 0)"
    using assms(2) lt by (intro sum_strict_mono_ex1 ballI le bexI [where x = t]) simp_all
  also have "\<dots> = card Proc * Suc D"
    by (simp add: sum.If_cases)
  finally show ?thesis
    using bound by (simp add: spec_view_def)
qed

lemma label_ok:
  assumes inv: "spec_inv Proc D s" and p: "procs s t = p" and ok: "process_ok Proc D t p'"
    and acts: "activations (calls p') = activations (calls p)"
    and rank: "process_rank rank p' < process_rank rank p" and left: "calls_left D p' = calls_left D p"
  shows "spec_inv Proc D (set_process t p' s) \<and> spec_advances L vg vp rank D s (set_process t p' s)"
proof -
  have "gok (glob s)" using inv by (simp add: spec_inv_def)
  from spec_inv_upd [OF inv ok this] spec_inv_in_cs [OF inv, of t] p acts
  have "spec_inv Proc D (set_process t p' s)" by simp
  moreover have "spec_advances L vg vp rank D s (set_process t p' s)"
    using advances_label [where L = L and g = "glob s" and s = s and vp = vp, OF p _ refl left rank] acts by simp
  ultimately show ?thesis ..
qed

lemma call_ok:
  assumes inv: "spec_inv Proc D s" and p: "procs s t = p" and ok: "process_ok Proc D t p'"
    and acts: "activations (calls p') = entry P # activations (calls p)"
    and susp: "suspended (calls p) = activations (calls p)"
    and left: "calls_left D p' < calls_left D p" and t: "t \<in> Proc" "tid_ok L t"
    and bound: "card Proc * Suc D < max_live" and lvl: "length (activations (calls p)) \<le> D"
  shows "spec_inv Proc D (set_process t p' s) \<and> spec_advances L vg vp rank D s (set_process t p' s)"
proof -
  have "gok (glob s)" using inv by (simp add: spec_inv_def)
  from spec_inv_upd [OF inv ok this] spec_inv_in_cs [OF inv, of t] p acts entry_free
  have "spec_inv Proc D (set_process t p' s)" by simp
  moreover have "sys_step L (Call t) (spec_view vg vp s) (spec_view vg vp (set_process t p' s))"
  proof (rule spec_view_call [where vp = vp and v = "entry P"])
    show "Suc (live (spec_view vg vp s)) < max_live"
      by (rule room_for_call [OF inv t(1) _ bound]) (simp add: p lvl)
    show "activations (calls (procs s t)) = [] \<or>
        \<not> sleeping L (vp t (hd (activations (calls (procs s t)))))"
      using spec_inv_process(1) [OF inv p] p susp
      by (cases "activations (calls p)") (auto simp: process_ok_def)
  qed (use acts p entry_view t in simp_all)
  then have "spec_advances L vg vp rank D s (set_process t p' s)"
    by (rule advances_call [OF p _ left])
  ultimately show ?thesis ..
qed

text \<open>The labels of the main loop and of \<open>handle_signal\<close>.\<close>

lemma main_loop_step:
  assumes inv: "spec_inv Proc D s" and p: "procs s t = p" and idle: "calls p = []"
    and tids: "\<forall>t \<in> Proc. tid_ok L t" and bound: "card Proc * Suc D < max_live"
  shows "main p = At_start \<Longrightarrow> 0 < iterations p \<Longrightarrow> p' = p\<lparr>calls := [In_lock (entry P)]\<rparr> \<Longrightarrow>
      spec_inv Proc D (set_process t p' s) \<and> spec_advances L vg vp rank D s (set_process t p' s)"
    and "main p = At_start \<Longrightarrow> p' = p\<lparr>main := At_p_done\<rparr> \<Longrightarrow>
      spec_inv Proc D (set_process t p' s) \<and> spec_advances L vg vp rank D s (set_process t p' s)"
    and "main p = At_p_done \<Longrightarrow> p' = p\<lparr>main := At_Done\<rparr> \<Longrightarrow>
      spec_inv Proc D (set_process t p' s) \<and> spec_advances L vg vp rank D s (set_process t p' s)"
proof -
  note ok = spec_inv_process(1) [OF inv p]
  show "spec_inv Proc D (set_process t p' s) \<and> spec_advances L vg vp rank D s (set_process t p' s)"
    if "main p = At_start" "0 < iterations p" "p' = p\<lparr>calls := [In_lock (entry P)]\<rparr>"
  proof (rule call_ok [OF inv p])
    show t: "t \<in> Proc" using ok that(2) by (auto simp: process_ok_def)
    then show "tid_ok L t" using tids by blast
    show "process_ok Proc D t p'"
      using ok that idle t entry_view by (simp add: process_ok_def process_inv_def)
  qed (use bound idle that in \<open>simp_all add: calls_left_def\<close>)
  show "spec_inv Proc D (set_process t p' s) \<and> spec_advances L vg vp rank D s (set_process t p' s)"
    if "main p = At_start" "p' = p\<lparr>main := At_p_done\<rparr>"
    using ok idle that
    by (intro label_ok [OF inv p]) (simp_all add: process_ok_def process_inv_def process_rank_def calls_left_def)
  show "spec_inv Proc D (set_process t p' s) \<and> spec_advances L vg vp rank D s (set_process t p' s)"
    if "main p = At_p_done" "p' = p\<lparr>main := At_Done\<rparr>"
    using ok idle that
    by (intro label_ok [OF inv p]) (simp_all add: process_ok_def process_inv_def process_rank_def calls_left_def)
qed

lemma handler_call_step:
  assumes inv: "spec_inv Proc D s" and p: "procs s t = p" "calls p = Handler_s0 # cs"
    and tids: "\<forall>t \<in> Proc. tid_ok L t" and bound: "card Proc * Suc D < max_live"
    and p': "p' = p\<lparr>signal_depth := signal_depth p + 1, calls := In_lock (entry P) # Handler_s1 # cs\<rparr>"
  shows "spec_inv Proc D (set_process t p' s) \<and> spec_advances L vg vp rank D s (set_process t p' s)"
proof -
  note ok = spec_inv_process [OF inv p(1)]
  from ok(2) p(2) have may: "may_signal D p" by (simp add: process_inv_def)
  from ok(2) p(2) have nest: "well_nested (Handler_s0 # cs)" by (simp add: process_inv_def)
  then obtain v cs' where cs: "cs = In_lock v # cs'" "beneath cs'"
    using well_nested_interrupted by blast
  have len: "length (activations (calls p)) = Suc (signal_depth p)"
    using ok(2) p(2) cs beneath_handlers [OF cs(2)] by (simp add: process_inv_def)
  show ?thesis
  proof (rule call_ok [OF inv p(1)])
    show t: "t \<in> Proc" using ok(1) p(2) by (auto simp: process_ok_def)
    then show "tid_ok L t" using tids by blast
    show "process_ok Proc D t p'"
      using ok p(2) p' cs may t entry_view by (simp add: process_ok_def process_inv_def may_signal_def)
    show "calls_left D p' < calls_left D p"
      using may len p(2) p' by (simp add: calls_left_def may_signal_def) linarith
    show "length (activations (calls p)) \<le> D"
      using may len by (simp add: may_signal_def)
  qed (use bound p(2) p' in simp_all)
qed

lemma handler_return_step:
  assumes inv: "spec_inv Proc D s" and p: "procs s t = p" "calls p = Handler_s1 # cs"
    and p': "p' = p\<lparr>signal_depth := signal_depth p - 1, calls := cs\<rparr>"
  shows "spec_inv Proc D (set_process t p' s) \<and> spec_advances L vg vp rank D s (set_process t p' s)"
proof (rule label_ok [OF inv p(1)])
  note ok = spec_inv_process [OF inv p(1)]
  from ok(2) p(2) have "well_nested (Handler_s1 # cs)" by (simp add: process_inv_def)
  then obtain v cs' where cs: "cs = In_lock v # cs'" "beneath cs'"
    using well_nested_interrupted by blast
  with ok p(2) p' show "process_ok Proc D t p'"
    by (auto simp: process_ok_def process_inv_def)
qed (use p p' in \<open>simp_all add: process_rank_def calls_left_def\<close>)

text \<open>The actions of \<open>lock_unlock\<close>.\<close>

lemma process_ok_goto:
  assumes "process_ok Proc D t p" and "calls p = In_lock v # cs" and "vok t v'"
  shows "process_ok Proc D t (p\<lparr>calls := In_lock v' # cs\<rparr>)"
  using assms by (auto simp: process_ok_def process_inv_def)

lemma process_ok_interrupted:
  assumes "process_ok Proc D t p" and "calls p = In_lock v # cs" and "vok t v'" and "may_signal D p"
    and "\<not> holds (vp t v')" and "\<not> sleeping L (vp t v')"
  shows "process_ok Proc D t (p\<lparr>calls := Handler_s0 # In_lock v' # cs\<rparr>)"
  using assms by (auto simp: process_ok_def process_inv_def may_signal_def)

lemma process_ok_returned:
  assumes "process_ok Proc D t p" and "calls p = In_lock v # cs" and "n \<le> iterations p"
  shows "process_ok Proc D t (p\<lparr>iterations := n, calls := cs\<rparr>)"
proof -
  from assms have "beneath cs" by (simp add: process_ok_def process_inv_def)
  then have "well_nested cs" "suspended cs = activations cs" "\<forall>cs'. cs \<noteq> Handler_s0 # cs'"
    by (cases cs rule: beneath.cases; simp)+
  with assms show ?thesis by (auto simp: process_ok_def process_inv_def)
qed

lemma calls_left_returned:
  assumes "calls p = In_lock v # cs"
  shows "calls_left D (p\<lparr>iterations := count_down (iterations p), calls := cs\<rparr>) \<le> calls_left D p"
  using assms by (simp add: calls_left_def count_down_def) linarith

text \<open>The locale's assumption at a reachable state.\<close>

lemma running_sim:
  assumes inv: "spec_inv Proc D s" and r: "reachable L m0 (spec_view vg vp s)"
    and p: "procs s t = p" "calls p = In_lock v # cs"
    and act: "action P t c (signal_depth p) (glob s) v = Some (g, out)"
  shows "gok g" and "out \<noteq> Err_recursive" and "out \<noteq> Assert_fails"
    and "out = Goto v' \<Longrightarrow>
      vok t v' \<and> (in_cs g \<longleftrightarrow> busy v' \<or> \<not> busy v \<and> in_cs (glob s)) \<and>
      (vg g = vg (glob s) \<and> vp t v' = vp t v \<and> rank v' < rank v \<or>
       (\<exists>e. quiet e \<and> allowed L (vp t v) e \<and>
            act L t e (vg (glob s)) (vp t v) = Some (vg g, vp t v')))"
    and "out = Maybe_signal v' \<Longrightarrow>
      g = glob s \<and> vok t v' \<and> vp t v' = vp t v \<and> \<not> holds (vp t v) \<and> \<not> sleeping L (vp t v) \<and>
      rank v' + 2 \<le> rank v"
    and "out = Finish \<Longrightarrow> g = glob s \<and> finished L (vp t v)"
proof -
  have "gok (glob s)" "vok t v"
    using inv spec_inv_process(1) [OF inv p(1)] p(2) by (simp_all add: spec_inv_def process_ok_def)
  note sim = action_sim [OF r _ _ running_activation(1,2) [OF inv r p] this act, simplified]
  show "gok g" "out \<noteq> Err_recursive" "out \<noteq> Assert_fails"
    using sim p by (auto split: outcome.splits)
  show "out = Goto v' \<Longrightarrow>
      vok t v' \<and> (in_cs g \<longleftrightarrow> busy v' \<or> \<not> busy v \<and> in_cs (glob s)) \<and>
      (vg g = vg (glob s) \<and> vp t v' = vp t v \<and> rank v' < rank v \<or>
       (\<exists>e. quiet e \<and> allowed L (vp t v) e \<and>
            act L t e (vg (glob s)) (vp t v) = Some (vg g, vp t v')))"
    using sim p by simp
  show "out = Maybe_signal v' \<Longrightarrow>
      g = glob s \<and> vok t v' \<and> vp t v' = vp t v \<and> \<not> holds (vp t v) \<and> \<not> sleeping L (vp t v) \<and>
      rank v' + 2 \<le> rank v"
    using sim p by simp
  show "out = Finish \<Longrightarrow> g = glob s \<and> finished L (vp t v)"
    using sim p by simp
qed

lemma goto_step:
  assumes inv: "spec_inv Proc D s" and r: "reachable L m0 (spec_view vg vp s)"
    and p: "procs s t = p" "calls p = In_lock v # cs"
    and act: "action P t c (signal_depth p) (glob s) v = Some (g, Goto v')"
    and p': "p' = p\<lparr>calls := In_lock v' # cs\<rparr>"
  shows "spec_inv Proc D (set_process t p' (s\<lparr>glob := g\<rparr>)) \<and>
    spec_advances L vg vp rank D s (set_process t p' (s\<lparr>glob := g\<rparr>))"
proof
  note ok = spec_inv_process(1) [OF inv p(1)]
  note sim = running_sim(1,4) [OF inv r p act, simplified]
  have "in_cs g \<longleftrightarrow> busy v' \<or> others_busy t s"
    using sim(2) running_activation(3) [OF inv r p] spec_inv_in_cs [OF inv, of t]
      suspended_not_busy [OF ok] p by auto
  then have cs: "in_cs g \<longleftrightarrow> (\<exists>v \<in> set (activations (calls p')). busy v) \<or> others_busy t s"
    using suspended_not_busy [OF ok] p p' by auto
  have ok': "process_ok Proc D t p'"
    unfolding p' using sim(2) by (intro process_ok_goto [OF ok p(2)]) simp
  show "spec_inv Proc D (set_process t p' (s\<lparr>glob := g\<rparr>))"
    by (rule spec_inv_upd [OF inv ok' sim(1) cs])
  have left: "calls_left D p' = calls_left D p" using p(2) p' by (simp add: calls_left_def)
  consider (label) "vg g = vg (glob s)" "vp t v' = vp t v" "rank v' < rank v"
    | (act) e where "quiet e" "allowed L (vp t v) e" "act L t e (vg (glob s)) (vp t v) = Some (vg g, vp t v')"
    using sim(2) by blast
  then show "spec_advances L vg vp rank D s (set_process t p' (s\<lparr>glob := g\<rparr>))"
  proof cases
    case label
    with p p' show ?thesis
      by (intro advances_label [OF p(1) _ _ left]) (simp_all add: process_rank_def)
  next
    case act
    have "sys_step L (Run t e) (spec_view vg vp s) (spec_view vg vp (set_process t p' (s\<lparr>glob := g\<rparr>)))"
      by (rule spec_view_run [where v = v and v' = v' and vs = "activations cs"])
        (simp_all add: p p' act)
    with act(1) left show ?thesis by (intro advances_quiet [OF p(1)]) simp_all
  qed
qed

lemma maybe_signal_step:
  assumes inv: "spec_inv Proc D s" and r: "reachable L m0 (spec_view vg vp s)"
    and p: "procs s t = p" "calls p = In_lock v # cs"
    and act: "action P t c (signal_depth p) (glob s) v = Some (g, Maybe_signal v')"
    and p': "p' = p\<lparr>calls := In_lock v' # cs\<rparr> \<or>
      may_signal D p \<and> p' = p\<lparr>calls := Handler_s0 # In_lock v' # cs\<rparr>"
  shows "spec_inv Proc D (set_process t p' (s\<lparr>glob := g\<rparr>)) \<and>
    spec_advances L vg vp rank D s (set_process t p' (s\<lparr>glob := g\<rparr>))"
proof
  note ok = spec_inv_process(1) [OF inv p(1)]
  note sim = running_sim(1,5) [OF inv r p act, simplified]
  have free: "\<not> busy v" "\<not> busy v'" using sim(2) busy_holds [of v t] busy_holds [of v' t] by auto
  have ok': "process_ok Proc D t p'"
    using p' process_ok_goto [OF ok p(2)] process_ok_interrupted [OF ok p(2)] sim(2) by auto
  have "in_cs g \<longleftrightarrow> (\<exists>v \<in> set (activations (calls p')). busy v) \<or> others_busy t s"
    using sim(2) spec_inv_in_cs [OF inv, of t] free p p' by auto
  then show "spec_inv Proc D (set_process t p' (s\<lparr>glob := g\<rparr>))"
    by (rule spec_inv_upd [OF inv ok' sim(1)])
  show "spec_advances L vg vp rank D s (set_process t p' (s\<lparr>glob := g\<rparr>))"
    using p p' sim(2)
    by (intro advances_label [OF p(1)]) (auto simp: calls_left_def process_rank_def)
qed

lemma finish_step:
  assumes inv: "spec_inv Proc D s" and r: "reachable L m0 (spec_view vg vp s)"
    and p: "procs s t = p" "calls p = In_lock v # cs"
    and act: "action P t c (signal_depth p) (glob s) v = Some (g, Finish)"
    and p': "p' = p\<lparr>iterations := count_down (iterations p), calls := cs\<rparr>"
  shows "spec_inv Proc D (set_process t p' (s\<lparr>glob := g\<rparr>)) \<and>
    spec_advances L vg vp rank D s (set_process t p' (s\<lparr>glob := g\<rparr>))"
proof
  note ok = spec_inv_process(1) [OF inv p(1)]
  note sim = running_sim(1,6) [OF inv r p act, simplified]
  have "\<not> busy v" using sim(2) finished_not_holds busy_holds by blast
  then have "in_cs g \<longleftrightarrow> (\<exists>v \<in> set (activations (calls p')). busy v) \<or> others_busy t s"
    using sim(2) spec_inv_in_cs [OF inv, of t] p p' by auto
  moreover have "process_ok Proc D t p'"
    unfolding p' by (rule process_ok_returned [OF ok p(2)]) (simp add: count_down_def)
  ultimately show "spec_inv Proc D (set_process t p' (s\<lparr>glob := g\<rparr>))"
    using spec_inv_upd [OF inv] sim(1) by blast
  have "sys_step L (Return t) (spec_view vg vp s) (spec_view vg vp (set_process t p' (s\<lparr>glob := g\<rparr>)))"
    by (rule spec_view_return [where v = v]) (use p p' sim(2) in simp_all)
  then show "spec_advances L vg vp rank D s (set_process t p' (s\<lparr>glob := g\<rparr>))"
    by (intro advances_quiet [OF p(1)]) (use calls_left_returned [OF p(2)] p' in auto)
qed

lemma spec_step_ok:
  assumes inv: "spec_inv Proc D s" and r: "reachable L m0 (spec_view vg vp s)"
    and tids: "\<forall>t \<in> Proc. tid_ok L t" and bound: "card Proc * Suc D < max_live"
    and step: "spec_step P D t c s s'"
  shows "spec_inv Proc D s' \<and> spec_advances L vg vp rank D s s'"
  using step
proof cases
  case (start_call p)
  then show ?thesis using main_loop_step(1) [OF inv _ _ tids bound] by blast
next
  case (start_done p)
  then show ?thesis using main_loop_step(2) [OF inv _ _ tids bound] by blast
next
  case (p_done p)
  then show ?thesis using main_loop_step(3) [OF inv _ _ tids bound] by blast
next
  case (s0 p cs)
  then show ?thesis using handler_call_step [OF inv _ _ tids bound] by blast
next
  case (s1 p cs)
  then show ?thesis using handler_return_step [OF inv] by blast
next
  case (goto p v cs g v')
  then show ?thesis using goto_step [OF inv r] by blast
next
  case (skip p v cs g v')
  then show ?thesis using maybe_signal_step [OF inv r] by blast
next
  case (interrupt p v cs g v')
  then show ?thesis using maybe_signal_step [OF inv r] by blast
next
  case (leave p v cs g)
  then show ?thesis using running_sim(2) [OF inv r] by blast
next
  case (u_end p v cs g)
  then show ?thesis using finish_step [OF inv r] by blast
next
  case (assert_fails p v cs g)
  then show ?thesis using running_sim(3) [OF inv r] by blast
qed

section \<open>What the specification establishes\<close>

text \<open>Its runs are runs of the code, and it keeps its invariant.\<close>

lemma spec_reachable_ok:
  assumes r: "spec_reachable P Proc D N g0 s"
    and tids: "\<forall>t \<in> Proc. tid_ok L t" and bound: "card Proc * Suc D < max_live"
  shows "spec_inv Proc D s \<and> reachable L m0 (spec_view vg vp s)"
  using r
proof induction
  case spec_initial
  show ?case
    using spec_inv_init [of Proc D N] reachable.initial [of L m0] by (simp add: spec_view_init initial_view)
next
  case (spec_next s t c s')
  then have ok: "spec_inv Proc D s'" "spec_advances L vg vp rank D s s'"
    using spec_step_ok [OF _ _ tids bound] by blast+
  then have "spec_view vg vp s' = spec_view vg vp s \<or> (\<exists>e. sys_step L e (spec_view vg vp s) (spec_view vg vp s'))"
    by (auto simp: spec_advances_def quiet_step_def)
  with spec_next.IH ok(1) show ?case by (auto intro: reachable.step)
qed

lemma spec_advances_step:
  assumes "spec_reachable P Proc D N g0 s" and "spec_next_state P D s s'"
    and "\<forall>t \<in> Proc. tid_ok L t" and "card Proc * Suc D < max_live"
  shows "spec_advances L vg vp rank D s s'"
  using assms spec_reachable_ok [OF assms(1,3,4)] spec_step_ok [OF _ _ assms(3,4)]
  by (auto simp: spec_next_state_def)

text \<open>No assertion fails, and no activation takes the branch of \<open>Err(Recursive)\<close>.\<close>

lemma assertions_hold:
  assumes "spec_reachable P Proc D N g0 s"
    and "\<forall>t \<in> Proc. tid_ok L t" and "card Proc * Suc D < max_live"
  shows "\<not> failed s"
  using spec_reachable_ok [OF assms] by (simp add: spec_inv_def)

lemma never_leaves:
  assumes "spec_reachable P Proc D N g0 s" and "calls (procs s t) = In_lock v # cs"
    and "\<forall>t \<in> Proc. tid_ok L t" and "card Proc * Suc D < max_live"
  shows "action P t c (signal_depth (procs s t)) (glob s) v \<noteq> Some (g, Err_recursive)"
  using spec_reachable_ok [OF assms(1,3,4)] running_sim(2) assms(2) by blast

text \<open>A process that is not done can step, or waits for another one that can.\<close>

lemma control_progress:
  assumes "calls (procs s t) = [] \<and> main (procs s t) \<noteq> At_Done \<or>
    (\<exists>cs. calls (procs s t) = Handler_s0 # cs \<or> calls (procs s t) = Handler_s1 # cs)"
  shows "\<exists>s'. spec_next_state P D s s'"
proof -
  have "spec_exec P D t Skip s \<noteq> None"
    using assms by (auto simp: spec_exec_def Let_def split: main_label.split)
  then show ?thesis unfolding spec_next_state_def using spec_exec_step by blast
qed

lemma lock_progress:
  assumes "calls (procs s t) = In_lock v # cs" and "c \<noteq> Interrupt"
    and "action P t c (signal_depth (procs s t)) (glob s) v \<noteq> None"
  shows "\<exists>s'. spec_next_state P D s s'"
proof -
  have "spec_exec P D t c s \<noteq> None"
    using assms by (auto simp: spec_exec_def Let_def split: outcome.split)
  then show ?thesis unfolding spec_next_state_def using spec_exec_step by blast
qed

lemma spec_no_deadlock:
  assumes r: "spec_reachable P Proc D N g0 s" and "\<not> all_done s"
    and tids: "\<forall>t \<in> Proc. tid_ok L t" and bound: "card Proc * Suc D < max_live"
  shows "\<exists>s'. spec_next_state P D s s'"
proof -
  have inv: "spec_inv Proc D s" and rv: "reachable L m0 (spec_view vg vp s)"
    using spec_reachable_ok [OF r tids bound] by blast+
  show ?thesis
  proof (cases "idle (spec_view vg vp s)")
    case True
    then have "calls (procs s t) = []" for t
      using spec_inv_process(2) [OF inv refl, of t] no_activations [of "calls (procs s t)"]
      by (simp add: idle_def process_inv_def)
    with assms(2) show ?thesis using control_progress [of s] by (auto simp: all_done_def)
  next
    case False
    from some_awake [OF rv this] obtain t p ps
      where t: "stacks (spec_view vg vp s) t = p # ps" and "\<not> asleep t (mem (spec_view vg vp s)) p"
      by blast
    then have awake: "\<not> asleep t (vg (glob s)) p" by simp
    show ?thesis
    proof (cases "\<exists>v cs. calls (procs s t) = In_lock v # cs")
      case True
      then obtain v cs where v: "calls (procs s t) = In_lock v # cs" by blast
      with t have p: "p = vp t v" by simp
      have "gok (glob s)" "vok t v"
        using inv spec_inv_process(1) [OF inv refl, of t] v by (simp_all add: spec_inv_def process_ok_def)
      from action_progress [OF rv _ t [unfolded p] this, of "signal_depth (procs s t)"] awake p
      obtain c where "c \<noteq> Interrupt" "action P t c (signal_depth (procs s t)) (glob s) v \<noteq> None"
        by auto
      then show ?thesis by (rule lock_progress [OF v])
    next
      case False
      with t obtain cs where "calls (procs s t) = Handler_s0 # cs \<or> calls (procs s t) = Handler_s1 # cs"
        by (cases "calls (procs s t)" rule: activations.cases) auto
      then show ?thesis by (intro control_progress [of s t]) blast
    qed
  qed
qed

end

section \<open>Termination\<close>

lemma wf_eventually_constant:
  assumes wf: "wf R" and desc: "\<And>i. f (Suc i) = f i \<or> (f (Suc i), f i) \<in> R"
  shows "\<exists>k. \<forall>i \<ge> k. f (Suc i) = f i"
proof (rule ccontr)
  assume never: "\<not> ?thesis"
  have "\<forall>k. f k = x \<longrightarrow> (\<exists>i \<ge> k. f (Suc i) \<noteq> f i) \<longrightarrow> False" for x
    using wf
  proof (induction x rule: wf_induct_rule)
    case (less x)
    show ?case
    proof (intro allI impI, elim exE conjE)
      fix k i
      assume k: "f k = x" and i: "k \<le> i" "f (Suc i) \<noteq> f i"
      define j where "j = (LEAST j. k \<le> j \<and> f (Suc j) \<noteq> f j)"
      have j: "k \<le> j" "f (Suc j) \<noteq> f j"
        unfolding j_def using LeastI [of "\<lambda>j. k \<le> j \<and> f (Suc j) \<noteq> f j" i] i by blast+
      have same: "f (Suc m) = f m" if "k \<le> m" "m < j" for m
        using that not_less_Least [of m "\<lambda>j. k \<le> j \<and> f (Suc j) \<noteq> f j"] unfolding j_def by blast
      have "f (k + n) = x" if "k + n \<le> j" for n
        using that by (induction n) (simp_all add: k same)
      from this [of "j - k"] j(1) have "f j = x" by simp
      with desc [of j] j(2) have "(f (Suc j), x) \<in> R" by auto
      moreover from never obtain i' where "Suc j \<le> i'" "f (Suc i') \<noteq> f i'" by blast
      ultimately show False using less.IH by blast
    qed
  qed
  with never show False by blast
qed

text \<open>With a well-founded order that the quiet steps of the code descend, every run ends.\<close>

locale spec_termination =
  spec_simulation L m0 own item holds contends recursive sound waiting resp asleep pend
    P g0 vg vp rank gok vok in_cs busy
  for L :: "('m, 'p) lock_code" and m0 :: 'm and own :: "'m \<Rightarrow> tid" and item :: "'m \<Rightarrow> 'a"
    and holds contends recursive :: "'p \<Rightarrow> bool" and sound :: "('m, 'p) sys \<Rightarrow> bool"
    and waiting resp asleep :: "tid \<Rightarrow> 'm \<Rightarrow> 'p \<Rightarrow> bool" and pend :: "'m \<Rightarrow> bool"
    and P :: "('g, 'v) procedure" and g0 :: 'g and vg :: "'g \<Rightarrow> 'm" and vp :: "tid \<Rightarrow> 'v \<Rightarrow> 'p"
    and rank :: "'v \<Rightarrow> nat" and gok :: "'g \<Rightarrow> bool" and vok :: "tid \<Rightarrow> 'v \<Rightarrow> bool"
    and in_cs :: "'g \<Rightarrow> bool" and busy :: "'v \<Rightarrow> bool" +
  fixes R :: "(('m, 'p) sys \<times> ('m, 'p) sys) set"
  assumes wf_descent: "wf R"
    and quiet_descends: "reachable L m0 s \<Longrightarrow> quiet_step L s s' \<Longrightarrow> (s', s) \<in> R"
begin

definition spec_order :: "nat \<Rightarrow> (('g, 'v) spec \<times> ('g, 'v) spec) set" where
  "spec_order D = inv_image (less_than <*lex*> (R <*lex*> less_than))
     (\<lambda>s. (total_left D s, spec_view vg vp s, total_rank rank s))"

lemma wf_spec_order: "wf (spec_order D)"
  unfolding spec_order_def by (intro wf_inv_image wf_lex_prod wf_less_than wf_descent)

lemma spec_descends:
  assumes r: "spec_reachable P Proc D N g0 s" and step: "spec_next_state P D s s'"
    and tids: "\<forall>t \<in> Proc. tid_ok L t" and bound: "card Proc * Suc D < max_live"
  shows "(s', s) \<in> spec_order D"
proof -
  have "reachable L m0 (spec_view vg vp s)" using spec_reachable_ok [OF r tids bound] by blast
  from quiet_descends [OF this] spec_advances_step [OF r step tids bound] show ?thesis
    unfolding spec_advances_def spec_order_def by (auto simp: le_less)
qed

text \<open>
  The property \<open>Termination\<close>: no sequence of steps is infinite, and a state without a next one has all
  processes at \<open>Done\<close>; so a fair behaviour gets there.
\<close>

lemma spec_terminates:
  assumes start: "spec_reachable P Proc D N g0 (f 0)"
    and tids: "\<forall>t \<in> Proc. tid_ok L t" and bound: "card Proc * Suc D < max_live"
  shows "\<not> (\<forall>i. spec_next_state P D (f i) (f (Suc i)))"
proof
  assume run: "\<forall>i. spec_next_state P D (f i) (f (Suc i))"
  have "spec_reachable P Proc D N g0 (f i)" for i
  proof (induction i)
    case (Suc i)
    from run obtain t c where "spec_step P D t c (f i) (f (Suc i))"
      unfolding spec_next_state_def by blast
    with Suc show ?case by (rule spec_next)
  qed (rule start)
  then have "(f (Suc i), f i) \<in> spec_order D" for i
    using run spec_descends tids bound by blast
  with wf_spec_order show False by (auto simp: wf_iff_no_infinite_down_chain)
qed

text \<open>A fair behaviour changes its state only finitely often, and it stops only when all is done.\<close>

lemma terminating:
  assumes tids: "\<forall>t \<in> Proc. tid_ok L t" and bound: "card Proc * Suc D < max_live"
  shows "spec_terminating P Proc D N g0"
  unfolding spec_terminating_def
proof (intro allI impI, elim conjE)
  fix f
  assume beh: "spec_behaviour P Proc D N g0 f" and fair: "weakly_fair P D f"
  have r: "spec_reachable P Proc D N g0 (f i)" for i
  proof (induction i)
    case 0
    then show ?case using beh spec_initial [of P Proc D N g0] by (simp add: spec_behaviour_def)
  next
    case (Suc i)
    then show ?case using beh unfolding spec_behaviour_def spec_next_state_def by (metis spec_next)
  qed
  have "f (Suc i) = f i \<or> (f (Suc i), f i) \<in> spec_order D" for i
    using beh spec_descends [OF r _ tids bound] unfolding spec_behaviour_def by blast
  from wf_eventually_constant [OF wf_spec_order [of D], of f, OF this] obtain k where k: "\<forall>i \<ge> k. f (Suc i) = f i"
    by blast
  show "\<exists>i. all_done (f i)"
  proof (rule ccontr)
    assume "\<not> ?thesis"
    then have "\<exists>s'. spec_next_state P D (f j) s' \<and> s' \<noteq> f j" for j
      using spec_no_deadlock [OF r _ tids bound] spec_descends [OF r _ tids bound] wf_spec_order
      by (metis wf_irrefl)
    with fair k show False unfolding weakly_fair_def by blast
  qed
qed

end

end
