(* ===== verification/Futex_Lock.thy ===== *)
theory Futex_Lock
  imports Lock_Progress
begin

text \<open>
  \<open>FutexLock\<close> (\<open>signal_lock/src/futex.rs\<close>). The lock word is 0 when the lock is free, otherwise it
  holds the owner's thread id and, if a thread may sleep on it, the flag \<open>FUTEX_WAITERS\<close>. Each
  program point below ends at the next access to shared memory or system call; the local
  computations between two of them belong to the earlier one.
\<close>

section \<open>The futex word\<close>

text \<open>The two masks of the futex ABI.\<close>

definition FUTEX_WAITERS :: u32 where
  "FUTEX_WAITERS = 0x80000000"

definition FUTEX_TID_MASK :: u32 where
  "FUTEX_TID_MASK = 0x3FFFFFFF"

definition valid_tid :: "tid \<Rightarrow> bool" where
  "valid_tid t \<longleftrightarrow> t \<noteq> 0 \<and> t AND FUTEX_TID_MASK = t"

lemma waiters_mask [simp]: "FUTEX_WAITERS AND FUTEX_TID_MASK = 0" "FUTEX_TID_MASK AND FUTEX_WAITERS = 0"
  by (simp_all add: FUTEX_WAITERS_def FUTEX_TID_MASK_def)

lemma waiters_nonzero [simp]: "FUTEX_WAITERS \<noteq> 0"
  by (simp add: FUTEX_WAITERS_def)

lemma or_waiters_owner [simp]: "(w OR FUTEX_WAITERS) AND FUTEX_TID_MASK = w AND FUTEX_TID_MASK"
  by (simp add: bit.conj_disj_distrib2)

lemma or_waiters_flag [simp]: "(w OR FUTEX_WAITERS) AND FUTEX_WAITERS = FUTEX_WAITERS"
  by (rule bit_word_eqI) (auto simp: bit_simps)

lemma tid_no_flag: "t AND FUTEX_TID_MASK = t \<Longrightarrow> t AND FUTEX_WAITERS = 0"
  by (metis and.assoc and_zero_eq waiters_mask(2))

lemma or_waiters_neq: "w AND FUTEX_WAITERS = 0 \<Longrightarrow> w OR FUTEX_WAITERS \<noteq> w"
  by (metis or_waiters_flag waiters_nonzero)

lemma or_waiters_nonzero [simp]: "w OR FUTEX_WAITERS \<noteq> 0"
  by (metis or_waiters_flag waiters_nonzero zero_and_eq)

section \<open>State and program points\<close>

text \<open>
  The fields of \<open>FutexLock\<close>, and the threads that sleep in the kernel on the word's address (in
  \<open>fake_futex.rs\<close>: the waiters of the condition variable).
\<close>

record 'a futex_lock =
  item :: 'a
  futex :: u32
  sleepers :: "tid set"

definition futex_lock_new :: "'a \<Rightarrow> 'a futex_lock" where
  "futex_lock_new x = \<lparr>item = x, futex = 0, sleepers = {}\<rparr>"

datatype futex_abort =
    WaitFailure errno
  | WakeFailure errno
  | NotHeldByThread tid tid
  | UnexpectedWord u32

text \<open>
  \<open>Guarded l\<close> is the critical section with the client's local state \<open>l\<close>; \<open>Done\<close> carries the
  result of the activation, \<open>Err(Recursive)\<close> or \<open>Ok\<close> of a guard that has been dropped.
\<close>

datatype 'l futex_pc =
    RawLock
  | AcquireWithWaiters
  | SetWaiters u32
  | FutexWait u32
  | FutexAsleep u32
  | Reload
  | Guarded 'l
  | UnlockWake
  | Done "signal_lock_error + unit"
  | Aborted futex_abort

section \<open>The operations\<close>

text \<open>
  The head of the loop of \<open>raw_lock_contended\<close>, which looks at the last value seen and chooses
  the next access.
\<close>

definition raw_lock_contended :: "tid \<Rightarrow> u32 \<Rightarrow> 'l futex_pc" where
  "raw_lock_contended t w =
     (if w AND FUTEX_TID_MASK = t then Done (Inl Recursive)
      else if w = 0 then AcquireWithWaiters
      else if w AND FUTEX_WAITERS = 0 then SetWaiters w
      else FutexWait w)"

definition raw_lock :: "'l \<Rightarrow> tid \<Rightarrow> env \<Rightarrow> 'a futex_lock \<Rightarrow> 'a futex_lock \<times> 'l futex_pc" where
  "raw_lock l0 t c m =
     (case compare_exchange_weak c 0 t (futex m) of
        (Inr prev, w) \<Rightarrow> (m\<lparr>futex := w\<rparr>, Guarded l0)
      | (Inl word, w) \<Rightarrow> (m\<lparr>futex := w\<rparr>, raw_lock_contended t word))"

definition acquire_with_waiters ::
    "'l \<Rightarrow> tid \<Rightarrow> env \<Rightarrow> 'a futex_lock \<Rightarrow> 'a futex_lock \<times> 'l futex_pc" where
  "acquire_with_waiters l0 t c m =
     (case compare_exchange_weak c 0 (t OR FUTEX_WAITERS) (futex m) of
        (Inr prev, w) \<Rightarrow> (m\<lparr>futex := w\<rparr>, Guarded l0)
      | (Inl word, w) \<Rightarrow> (m\<lparr>futex := w\<rparr>, raw_lock_contended t word))"

definition set_waiters ::
    "tid \<Rightarrow> env \<Rightarrow> u32 \<Rightarrow> 'a futex_lock \<Rightarrow> 'a futex_lock \<times> 'l futex_pc" where
  "set_waiters t c word m =
     (case compare_exchange_weak c word (word OR FUTEX_WAITERS) (futex m) of
        (Inr prev, w) \<Rightarrow> (m\<lparr>futex := w\<rparr>, FutexWait (word OR FUTEX_WAITERS))
      | (Inl new_word, w) \<Rightarrow> (m\<lparr>futex := w\<rparr>, raw_lock_contended t new_word))"

text \<open>\<open>Futex::wait\<close> after a failed system call, then the load that follows it in the loop.\<close>

definition wait_failed :: "errno \<Rightarrow> 'l futex_pc" where
  "wait_failed e =
     (if e \<noteq> EAGAIN \<and> e \<noteq> EINTR \<and> e \<noteq> EWOULDBLOCK then Aborted (WaitFailure e) else Reload)"

text \<open>
  \<open>Futex::wait\<close>: the system call puts the thread to sleep if the word still has the expected
  value, and fails with \<open>EAGAIN\<close> otherwise.
\<close>

definition futex_wait ::
    "tid \<Rightarrow> env \<Rightarrow> u32 \<Rightarrow> 'a futex_lock \<Rightarrow> 'a futex_lock \<times> 'l futex_pc" where
  "futex_wait t c val m =
     (case c of
        Fail e \<Rightarrow> (m, wait_failed e)
      | _ \<Rightarrow> if futex m = val then (m\<lparr>sleepers := insert t (sleepers m)\<rparr>, FutexAsleep val)
             else (m, wait_failed EAGAIN))"

text \<open>
  The sleeping thread: it goes on when it has been woken; otherwise it may still be woken spuriously,
  fail because of a signal, or have its call restarted after a signal handler.
\<close>

definition futex_asleep ::
    "tid \<Rightarrow> env \<Rightarrow> u32 \<Rightarrow> 'a futex_lock \<Rightarrow> ('a futex_lock \<times> 'l futex_pc) option" where
  "futex_asleep t c val m =
     (let out = m\<lparr>sleepers := sleepers m - {t}\<rparr> in
      case c of
        Spurious \<Rightarrow> Some (out, Reload)
      | Restart \<Rightarrow> Some (out, FutexWait val)
      | Fail e \<Rightarrow> Some (out, wait_failed e)
      | _ \<Rightarrow> if t \<in> sleepers m then None else Some (m, Reload))"

definition reload :: "tid \<Rightarrow> 'a futex_lock \<Rightarrow> 'a futex_lock \<times> 'l futex_pc" where
  "reload t m = (m, raw_lock_contended t (futex m))"

text \<open>\<open>raw_unlock\<close>; \<open>dbg\<close> is \<open>cfg!(debug_assertions)\<close>.\<close>

definition raw_unlock :: "bool \<Rightarrow> tid \<Rightarrow> 'a futex_lock \<Rightarrow> 'a futex_lock \<times> 'l futex_pc" where
  "raw_unlock dbg t m =
     (let prev = futex m; m' = m\<lparr>futex := 0\<rparr>; holder_tid = prev AND FUTEX_TID_MASK in
      if dbg \<and> holder_tid \<noteq> t then (m', Aborted (NotHeldByThread t holder_tid))
      else if prev \<noteq> t then
        (if dbg \<and> prev \<noteq> t OR FUTEX_WAITERS then (m', Aborted (UnexpectedWord prev))
         else (m', UnlockWake))
      else (m', Done (Inr ())))"

text \<open>
  \<open>raw_unlock_wake\<close> with \<open>Futex::wake_one\<close>: the kernel wakes one sleeper if there is one, the
  call is repeated on \<open>EINTR\<close>.
\<close>

definition wake_one :: "env \<Rightarrow> 'a futex_lock \<Rightarrow> ('a futex_lock \<times> 'l futex_pc) option" where
  "wake_one c m =
     (case c of
        Wake u \<Rightarrow>
          if u \<in> sleepers m then Some (m\<lparr>sleepers := sleepers m - {u}\<rparr>, Done (Inr ())) else None
      | Fail e \<Rightarrow> if e = EINTR then Some (m, UnlockWake) else Some (m, Aborted (WakeFailure e))
      | _ \<Rightarrow> if sleepers m = {} then Some (m, Done (Inr ())) else None)"

text \<open>
  The critical section: the client's code reads and writes the item through the guard
  (\<open>Deref\<close>, \<open>DerefMut\<close>) step by step; when it is done, the guard is dropped.
\<close>

definition guarded ::
    "bool \<Rightarrow> ('l \<Rightarrow> 'a \<Rightarrow> ('l \<times> 'a) option) \<Rightarrow> tid \<Rightarrow> 'l \<Rightarrow> 'a futex_lock \<Rightarrow>
     'a futex_lock \<times> 'l futex_pc" where
  "guarded dbg body t l m =
     (case body l (item m) of
        Some (l', x) \<Rightarrow> (m\<lparr>item := x\<rparr>, Guarded l')
      | None \<Rightarrow> raw_unlock dbg t m)"

fun futex_act ::
    "bool \<Rightarrow> ('l \<Rightarrow> 'a \<Rightarrow> ('l \<times> 'a) option) \<Rightarrow> 'l \<Rightarrow> tid \<Rightarrow> env \<Rightarrow> 'a futex_lock \<Rightarrow> 'l futex_pc \<Rightarrow>
     ('a futex_lock \<times> 'l futex_pc) option" where
  "futex_act dbg body l0 t c m RawLock = Some (raw_lock l0 t c m)"
| "futex_act dbg body l0 t c m AcquireWithWaiters = Some (acquire_with_waiters l0 t c m)"
| "futex_act dbg body l0 t c m (SetWaiters w) = Some (set_waiters t c w m)"
| "futex_act dbg body l0 t c m (FutexWait w) = Some (futex_wait t c w m)"
| "futex_act dbg body l0 t c m (FutexAsleep w) = futex_asleep t c w m"
| "futex_act dbg body l0 t c m Reload = Some (reload t m)"
| "futex_act dbg body l0 t c m (Guarded l) = Some (guarded dbg body t l m)"
| "futex_act dbg body l0 t c m UnlockWake = wake_one c m"
| "futex_act dbg body l0 t c m (Done r) = None"
| "futex_act dbg body l0 t c m (Aborted a) = None"

text \<open>
  The documented answers of the environment: \<open>FUTEX_WAIT\<close> fails with \<open>EAGAIN\<close> or \<open>EINTR\<close> only, and
  the source allows for \<open>EINTR\<close> from \<open>FUTEX_WAKE\<close>.
\<close>

fun futex_allowed :: "'l futex_pc \<Rightarrow> env \<Rightarrow> bool" where
  "futex_allowed RawLock c = (c \<in> {Normal, WeakFail})"
| "futex_allowed AcquireWithWaiters c = (c \<in> {Normal, WeakFail})"
| "futex_allowed (SetWaiters w) c = (c \<in> {Normal, WeakFail})"
| "futex_allowed (FutexWait w) c = (c \<in> {Normal, Fail EAGAIN, Fail EINTR, Fail EWOULDBLOCK})"
| "futex_allowed (FutexAsleep w) c = (c \<in> {Normal, Spurious, Restart, Fail EINTR})"
| "futex_allowed UnlockWake c = (case c of Normal \<Rightarrow> True | Wake u \<Rightarrow> True | Fail e \<Rightarrow> e = EINTR | _ \<Rightarrow> False)"
| "futex_allowed _ c = (c = Normal)"

fun futex_finished :: "'l futex_pc \<Rightarrow> bool" where
  "futex_finished (Done r) = True"
| "futex_finished _ = False"

fun futex_sleeping :: "'l futex_pc \<Rightarrow> bool" where
  "futex_sleeping (FutexAsleep w) = True"
| "futex_sleeping _ = False"

definition futex_code ::
    "bool \<Rightarrow> ('l \<Rightarrow> 'a \<Rightarrow> ('l \<times> 'a) option) \<Rightarrow> 'l \<Rightarrow> ('a futex_lock, 'l futex_pc) lock_code" where
  "futex_code dbg body l0 =
     \<lparr>start = RawLock, act = futex_act dbg body l0, allowed = futex_allowed,
      finished = futex_finished, sleeping = futex_sleeping, tid_ok = valid_tid\<rparr>"

lemma futex_code_simps [simp]:
  "start (futex_code dbg body l0) = RawLock"
  "act (futex_code dbg body l0) = futex_act dbg body l0"
  "allowed (futex_code dbg body l0) = futex_allowed"
  "finished (futex_code dbg body l0) = futex_finished"
  "sleeping (futex_code dbg body l0) = futex_sleeping"
  "tid_ok (futex_code dbg body l0) = valid_tid"
  by (simp_all add: futex_code_def)

lemmas futex_defs [code_simps] =
  raw_lock_contended_def raw_lock_def acquire_with_waiters_def set_waiters_def wait_failed_def
  futex_wait_def futex_asleep_def reload_def raw_unlock_def wake_one_def guarded_def
  compare_exchange_weak_def

section \<open>Owner, holders and contenders\<close>

definition futex_owner :: "'a futex_lock \<Rightarrow> tid" where
  "futex_owner m = futex m AND FUTEX_TID_MASK"

fun futex_holds :: "'l futex_pc \<Rightarrow> bool" where
  "futex_holds (Guarded l) = True"
| "futex_holds _ = False"

fun futex_contends :: "'l futex_pc \<Rightarrow> bool" where
  "futex_contends AcquireWithWaiters = True"
| "futex_contends (SetWaiters w) = True"
| "futex_contends (FutexWait w) = True"
| "futex_contends (FutexAsleep w) = True"
| "futex_contends Reload = True"
| "futex_contends _ = False"

fun futex_recursive :: "'l futex_pc \<Rightarrow> bool" where
  "futex_recursive (Done (Inl Recursive)) = True"
| "futex_recursive _ = False"

text \<open>The loop head enters contention only when the thread does not hold the lock.\<close>

lemma raw_lock_contended_cases:
  obtains "raw_lock_contended t w = Done (Inl Recursive)" "w AND FUTEX_TID_MASK = t"
  | "raw_lock_contended t w = AcquireWithWaiters" "w AND FUTEX_TID_MASK \<noteq> t" "w = 0"
  | "raw_lock_contended t w = SetWaiters w" "w AND FUTEX_TID_MASK \<noteq> t" "w \<noteq> 0" "w AND FUTEX_WAITERS = 0"
  | "raw_lock_contended t w = FutexWait w" "w AND FUTEX_TID_MASK \<noteq> t" "w \<noteq> 0" "w AND FUTEX_WAITERS \<noteq> 0"
  by (cases "w AND FUTEX_TID_MASK = t"; cases "w = 0"; cases "w AND FUTEX_WAITERS = 0")
    (auto simp: raw_lock_contended_def)

lemma raw_lock_contended_simps [simp]:
  "\<not> futex_holds (raw_lock_contended t w)"
  "futex_contends (raw_lock_contended t w) \<longleftrightarrow> w AND FUTEX_TID_MASK \<noteq> t"
  "futex_recursive (raw_lock_contended t w) \<longleftrightarrow> w AND FUTEX_TID_MASK = t"
  by (simp_all add: raw_lock_contended_def)

lemma wait_failed_simps [simp]:
  "\<not> futex_holds (wait_failed e)" "\<not> futex_recursive (wait_failed e)"
  by (simp_all add: wait_failed_def)

text \<open>
  The elimination rule of an action: one case per program point, with the outcome of each branch.
\<close>

fun_cases futex_actE: "futex_act dbg body l0 t c m p = Some (m', p')"

lemmas futex_splits = if_splits option.splits sum.splits env.splits prod.splits

interpretation futex: owned_lock "futex_code dbg body l0" "futex_lock_new x0" futex_owner item
    futex_holds futex_contends futex_recursive for dbg body l0 x0
proof (unfold_locales, goal_cases)
  case 1
  show ?case by (simp add: futex_owner_def futex_lock_new_def)
next
  case (3 t)
  then show ?case by (simp add: valid_tid_def)
next
  case (11 p)
  then show ?case by (cases p) simp_all
next
  case (4 p)
  then show ?case by (cases p) simp_all
next
  case (5 t c m p m' p')
  then show ?case
    by (cases p) (auto simp: futex_defs futex_owner_def Let_def split: futex_splits)
next
  case (6 t c m p m' p')
  then show ?case
    by (cases p) (auto simp: futex_defs futex_owner_def valid_tid_def Let_def split: futex_splits)
next
  case (7 t c m p m' p')
  then show ?case
    by (cases p) (auto simp: guarded_def raw_unlock_def futex_owner_def Let_def split: futex_splits)
next
  case (8 t c m p m' p')
  then show ?case
    by (cases p) (auto simp: futex_defs Let_def split: futex_splits)
next
  case (12 t c m p m' p')
  then show ?case
    by (cases p)
      (auto simp: raw_lock_def guarded_def raw_unlock_def wake_one_def compare_exchange_weak_def
        futex_owner_def Let_def split: futex_splits)
next
  case (13 t c m p m' p')
  then show ?case
    by (cases p)
      (auto simp: raw_lock_def acquire_with_waiters_def set_waiters_def futex_wait_def
        futex_asleep_def reload_def guarded_def raw_unlock_def wake_one_def
        compare_exchange_weak_def futex_owner_def Let_def split: futex_splits)
next
  case (14 t c m m' p')
  then show ?case
    by (auto simp: raw_lock_def compare_exchange_weak_def futex_owner_def valid_tid_def
        raw_lock_contended_def split: if_splits)
qed simp_all

section \<open>Recursion is detected\<close>

lemma futex_reentrant_call:
  assumes "reachable (futex_code dbg body l0) (futex_lock_new x0) s"
    and "stacks s t = RawLock # ps" and "q \<in> set ps" and "futex_holds q"
    and "sys_step (futex_code dbg body l0) (Run t c) s s'"
  shows "stacks s' t = Futex_Lock.Done (Inl Recursive) # ps \<and> mem s' = mem s"
proof -
  from futex.reentrant_call_recursive [OF assms(1) _ assms(3-5)] assms(2)
  obtain p' where p': "stacks s' t = p' # ps" "futex_recursive p'" "mem s' = mem s" by auto
  from p'(2) have "p' = Futex_Lock.Done (Inl Recursive)" by (cases p' rule: futex_recursive.cases) simp_all
  with p' show ?thesis by simp
qed

lemma futex_recursive_justified:
  assumes "reachable (futex_code dbg body l0) (futex_lock_new x0) s"
    and "stacks s t = Futex_Lock.Done (Inl Recursive) # ps"
  shows "\<exists>q \<in> set ps. futex_holds q"
  by (rule futex.recursive_held_beneath [OF assms]) simp

end
