(* ===== verification/Futex_Progress.thy ===== *)
theory Futex_Progress
  imports Futex_Lock
begin

text \<open>
  No lost wake-up for \<open>FutexLock\<close>: the invariant of the futex word, of the local copies the
  activations keep of it, and of the kernel's queue; then the interpretation of the hand-over
  contract.
\<close>

section \<open>The invariant\<close>

text \<open>The word is 0, a thread id, or a thread id with the waiters flag.\<close>

definition word_ok :: "u32 \<Rightarrow> bool" where
  "word_ok w \<longleftrightarrow> w AND FUTEX_TID_MASK = w \<or>
     w AND FUTEX_TID_MASK \<noteq> 0 \<and> w = (w AND FUTEX_TID_MASK) OR FUTEX_WAITERS"

text \<open>What an activation knows about its copy of the word; no activation has aborted.\<close>

fun futex_pc_ok :: "'l futex_pc \<Rightarrow> bool" where
  "futex_pc_ok (SetWaiters w) = (w \<noteq> 0 \<and> w AND FUTEX_TID_MASK = w)"
| "futex_pc_ok (FutexWait w) = (w AND FUTEX_WAITERS \<noteq> 0)"
| "futex_pc_ok (FutexAsleep w) = (w AND FUTEX_WAITERS \<noteq> 0)"
| "futex_pc_ok (Aborted a) = False"
| "futex_pc_ok _ = True"

text \<open>Only running activations sleep, and the kernel's queue holds sleeping threads only.\<close>

definition futex_queue_ok :: "tid set \<Rightarrow> (tid \<Rightarrow> 'l futex_pc list) \<Rightarrow> bool" where
  "futex_queue_ok Q stk \<longleftrightarrow>
     on_stacks (\<lambda>ps. list_all (\<lambda>p. \<not> futex_sleeping p) (tl ps)) stk \<and>
     (\<forall>t \<in> Q. \<exists>w ps. stk t = FutexAsleep w # ps)"

definition futex_sound :: "('a futex_lock, 'l futex_pc) sys \<Rightarrow> bool" where
  "futex_sound s \<longleftrightarrow> word_ok (futex (mem s)) \<and> on_stacks (list_all futex_pc_ok) (stacks s) \<and>
     futex_queue_ok (sleepers (mem s)) (stacks s)"

lemma futex_sound_stack:
  assumes "futex_sound s" and "stacks s t = xs"
  shows "list_all futex_pc_ok xs" and "list_all (\<lambda>p. \<not> futex_sleeping p) (tl xs)"
  using assms by (auto simp: futex_sound_def futex_queue_ok_def on_stacks_def)

lemma word_ok_cases:
  assumes "word_ok w"
  obtains "w AND FUTEX_TID_MASK = w" "w AND FUTEX_WAITERS = 0"
  | "w AND FUTEX_TID_MASK \<noteq> 0" "w = (w AND FUTEX_TID_MASK) OR FUTEX_WAITERS" "w AND FUTEX_WAITERS \<noteq> 0"
proof -
  have "(w AND FUTEX_TID_MASK) OR FUTEX_WAITERS = w \<Longrightarrow> w AND FUTEX_WAITERS \<noteq> 0"
    by (metis or_waiters_flag waiters_nonzero)
  with assms tid_no_flag [of w] that show thesis
    by (auto simp: word_ok_def)
qed

lemma word_ok_0 [simp]: "word_ok 0"
  by (simp add: word_ok_def)

lemma word_ok_tid: "w AND FUTEX_TID_MASK = w \<Longrightarrow> word_ok w"
  by (simp add: word_ok_def)

lemma word_ok_or_waiters: "w AND FUTEX_TID_MASK = w \<Longrightarrow> w \<noteq> 0 \<Longrightarrow> word_ok (w OR FUTEX_WAITERS)"
  by (simp add: word_ok_def)

lemma raw_lock_contended_ok: "word_ok w \<Longrightarrow> futex_pc_ok (raw_lock_contended t w)"
  by (auto simp: raw_lock_contended_def elim: word_ok_cases)

text \<open>An action keeps the word and the running activation's copy of it well-formed.\<close>

lemma futex_act_ok:
  assumes "valid_tid t" and "futex_allowed p c" and "word_ok (futex m)" and "futex_pc_ok p"
    and "futex_holds p \<Longrightarrow> futex_owner m = t"
    and "futex_act dbg body l0 t c m p = Some (m', p')"
  shows "word_ok (futex m') \<and> futex_pc_ok p'"
  using assms
proof (cases p)
  case (Guarded l)
  with assms show ?thesis
    by (elim word_ok_cases)
      (auto simp: guarded_def raw_unlock_def futex_owner_def Let_def valid_tid_def word_ok_def split: futex_splits)
next
  case (SetWaiters w)
  with assms show ?thesis
    by (auto simp: set_waiters_def compare_exchange_weak_def word_ok_or_waiters raw_lock_contended_ok
        split: if_splits)
qed (auto simp: raw_lock_def acquire_with_waiters_def futex_wait_def futex_asleep_def reload_def
      wake_one_def wait_failed_def compare_exchange_weak_def Let_def valid_tid_def raw_lock_contended_ok
      word_ok_or_waiters word_ok_tid split: futex_splits)

text \<open>How an action changes the kernel's queue.\<close>

lemma futex_act_sleepers:
  assumes "futex_act dbg body l0 t c m p = Some (m', p')"
  shows "sleepers m' = sleepers m \<and> (futex_sleeping p \<longrightarrow> t \<notin> sleepers m) \<and> \<not> futex_sleeping p' \<or>
    sleepers m' = insert t (sleepers m) \<and> futex_sleeping p' \<or>
    sleepers m' = sleepers m - {t} \<and> \<not> futex_sleeping p' \<and> futex_sleeping p \<or>
    (\<exists>u \<in> sleepers m. sleepers m' = sleepers m - {u}) \<and> p = UnlockWake \<and> \<not> futex_sleeping p'"
proof (cases p)
  case (FutexAsleep w)
  with assms show ?thesis
    by (auto simp: futex_asleep_def wait_failed_def Let_def split: futex_splits)
qed (use assms in \<open>auto simp: raw_lock_def acquire_with_waiters_def set_waiters_def futex_wait_def reload_def
    guarded_def raw_unlock_def wake_one_def wait_failed_def raw_lock_contended_def
    compare_exchange_weak_def Let_def split: futex_splits\<close>)

lemma futex_queue_step:
  assumes Q: "futex_queue_ok (sleepers m) stk" and stk: "stk t = p # ps"
    and act: "futex_act dbg body l0 t c m p = Some (m', p')"
  shows "futex_queue_ok (sleepers m') (stk(t := p' # ps))"
proof -
  have top: "\<And>u. u \<in> sleepers m \<Longrightarrow> \<exists>w ps. stk u = FutexAsleep w # ps"
    and rest: "on_stacks (\<lambda>ps. list_all (\<lambda>p. \<not> futex_sleeping p) (tl ps)) stk"
    using Q by (auto simp: futex_queue_ok_def)
  have t: "t \<in> sleepers m \<Longrightarrow> futex_sleeping p" using top [of t] stk by auto
  have sl: "futex_sleeping p' \<Longrightarrow> \<exists>w. p' = FutexAsleep w" by (cases p') auto
  have "list_all (\<lambda>p. \<not> futex_sleeping p) (tl (p' # ps))"
    using on_stacks_at [OF rest stk] by simp
  then have "on_stacks (\<lambda>ps. list_all (\<lambda>p. \<not> futex_sleeping p) (tl ps)) (stk(t := p' # ps))"
    by (rule on_stacks_upd [OF rest])
  moreover have "\<exists>w ps. stk u = FutexAsleep w # ps" if "u \<in> sleepers m'" "u \<noteq> t" for u
    using futex_act_sleepers [OF act] that top by auto
  moreover have "\<exists>w. p' = FutexAsleep w" if "t \<in> sleepers m'"
    using futex_act_sleepers [OF act] that t sl by auto
  ultimately show ?thesis
    by (simp add: futex_queue_ok_def)
qed

lemma futex_sound_step:
  assumes r: "reachable (futex_code dbg body l0) (futex_lock_new x0) s" and sound: "futex_sound s"
    and step: "sys_step (futex_code dbg body l0) e s s'"
  shows "futex_sound s'"
  using step
proof cases
  case (call t)
  have "list_all futex_pc_ok (stacks s t)" "list_all (\<lambda>p. \<not> futex_sleeping p) (tl (stacks s t))"
    using futex_sound_stack [OF sound refl] by simp_all
  then have "list_all futex_pc_ok (RawLock # stacks s t)"
    and "list_all (\<lambda>p. \<not> futex_sleeping p) (tl (RawLock # stacks s t))"
    using call by (cases "stacks s t"; simp)+
  moreover have "t \<notin> sleepers (mem s)"
    using call sound by (auto simp: futex_sound_def futex_queue_ok_def)
  ultimately show ?thesis
    using call sound by (auto simp: futex_sound_def futex_queue_ok_def intro!: on_stacks_upd)
next
  case (run t p ps c m' p')
  have t: "valid_tid t" using reachable_tid_ok [OF r] run by simp
  have own: "futex_holds p \<Longrightarrow> futex_owner (mem s) = t"
    using owner_inv_holds [of futex_owner futex_holds s p t] futex.reachable_inv [OF r] run by simp
  have ps: "list_all futex_pc_ok (p # ps)" and w: "word_ok (futex (mem s))"
    using sound futex_sound_stack [OF sound run(3)] by (simp_all add: futex_sound_def)
  then have p: "futex_pc_ok p" by simp
  have act: "futex_act dbg body l0 t c (mem s) p = Some (m', p')" and al: "futex_allowed p c"
    using run by simp_all
  from futex_act_ok [OF t al w p own act] ps have "word_ok (futex m')" "list_all futex_pc_ok (p' # ps)"
    by simp_all
  moreover have "futex_queue_ok (sleepers m') ((stacks s)(t := p' # ps))"
    by (rule futex_queue_step [where stk = "stacks s", OF _ run(3) act])
      (use sound in \<open>simp add: futex_sound_def\<close>)
  ultimately show ?thesis
    using sound run(2) by (simp add: futex_sound_def on_stacks_upd)
next
  case (return t p ps)
  have ps: "list_all futex_pc_ok (p # ps)" "list_all (\<lambda>p. \<not> futex_sleeping p) (tl (p # ps))"
    using futex_sound_stack [OF sound return(3)] by simp_all
  then have "list_all (\<lambda>p. \<not> futex_sleeping p) (tl ps)"
    by (cases ps) simp_all
  moreover have "t \<notin> sleepers (mem s)"
    using return sound by (cases p) (auto simp: futex_sound_def futex_queue_ok_def)
  ultimately show ?thesis
    using ps return sound by (auto simp: futex_sound_def futex_queue_ok_def intro!: on_stacks_upd)
qed

lemma futex_reachable_sound:
  assumes "reachable (futex_code dbg body l0) (futex_lock_new x0) s"
  shows "futex_sound s"
  using assms
proof (rule reachable_invariant)
  show "futex_sound (init_sys (futex_lock_new x0))"
    by (simp add: futex_sound_def futex_queue_ok_def futex_lock_new_def init_sys_def)
qed (rule futex_sound_step)

section \<open>Waiting and the responsibility to wake\<close>

definition futex_waiting :: "tid \<Rightarrow> 'a futex_lock \<Rightarrow> 'l futex_pc \<Rightarrow> bool" where
  "futex_waiting t m p \<longleftrightarrow> futex_sleeping p \<and> t \<in> sleepers m"

definition futex_resp :: "tid \<Rightarrow> 'a futex_lock \<Rightarrow> 'l futex_pc \<Rightarrow> bool" where
  "futex_resp t m p \<longleftrightarrow> p = UnlockWake \<or> futex_contends p \<and> \<not> futex_waiting t m p"

definition futex_pend :: "'a futex_lock \<Rightarrow> bool" where
  "futex_pend m \<longleftrightarrow> futex m AND FUTEX_WAITERS \<noteq> 0"

lemma futex_resp_simps [simp]:
  "futex_resp t m UnlockWake" "futex_resp t m AcquireWithWaiters" "futex_resp t m (SetWaiters w)"
  "futex_resp t m (FutexWait w)" "futex_resp t m Reload"
  "futex_resp t m (FutexAsleep w) \<longleftrightarrow> t \<notin> sleepers m"
  "\<not> futex_resp t m RawLock" "\<not> futex_resp t m (Guarded l)" "\<not> futex_resp t m (Done r)"
  "\<not> futex_resp t m (Aborted a)"
  by (simp_all add: futex_resp_def futex_waiting_def)

lemma futex_waiting_simps [simp]:
  "\<not> futex_waiting t m RawLock" "\<not> futex_waiting t m (Guarded l)" "\<not> futex_waiting t m (Done r)"
  "\<not> futex_waiting t m (Aborted a)" "\<not> futex_waiting t m UnlockWake" "\<not> futex_waiting t m Reload"
  "\<not> futex_waiting t m AcquireWithWaiters" "\<not> futex_waiting t m (SetWaiters w)"
  "\<not> futex_waiting t m (FutexWait w)" "futex_waiting t m (FutexAsleep w) \<longleftrightarrow> t \<in> sleepers m"
  by (simp_all add: futex_waiting_def)

lemma contended_resp:
  "w AND FUTEX_TID_MASK \<noteq> t \<Longrightarrow> futex_resp t m (raw_lock_contended t w)"
  "\<not> futex_waiting t m (raw_lock_contended t w)"
  by (simp_all add: raw_lock_contended_def)

lemma wait_failed_resp: "wait_failed e = Reload \<or> (\<exists>a. wait_failed e = Aborted a)"
  by (simp add: wait_failed_def)

text \<open>The hand-over of one action: the responsibility for waking sleeping threads.\<close>

lemma futex_hand_over:
  assumes t: "valid_tid t" and al: "futex_allowed p c" and w: "word_ok (futex m)" and p: "futex_pc_ok p"
    and own: "futex_holds p \<Longrightarrow> futex_owner m = t" and cont: "futex_contends p \<Longrightarrow> futex_owner m \<noteq> t"
    and act: "futex_act dbg body l0 t c m p = Some (m', p')" and np: "\<not> futex_pend m'"
    and Q: "sleepers m \<noteq> {} \<or> sleepers m' \<noteq> {}"
  shows "futex_resp t m' p' \<or> (\<exists>u \<in> sleepers m. sleepers m' = sleepers m - {u} \<and> p = UnlockWake) \<or>
    (\<not> futex_pend m \<and> \<not> futex_resp t m p \<and> \<not> futex_waiting t m' p')"
proof (cases p)
  case RawLock
  with act np show ?thesis
    using contended_resp(1) [where w = "futex m" and t = t]
    by (cases "futex m AND FUTEX_TID_MASK = t")
      (auto simp: raw_lock_def compare_exchange_weak_def futex_pend_def raw_lock_contended_def split: if_splits)
next
  case AcquireWithWaiters
  with act np cont show ?thesis
    by (auto simp: acquire_with_waiters_def compare_exchange_weak_def futex_pend_def futex_owner_def
        contended_resp split: if_splits)
next
  case (SetWaiters x)
  with act np cont show ?thesis
    by (auto simp: set_waiters_def compare_exchange_weak_def futex_pend_def futex_owner_def
        contended_resp split: if_splits)
next
  case (FutexWait x)
  with act np p al show ?thesis
    by (auto simp: futex_wait_def wait_failed_def futex_pend_def split: futex_splits)
next
  case (FutexAsleep x)
  with act al show ?thesis
    by (auto simp: futex_asleep_def wait_failed_def Let_def split: futex_splits)
next
  case Reload
  with act cont show ?thesis
    by (auto simp: reload_def futex_owner_def contended_resp)
next
  case (Guarded l)
  with act np own w t show ?thesis
    by (elim word_ok_cases)
      (auto simp: guarded_def raw_unlock_def futex_pend_def futex_owner_def Let_def valid_tid_def
        dest: tid_no_flag or_waiters_neq split: futex_splits)
next
  case UnlockWake
  with act al Q show ?thesis
    by (auto simp: wake_one_def split: futex_splits)
qed (use act in auto)

text \<open>The status of the activations that do not move.\<close>

lemma futex_others_keep:
  assumes sound: "futex_sound s" and stk: "stacks s t = p # ps"
    and act: "futex_act dbg body l0 t c (mem s) p = Some (m', p')"
    and other: "q \<in> set ps \<and> u = t \<or> q \<in> set (stacks s u) \<and> u \<noteq> t"
  shows "(futex_resp u (mem s) q \<longrightarrow> futex_resp u m' q) \<and>
    (futex_waiting u m' q \<longrightarrow> futex_waiting u (mem s) q)"
proof -
  have "\<not> futex_sleeping q" if "u = t"
  proof -
    from futex_sound_stack(2) [OF sound stk] other that show ?thesis by (auto simp: list_all_iff)
  qed
  moreover have "u \<in> sleepers m' \<longrightarrow> u \<in> sleepers (mem s)" if "u \<noteq> t"
    using futex_act_sleepers [OF act] that by auto
  ultimately show ?thesis
    by (auto simp: futex_resp_def futex_waiting_def)
qed

lemma futex_act_progress:
  assumes ok: "futex_pc_ok p" and "\<not> futex_waiting t m p" and "\<not> futex_finished p"
  shows "\<exists>c m' p'. quiet c \<and> futex_allowed p c \<and> futex_act dbg body l0 t c m p = Some (m', p')"
proof (cases "p = UnlockWake \<and> sleepers m \<noteq> {}")
  case True
  then obtain u where "u \<in> sleepers m" by blast
  with True show ?thesis
    by (intro exI [of _ "Wake u"]) (simp add: wake_one_def)
next
  case False
  with assms show ?thesis
    by (intro exI [of _ Normal], cases p) (auto simp: futex_asleep_def wake_one_def)
qed

text \<open>The hand-over in a reachable state of the whole system.\<close>

lemma futex_hand_over_reachable:
  assumes r: "reachable (futex_code dbg body l0) (futex_lock_new x0) s" and sound: "futex_sound s"
    and stk: "stacks s t = p # ps" and al: "futex_allowed p c"
    and act: "futex_act dbg body l0 t c (mem s) p = Some (m', p')" and np: "\<not> futex_pend m'"
    and waiter: "some_waiting futex_waiting m' ((stacks s)(t := p' # ps))"
  shows "futex_resp t m' p' \<or> (\<exists>u q qs. u \<noteq> t \<and> stacks s u = q # qs \<and> futex_resp u m' q) \<or>
    (\<not> futex_pend (mem s) \<and> \<not> futex_resp t (mem s) p \<and> \<not> futex_waiting t m' p')"
proof -
  have t: "valid_tid t" using reachable_tid_ok [OF r] stk by simp
  have inv: "owner_inv futex_owner futex_holds s \<and> nesting_inv futex_holds futex_contends futex_recursive s"
    by (rule futex.reachable_inv [OF r])
  have own: "futex_holds p \<Longrightarrow> futex_owner (mem s) = t"
    using owner_inv_holds [of futex_owner futex_holds s p t] inv stk by simp
  have cont: "futex_contends p \<Longrightarrow> futex_owner (mem s) \<noteq> t"
    using futex.contender_not_owner [OF inv stk] t by (auto simp: valid_tid_def)
  have ps: "futex_pc_ok p" and w: "word_ok (futex (mem s))" and Q: "futex_queue_ok (sleepers (mem s)) (stacks s)"
    using sound futex_sound_stack [OF sound stk] by (simp_all add: futex_sound_def)
  have "sleepers (mem s) \<noteq> {} \<or> sleepers m' \<noteq> {}"
    using waiter by (auto simp: some_waiting_def futex_waiting_def)
  from futex_hand_over [OF t al w ps own cont act np this] consider
    (self) "futex_resp t m' p'"
  | (wake) u where "u \<in> sleepers (mem s)" "sleepers m' = sleepers (mem s) - {u}" "p = UnlockWake"
  | (neutral) "\<not> futex_pend (mem s) \<and> \<not> futex_resp t (mem s) p \<and> \<not> futex_waiting t m' p'"
    by blast
  then show ?thesis
  proof cases
    case wake
    with Q obtain x qs where "stacks s u = FutexAsleep x # qs" by (auto simp: futex_queue_ok_def)
    moreover from this have "u \<noteq> t" using stk wake(3) by (cases "u = t") simp_all
    moreover have "futex_resp u m' (FutexAsleep x)" using wake by simp
    ultimately have "\<exists>u q qs. u \<noteq> t \<and> stacks s u = q # qs \<and> futex_resp u m' q"
      by (intro exI [of _ u] exI [of _ "FutexAsleep x"] exI [of _ qs]) simp
    then show ?thesis by simp
  qed simp_all
qed

interpretation futex: waking_lock "futex_code dbg body l0" "futex_lock_new x0" futex_owner item
    futex_holds futex_contends futex_recursive futex_sound futex_waiting futex_resp futex_waiting
    futex_pend for dbg body l0 x0
proof (unfold_locales, goal_cases)
  case (1 s)
  then show ?case by (rule futex_reachable_sound)
next
  case (2 t m p)
  then show ?case by (cases p) simp_all
next
  case (3 p t m)
  then show ?case by (cases p) simp_all
next
  case (4 t m p)
  then show ?case by (cases p) simp_all
next
  case (6 s t p ps c m' p' q u)
  then show ?case using futex_others_keep [OF 6(2,3)] by simp
next
  case (7 s t p ps c m' p')
  show ?case by (rule futex_hand_over_reachable [OF 7(1-3) _ _ 7(6,7)]) (use 7(4,5) in simp_all)
next
  case (8 s)
  then have "word_ok (futex (mem s))" by (simp add: futex_sound_def)
  with 8 show ?case
    by (elim word_ok_cases) (auto simp: futex_pend_def futex_owner_def)
next
  case (9 s t p ps)
  then have "futex_pc_ok p"
    using futex_sound_stack [OF 9(2,3)] by simp
  with 9 show ?case using futex_act_progress by simp
qed simp_all

end
