(* ===== verification/Futex_Termination.thy ===== *)
theory Futex_Termination
  imports Futex_Progress
begin

text \<open>
  Every call of \<open>FutexLock::lock\<close> returns once the environment is quiet: a lexicographic measure
  that every quiet step decreases. The first component counts the changes of the lock word that the
  activations can still cause, the second one the accesses an activation makes with the copy of
  the word it has before it sleeps or changes the word.
\<close>

section \<open>The measure\<close>

fun futex_budget :: "('l \<Rightarrow> nat) \<Rightarrow> 'l \<Rightarrow> 'l futex_pc \<Rightarrow> nat" where
  "futex_budget bm l0 (Guarded l) = bm l + 3"
| "futex_budget bm l0 UnlockWake = 2"
| "futex_budget bm l0 (Done r) = 1"
| "futex_budget bm l0 (Aborted a) = 1"
| "futex_budget bm l0 p = bm l0 + 5"

definition flag_budget :: "'a futex_lock \<Rightarrow> nat" where
  "flag_budget m = (if futex m \<noteq> 0 \<and> futex m AND FUTEX_WAITERS = 0 then 1 else 0)"

text \<open>An access with an outdated copy ranks above the same access with the current word.\<close>

fun futex_rank :: "tid \<Rightarrow> 'a futex_lock \<Rightarrow> 'l futex_pc \<Rightarrow> nat" where
  "futex_rank t m RawLock = 5"
| "futex_rank t m Reload = 5"
| "futex_rank t m AcquireWithWaiters = (if futex m = 0 then 2 else 4)"
| "futex_rank t m (SetWaiters w) = (if futex m = w then 2 else 4)"
| "futex_rank t m (FutexWait w) = (if futex m = w then 2 else 6)"
| "futex_rank t m (FutexAsleep w) = (if t \<in> sleepers m then 1 else 6)"
| "futex_rank t m _ = 0"

definition futex_measure :: "('l \<Rightarrow> nat) \<Rightarrow> 'l \<Rightarrow> ('a futex_lock, 'l futex_pc) sys \<Rightarrow> nat" where
  "futex_measure bm l0 s =
     (\<Sum>t\<in>UNIV. sum_list (map (futex_budget bm l0) (stacks s t))) + flag_budget (mem s)"

definition futex_measure2 :: "('a futex_lock, 'l futex_pc) sys \<Rightarrow> nat" where
  "futex_measure2 s = (\<Sum>t\<in>UNIV. sum_list (map (futex_rank t (mem s)) (stacks s t)))"

definition futex_descent ::
    "('l \<Rightarrow> nat) \<Rightarrow> 'l \<Rightarrow> (('a futex_lock, 'l futex_pc) sys \<times> ('a futex_lock, 'l futex_pc) sys) set" where
  "futex_descent bm l0 = measures [futex_measure bm l0, futex_measure2]"

section \<open>Every quiet step decreases it\<close>

lemma raw_lock_contended_rank [simp]:
  "futex_budget bm l0 (raw_lock_contended t w) = 1 \<or> futex_budget bm l0 (raw_lock_contended t w) = bm l0 + 5"
  "futex m = w \<Longrightarrow> 2 < n \<Longrightarrow> futex_rank t m (raw_lock_contended t w) < n"
  by (simp_all add: raw_lock_contended_def)

lemma futex_same [simp]: "m\<lparr>futex := futex m\<rparr> = m"
  by (cases m) simp

lemma futex_quiet_act:
  assumes t: "valid_tid t" and al: "futex_allowed p c" and q: "quiet c" and ok: "futex_pc_ok p"
    and bm: "body_bounded body bm"
    and act: "futex_act dbg body l0 t c m p = Some (m', p')"
  shows "futex_budget bm l0 p' + flag_budget m' < futex_budget bm l0 p + flag_budget m \<or>
    futex_budget bm l0 p' + flag_budget m' = futex_budget bm l0 p + flag_budget m \<and>
    futex m' = futex m \<and> (sleepers m' = sleepers m \<or> sleepers m' = insert t (sleepers m)) \<and>
    futex_rank t m' p' < futex_rank t m p"
proof (cases p)
  case RawLock
  with al q have "c = Normal" by auto
  with RawLock act t raw_lock_contended_rank(1) [of bm l0 t "futex m"] show ?thesis
    by (auto simp: raw_lock_def compare_exchange_weak_def flag_budget_def split: if_splits)
next
  case AcquireWithWaiters
  with al q have "c = Normal" by auto
  with AcquireWithWaiters act raw_lock_contended_rank(1) [of bm l0 t "futex m"] show ?thesis
    by (auto simp: acquire_with_waiters_def compare_exchange_weak_def flag_budget_def split: if_splits)
next
  case (SetWaiters w)
  with al q have "c = Normal" by auto
  with SetWaiters act ok raw_lock_contended_rank(1) [of bm l0 t "futex m"] show ?thesis
    by (auto simp: set_waiters_def compare_exchange_weak_def flag_budget_def dest: tid_no_flag split: if_splits)
next
  case (FutexWait w)
  with al q have "c = Normal" by auto
  with FutexWait act show ?thesis
    by (auto simp: futex_wait_def wait_failed_def flag_budget_def split: if_splits)
next
  case (FutexAsleep w)
  with al q have "c = Normal" by auto
  with FutexAsleep act show ?thesis
    by (auto simp: futex_asleep_def Let_def flag_budget_def split: if_splits)
next
  case Reload
  with act raw_lock_contended_rank(1) [of bm l0 t "futex m"] show ?thesis
    by (auto simp: reload_def)
next
  case (Guarded l)
  with act bm show ?thesis
    by (auto simp: guarded_def raw_unlock_def Let_def flag_budget_def dest: body_boundedD split: futex_splits)
next
  case UnlockWake
  with act al q show ?thesis
    by (auto simp: wake_one_def flag_budget_def split: futex_splits)
qed (use act in auto)

lemma futex_rank_frame:
  assumes "futex m' = futex m" and "sleepers m' = sleepers m \<or> sleepers m' = insert t (sleepers m)"
    and "u \<noteq> t \<or> \<not> futex_sleeping q"
  shows "futex_rank u m' q = futex_rank u m q"
  using assms by (cases q) auto

lemma futex_measure2_run:
  assumes stk: "stacks s t = p # ps" and awake: "list_all (\<lambda>p. \<not> futex_sleeping p) ps"
    and word: "futex m' = futex (mem s)"
    and queue: "sleepers m' = sleepers (mem s) \<or> sleepers m' = insert t (sleepers (mem s))"
    and less: "futex_rank t m' p' < futex_rank t (mem s) p"
  shows "futex_measure2 (s\<lparr>mem := m', stacks := (stacks s)(t := p' # ps)\<rparr>) < futex_measure2 s"
proof -
  note frame = futex_rank_frame [OF word queue]
  have "map (futex_rank t m') ps = map (futex_rank t (mem s)) ps"
    using awake frame by (auto simp: list_all_iff)
  then have ps: "sum_list (map (futex_rank t m') ps) = sum_list (map (futex_rank t (mem s)) ps)"
    by (rule arg_cong)
  have other: "sum_list (map (futex_rank u m') xs) = sum_list (map (futex_rank u (mem s)) xs)" if "u \<noteq> t" for u xs
    by (intro arg_cong [where f = sum_list] map_cong refl frame disjI1 that)
  have "futex_measure2 (s\<lparr>mem := m', stacks := (stacks s)(t := p' # ps)\<rparr>) =
      (\<Sum>u\<in>UNIV. if u = t then futex_rank t m' p' + sum_list (map (futex_rank t (mem s)) ps)
        else sum_list (map (futex_rank u (mem s)) (stacks s u)))"
    unfolding futex_measure2_def by (rule sum.cong) (simp_all add: ps other)
  also have "\<dots> < futex_measure2 s"
    unfolding futex_measure2_def
    by (rule sum_strict_mono_ex1) (use less stk in \<open>auto intro!: exI [of _ t]\<close>)
  finally show ?thesis .
qed

lemma futex_quiet_descends:
  assumes r: "reachable (futex_code dbg body l0) (futex_lock_new x0) s"
    and step: "quiet_step (futex_code dbg body l0) s s'" and bm: "body_bounded body bm"
  shows "(s', s) \<in> futex_descent bm l0"
proof -
  from step obtain e where e: "quiet_event e" and "sys_step (futex_code dbg body l0) e s s'"
    by (auto simp: quiet_step_def)
  from this(2) show ?thesis
  proof cases
    case (call t)
    with e show ?thesis by simp
  next
    case (return t p ps)
    then have "futex_budget bm l0 p = 1" by (cases p) simp_all
    with sum_fun_upd [of "\<lambda>_ ps. sum_list (map (futex_budget bm l0) ps)" "stacks s" t ps] return
    show ?thesis by (simp add: futex_descent_def futex_measure_def)
  next
    case (run t p ps c m' p')
    have t: "valid_tid t" using reachable_tid_ok [OF r] run by simp
    have sound: "futex_sound s" by (rule futex_reachable_sound [OF r])
    have stk: "list_all futex_pc_ok (p # ps)" "list_all (\<lambda>p. \<not> futex_sleeping p) ps"
      using futex_sound_stack [OF sound run(3)] by simp_all
    then have ok: "futex_pc_ok p" by simp
    have al: "futex_allowed p c" and q: "quiet c"
      and act: "futex_act dbg body l0 t c (mem s) p = Some (m', p')"
      using run e by simp_all
    have m1: "futex_measure bm l0 s' + futex_budget bm l0 p + flag_budget (mem s) =
        futex_measure bm l0 s + futex_budget bm l0 p' + flag_budget m'"
      using sum_fun_upd [of "\<lambda>_ ps. sum_list (map (futex_budget bm l0) ps)" "stacks s" t "p' # ps"] run(2,3)
      by (simp add: futex_measure_def)
    from futex_quiet_act [OF t al q ok bm act] show ?thesis
    proof
      assume "futex_budget bm l0 p' + flag_budget m' < futex_budget bm l0 p + flag_budget (mem s)"
      with m1 show ?thesis by (simp add: futex_descent_def)
    next
      assume *: "futex_budget bm l0 p' + flag_budget m' = futex_budget bm l0 p + flag_budget (mem s) \<and>
        futex m' = futex (mem s) \<and>
        (sleepers m' = sleepers (mem s) \<or> sleepers m' = insert t (sleepers (mem s))) \<and>
        futex_rank t m' p' < futex_rank t (mem s) p"
      then have "futex_measure2 s' < futex_measure2 s"
        using futex_measure2_run [OF run(3) stk(2)] run(2) by simp
      moreover from * m1 have "futex_measure bm l0 s' = futex_measure bm l0 s" by simp
      ultimately show ?thesis by (simp add: futex_descent_def)
    qed
  qed
qed

end
