(* ===== verification/Futex_Spec.thy ===== *)
theory Futex_Spec
  imports Spec_Simulation Futex_Termination
begin

text \<open>
  \<open>tla/futex.tla\<close>: the procedure \<open>lock_unlock\<close> of the specification of \<open>FutexLock\<close>, action by
  action, and the interpretation of \<open>spec_simulation\<close> that relates it to the code.
\<close>

section \<open>Variables and labels\<close>

text \<open>\<open>Null\<close> is the thread id 0, which no process has.\<close>

record futex_globals =
  f_holder_tid :: tid
  waiters_flag :: bool
  waiters_set :: "tid set"
  is_waiting :: "tid \<Rightarrow> bool"
  f_in_critical_section :: bool

definition futex_globals_init :: futex_globals where
  "futex_globals_init =
     \<lparr>f_holder_tid = 0, waiters_flag = False, waiters_set = {}, is_waiting = (\<lambda>_. False),
      f_in_critical_section = False\<rparr>"

datatype futex_label =
    F_l0 | F_l_cnt | F_l1 | F_l2 | F_l3 | F_l4 | F_l5 | F_w0 | F_w1 | F_l6 | F_l7
  | F_cs | F_u0 | F_u1 | F_u2 | F_u_end

record futex_locals =
  f_pc :: futex_label
  f_got_tid :: tid
  got_flag :: bool

definition futex_locals_init :: futex_locals where
  "futex_locals_init = \<lparr>f_pc = F_l0, f_got_tid = 0, got_flag = False\<rparr>"

section \<open>The actions\<close>

text \<open>\<open>got_tid := holder_tid; got_flag := waiters_flag\<close>, and the comparison of the two pairs.\<close>

definition futex_read :: "futex_globals \<Rightarrow> futex_locals \<Rightarrow> futex_label \<Rightarrow> futex_locals" where
  "futex_read g v l = v\<lparr>f_pc := l, f_got_tid := f_holder_tid g, got_flag := waiters_flag g\<rparr>"

definition futex_unchanged :: "futex_globals \<Rightarrow> futex_locals \<Rightarrow> bool" where
  "futex_unchanged g v \<longleftrightarrow> f_holder_tid g = f_got_tid v \<and> waiters_flag g = got_flag v"

definition futex_spec_wake :: "choice \<Rightarrow> futex_globals \<Rightarrow> futex_globals option" where
  "futex_spec_wake c g =
     (if waiters_set g \<noteq> {} then
        (case c of
           Wakes p \<Rightarrow>
             if p \<in> waiters_set g
             then Some (g\<lparr>waiters_set := waiters_set g - {p}, is_waiting := (is_waiting g)(p := False)\<rparr>)
             else None
         | _ \<Rightarrow> None)
      else Some g)"

definition futex_lock_unlock ::
    "tid \<Rightarrow> choice \<Rightarrow> nat \<Rightarrow> futex_globals \<Rightarrow> futex_locals \<Rightarrow>
     (futex_globals \<times> futex_locals outcome) option" where
  "futex_lock_unlock self c signals g v =
     (case f_pc v of
        F_l0 \<Rightarrow>
          if f_holder_tid g = 0 \<and> \<not> waiters_flag g
          then Some (g\<lparr>f_holder_tid := self\<rparr>, Goto (v\<lparr>f_pc := F_cs\<rparr>))
          else Some (g, Goto (futex_read g v F_l_cnt))
      | F_l_cnt \<Rightarrow> Some (g, Maybe_signal (v\<lparr>f_pc := F_l1\<rparr>))
      | F_l1 \<Rightarrow>
          if f_got_tid v = self then Some (g, if signals > 0 then Err_recursive else Assert_fails)
          else Some (g, Goto (v\<lparr>f_pc := F_l2\<rparr>))
      | F_l2 \<Rightarrow>
          if f_got_tid v = 0
          then if futex_unchanged g v
               then Some (g\<lparr>f_holder_tid := self, waiters_flag := True\<rparr>, Goto (v\<lparr>f_pc := F_cs\<rparr>))
               else Some (g, Goto (futex_read g v F_l_cnt))
          else Some (g, Goto (v\<lparr>f_pc := F_l3\<rparr>))
      | F_l3 \<Rightarrow> Some (g, Maybe_signal (v\<lparr>f_pc := F_l4\<rparr>))
      | F_l4 \<Rightarrow>
          if \<not> got_flag v
          then if futex_unchanged g v
               then Some (g\<lparr>waiters_flag := True\<rparr>, Goto (v\<lparr>f_pc := F_l5, got_flag := True\<rparr>))
               else Some (g, Goto (futex_read g v F_l_cnt))
          else Some (g, Goto (v\<lparr>f_pc := F_l5\<rparr>))
      | F_l5 \<Rightarrow> Some (g, Maybe_signal (v\<lparr>f_pc := F_w0\<rparr>))
      | F_w0 \<Rightarrow>
          if futex_unchanged g v
          then Some (g\<lparr>waiters_set := waiters_set g \<union> {self}, is_waiting := (is_waiting g)(self := True)\<rparr>,
                     Goto (v\<lparr>f_pc := F_w1\<rparr>))
          else Some (g, Goto (v\<lparr>f_pc := F_l6\<rparr>))
      | F_w1 \<Rightarrow> if is_waiting g self then None else Some (g, Goto (v\<lparr>f_pc := F_l6\<rparr>))
      | F_l6 \<Rightarrow> Some (g, Maybe_signal (v\<lparr>f_pc := F_l7\<rparr>))
      | F_l7 \<Rightarrow> Some (g, Goto (futex_read g v F_l_cnt))
      | F_cs \<Rightarrow>
          if f_in_critical_section g then Some (g, Assert_fails)
          else Some (g\<lparr>f_in_critical_section := True\<rparr>, Goto (v\<lparr>f_pc := F_u0\<rparr>))
      | F_u0 \<Rightarrow>
          if f_in_critical_section g
          then Some (g\<lparr>waiters_flag := False, f_holder_tid := 0, f_in_critical_section := False\<rparr>,
                     Goto (futex_read g v F_u1))
          else Some (g, Assert_fails)
      | F_u1 \<Rightarrow> Some (g, Maybe_signal (v\<lparr>f_pc := F_u2\<rparr>))
      | F_u2 \<Rightarrow>
          if got_flag v
          then map_option (\<lambda>g'. (g', Goto (v\<lparr>f_pc := F_u_end\<rparr>))) (futex_spec_wake c g)
          else Some (g, Goto (v\<lparr>f_pc := F_u_end\<rparr>))
      | F_u_end \<Rightarrow> Some (g, Finish))"

definition futex_procedure :: "(futex_globals, futex_locals) procedure" where
  "futex_procedure = \<lparr>entry = futex_locals_init, action = futex_lock_unlock\<rparr>"

lemma futex_procedure_simps [simp]:
  "entry futex_procedure = futex_locals_init" "action futex_procedure = futex_lock_unlock"
  by (simp_all add: futex_procedure_def)

section \<open>The specification's state as a state of the code\<close>

definition futex_word :: "tid \<Rightarrow> bool \<Rightarrow> u32" where
  "futex_word h f = (if f then h OR FUTEX_WAITERS else h)"

definition futex_spec_mem :: "futex_globals \<Rightarrow> unit futex_lock" where
  "futex_spec_mem g =
     \<lparr>item = (), futex = futex_word (f_holder_tid g) (waiters_flag g), sleepers = waiters_set g\<rparr>"

definition futex_spec_pc :: "tid \<Rightarrow> futex_locals \<Rightarrow> unit futex_pc" where
  "futex_spec_pc self v =
     (let w = futex_word (f_got_tid v) (got_flag v) in
      case f_pc v of
        F_l0 \<Rightarrow> RawLock
      | F_l5 \<Rightarrow> FutexWait w
      | F_w0 \<Rightarrow> FutexWait w
      | F_w1 \<Rightarrow> FutexAsleep w
      | F_l6 \<Rightarrow> Reload
      | F_l7 \<Rightarrow> Reload
      | F_cs \<Rightarrow> Guarded ()
      | F_u0 \<Rightarrow> Guarded ()
      | F_u1 \<Rightarrow> (if got_flag v then UnlockWake else Done (Inr ()))
      | F_u2 \<Rightarrow> (if got_flag v then UnlockWake else Done (Inr ()))
      | F_u_end \<Rightarrow> Done (Inr ())
      | _ \<Rightarrow> raw_lock_contended self w)"

abbreviation futex_model :: "bool \<Rightarrow> (unit futex_lock, unit futex_pc) lock_code" where
  "futex_model dbg \<equiv> futex_code dbg no_body ()"

section \<open>Invariants of the variables\<close>

definition tid_or_null :: "tid \<Rightarrow> bool" where
  "tid_or_null h \<longleftrightarrow> h AND FUTEX_TID_MASK = h"

lemma tid_or_null_simps [simp]: "tid_or_null 0" "valid_tid t \<Longrightarrow> tid_or_null t"
  by (simp_all add: tid_or_null_def valid_tid_def)

lemma tid_or_nullD:
  assumes "tid_or_null h"
  shows "h AND FUTEX_TID_MASK = h" and "h AND FUTEX_WAITERS = 0"
  using assms tid_no_flag unfolding tid_or_null_def by blast+

lemma futex_word_tid: "tid_or_null h \<Longrightarrow> futex_word h f AND FUTEX_TID_MASK = h"
  unfolding futex_word_def by (cases f) (simp_all only: if_True if_False or_waiters_owner tid_or_nullD(1))

lemma futex_word_waiters: "tid_or_null h \<Longrightarrow> futex_word h f AND FUTEX_WAITERS = 0 \<longleftrightarrow> \<not> f"
  unfolding futex_word_def
  by (cases f) (simp_all only: if_True if_False or_waiters_flag tid_or_nullD(2) waiters_nonzero simp_thms)

lemma futex_word_free: "tid_or_null h \<Longrightarrow> futex_word h f = 0 \<longleftrightarrow> h = 0 \<and> \<not> f"
  unfolding futex_word_def by (cases f) (simp_all only: if_True if_False or_waiters_nonzero simp_thms)

lemmas futex_word_simps = futex_word_tid futex_word_waiters futex_word_free

lemma futex_word_eq:
  assumes "tid_or_null h" and "tid_or_null h'"
  shows "futex_word h f = futex_word h' f' \<longleftrightarrow> h = h' \<and> f = f'"
proof
  assume eq: "futex_word h f = futex_word h' f'"
  have "h = h'"
    using futex_word_tid [OF assms(1), of f] futex_word_tid [OF assms(2), of f'] unfolding eq by (rule trans [OF sym])
  moreover have "f = f'"
    using futex_word_waiters [OF assms(1), of f] futex_word_waiters [OF assms(2), of f'] unfolding eq by blast
  ultimately show "h = h' \<and> f = f'" ..
qed simp

lemma futex_word_flag: "futex_word h False = h" "futex_word h True = h OR FUTEX_WAITERS"
  by (simp_all add: futex_word_def)

definition futex_globals_ok :: "futex_globals \<Rightarrow> bool" where
  "futex_globals_ok g \<longleftrightarrow>
     tid_or_null (f_holder_tid g) \<and> (f_holder_tid g = 0 \<longrightarrow> \<not> waiters_flag g) \<and>
     (\<forall>t. is_waiting g t \<longleftrightarrow> t \<in> waiters_set g)"

definition futex_locals_ok :: "tid \<Rightarrow> futex_locals \<Rightarrow> bool" where
  "futex_locals_ok self v \<longleftrightarrow>
     (f_pc v \<in> {F_l_cnt, F_l1, F_l2, F_l3, F_l4, F_l5, F_w0, F_w1} \<longrightarrow>
        tid_or_null (f_got_tid v) \<and> f_got_tid v \<noteq> self \<and> (f_got_tid v = 0 \<longrightarrow> \<not> got_flag v)) \<and>
     (f_pc v \<in> {F_l3, F_l4, F_l5, F_w0, F_w1} \<longrightarrow> f_got_tid v \<noteq> 0) \<and>
     (f_pc v \<in> {F_l5, F_w0, F_w1} \<longrightarrow> got_flag v)"

fun futex_label_rank :: "futex_label \<Rightarrow> nat" where
  "futex_label_rank F_l_cnt = 9"
| "futex_label_rank F_l1 = 7"
| "futex_label_rank F_l2 = 6"
| "futex_label_rank F_l3 = 5"
| "futex_label_rank F_l4 = 3"
| "futex_label_rank F_l5 = 2"
| "futex_label_rank F_l6 = 2"
| "futex_label_rank F_cs = 1"
| "futex_label_rank F_u1 = 3"
| "futex_label_rank F_u2 = 1"
| "futex_label_rank _ = 0"

section \<open>Each action is an action of the code\<close>

lemmas futex_view_defs =
  futex_spec_pc_def futex_spec_mem_def futex_read_def futex_unchanged_def futex_locals_ok_def
  futex_globals_ok_def Let_def

text \<open>The branches of the loop head, by what the activation has read.\<close>

lemma contended_word:
  assumes "tid_or_null h" and "h \<noteq> self" and "h = 0 \<longrightarrow> \<not> f"
  shows "raw_lock_contended self (futex_word h f) =
    (if h = 0 then AcquireWithWaiters else if f then FutexWait (futex_word h f) else SetWaiters h)"
  using assms
  by (auto simp: raw_lock_contended_def futex_word_tid futex_word_waiters futex_word_free futex_word_flag(1))

text \<open>
  What \<open>spec_simulation\<close> asks of an action, for this specification. \<open>f_got_tid v\<close> is never the
  process itself, so the branch of \<open>Err(Recursive)\<close> is dead.
\<close>

definition futex_label_step ::
    "bool \<Rightarrow> tid \<Rightarrow> futex_globals \<Rightarrow> futex_locals \<Rightarrow> futex_globals \<Rightarrow> futex_locals \<Rightarrow> bool" where
  "futex_label_step dbg t g v g' v' \<longleftrightarrow>
     futex_spec_mem g' = futex_spec_mem g \<and> futex_spec_pc t v' = futex_spec_pc t v \<and>
       futex_label_rank (f_pc v') < futex_label_rank (f_pc v) \<or>
     (\<exists>e. quiet e \<and> futex_allowed (futex_spec_pc t v) e \<and>
        futex_act dbg no_body () t e (futex_spec_mem g) (futex_spec_pc t v) =
          Some (futex_spec_mem g', futex_spec_pc t v'))"

lemma label_passed:
  assumes "futex_spec_mem g' = futex_spec_mem g" and "futex_spec_pc t v' = futex_spec_pc t v"
    and "futex_label_rank (f_pc v') < futex_label_rank (f_pc v)"
  shows "futex_label_step dbg t g v g' v'"
  using assms by (simp add: futex_label_step_def)

lemma label_run:
  assumes "quiet e" and "futex_allowed (futex_spec_pc t v) e"
    and "futex_act dbg no_body () t e (futex_spec_mem g) (futex_spec_pc t v) =
      Some (futex_spec_mem g', futex_spec_pc t v')"
  shows "futex_label_step dbg t g v g' v'"
  using assms unfolding futex_label_step_def by blast

text \<open>What is known at an action, and what is shown of one that goes on to the next label.\<close>

definition futex_running :: "tid \<Rightarrow> futex_globals \<Rightarrow> futex_locals \<Rightarrow> bool" where
  "futex_running t g v \<longleftrightarrow> valid_tid t \<and> futex_globals_ok g \<and> futex_locals_ok t v \<and>
     (f_holder_tid g = t \<longleftrightarrow> futex_holds (futex_spec_pc t v)) \<and>
     (futex_holds (futex_spec_pc t v) \<longrightarrow> f_in_critical_section g = (f_pc v = F_u0))"

definition futex_goto_ok ::
    "bool \<Rightarrow> tid \<Rightarrow> futex_globals \<Rightarrow> futex_locals \<Rightarrow> futex_globals \<Rightarrow> futex_locals \<Rightarrow> bool" where
  "futex_goto_ok dbg t g v g' v' \<longleftrightarrow> futex_globals_ok g' \<and> futex_locals_ok t v' \<and>
     (f_in_critical_section g' \<longleftrightarrow> f_pc v' = F_u0 \<or> f_pc v \<noteq> F_u0 \<and> f_in_critical_section g) \<and>
     futex_label_step dbg t g v g' v'"

lemmas futex_goto_defs = futex_goto_ok_def futex_view_defs

lemma futex_runningD:
  assumes "futex_running t g v"
  shows "valid_tid t" and "t \<noteq> 0" and "futex_globals_ok g" and "futex_locals_ok t v"
    and "f_holder_tid g = t \<longleftrightarrow> futex_holds (futex_spec_pc t v)"
    and "tid_or_null (f_holder_tid g)" and "f_holder_tid g = 0 \<longrightarrow> \<not> waiters_flag g"
  using assms by (simp_all add: futex_running_def valid_tid_def futex_globals_ok_def)

lemma futex_goto_l0:
  assumes run: "futex_running t g v" and pc: "f_pc v = F_l0"
    and act: "futex_lock_unlock t c n g v = Some (g', Goto v')"
  shows "futex_goto_ok dbg t g v g' v'"
proof -
  note t = futex_runningD(1) [OF run] and t0 = futex_runningD(2) [OF run]
    and g = futex_runningD(3) [OF run] and v = futex_runningD(4) [OF run]
    and own = futex_runningD(5) [OF run] and h = futex_runningD(6,7) [OF run]
  show ?thesis
  proof (cases "f_holder_tid g = 0 \<and> \<not> waiters_flag g")
    case True
    with pc act have eq: "g' = g\<lparr>f_holder_tid := t\<rparr>" "v' = v\<lparr>f_pc := F_cs\<rparr>"
      by (auto simp: futex_lock_unlock_def)
    have "futex_label_step dbg t g v g' v'"
      by (rule label_run [of Normal]) (use pc eq True in \<open>simp_all add: futex_view_defs futex_defs futex_word_flag\<close>)
    with pc g v t t0 eq True show ?thesis by (simp add: futex_goto_defs)
  next
    case False
    with pc act have eq: "g' = g" "v' = futex_read g v F_l_cnt"
      by (auto simp: futex_lock_unlock_def)
    have "futex_label_step dbg t g v g' v'"
      by (rule label_run [of Normal])
        (use pc eq False h in \<open>simp_all add: futex_view_defs raw_lock_def compare_exchange_weak_def futex_word_free\<close>)
    with pc g v own eq show ?thesis by (auto simp: futex_goto_defs)
  qed
qed

lemma futex_goto_l1:
  assumes run: "futex_running t g v" and pc: "f_pc v = F_l1"
    and act: "futex_lock_unlock t c n g v = Some (g', Goto v')"
  shows "futex_goto_ok dbg t g v g' v'"
proof -
  note t = futex_runningD(1) [OF run] and t0 = futex_runningD(2) [OF run]
    and g = futex_runningD(3) [OF run] and v = futex_runningD(4) [OF run]
    and own = futex_runningD(5) [OF run] and h = futex_runningD(6,7) [OF run]
  from pc act have "g' = g" "v' = v\<lparr>f_pc := F_l2\<rparr>"
    by (auto simp: futex_lock_unlock_def split: if_splits)
  with pc g v show ?thesis
    by (auto simp: futex_goto_defs intro!: label_passed)
qed

lemma futex_goto_l2:
  assumes run: "futex_running t g v" and pc: "f_pc v = F_l2"
    and act: "futex_lock_unlock t c n g v = Some (g', Goto v')"
  shows "futex_goto_ok dbg t g v g' v'"
proof -
  note t = futex_runningD(1) [OF run] and t0 = futex_runningD(2) [OF run]
    and g = futex_runningD(3) [OF run] and v = futex_runningD(4) [OF run]
    and own = futex_runningD(5) [OF run] and h = futex_runningD(6,7) [OF run]
  from pc have w: "tid_or_null (f_got_tid v)" "f_got_tid v \<noteq> t" "f_got_tid v = 0 \<longrightarrow> \<not> got_flag v"
    using v by (simp_all add: futex_locals_ok_def)
  consider (held) "f_got_tid v \<noteq> 0" | (acquired) "f_got_tid v = 0" "futex_unchanged g v"
    | (changed) "f_got_tid v = 0" "\<not> futex_unchanged g v" by blast
  then show ?thesis
  proof cases
    case held
    with pc act have eq: "g' = g" "v' = v\<lparr>f_pc := F_l3\<rparr>" by (auto simp: futex_lock_unlock_def)
    have "futex_label_step dbg t g v g' v'"
      by (rule label_passed) (use pc eq in \<open>simp_all add: futex_view_defs\<close>)
    with pc g w held eq show ?thesis by (simp add: futex_goto_defs)
  next
    case acquired
    with pc act have eq: "g' = g\<lparr>f_holder_tid := t, waiters_flag := True\<rparr>" "v' = v\<lparr>f_pc := F_cs\<rparr>"
      by (auto simp: futex_lock_unlock_def)
    have "futex_label_step dbg t g v g' v'"
      by (rule label_run [of Normal])
        (use pc eq acquired w t0 in \<open>simp_all add: futex_view_defs contended_word acquire_with_waiters_def
          compare_exchange_weak_def futex_word_free futex_word_flag raw_lock_contended_def\<close>)
    with pc g t t0 eq show ?thesis by (simp add: futex_goto_defs)
  next
    case changed
    with pc act have eq: "g' = g" "v' = futex_read g v F_l_cnt" by (auto simp: futex_lock_unlock_def)
    have "futex_label_step dbg t g v g' v'"
      by (rule label_run [of Normal])
        (use pc eq changed w h t0 in \<open>auto simp: futex_view_defs contended_word acquire_with_waiters_def
          compare_exchange_weak_def futex_word_free\<close>)
    with pc g own w t0 eq show ?thesis by (auto simp: futex_goto_defs contended_word)
  qed
qed

lemma futex_goto_l4:
  assumes run: "futex_running t g v" and pc: "f_pc v = F_l4"
    and act: "futex_lock_unlock t c n g v = Some (g', Goto v')"
  shows "futex_goto_ok dbg t g v g' v'"
proof -
  note t = futex_runningD(1) [OF run] and t0 = futex_runningD(2) [OF run]
    and g = futex_runningD(3) [OF run] and v = futex_runningD(4) [OF run]
    and own = futex_runningD(5) [OF run] and h = futex_runningD(6,7) [OF run]
  from pc have w: "tid_or_null (f_got_tid v)" "f_got_tid v \<noteq> t" "f_got_tid v \<noteq> 0"
    using v by (simp_all add: futex_locals_ok_def)
  consider (flagged) "got_flag v" | (set) "\<not> got_flag v" "futex_unchanged g v"
    | (changed) "\<not> got_flag v" "\<not> futex_unchanged g v" by blast
  then show ?thesis
  proof cases
    case flagged
    with pc act have eq: "g' = g" "v' = v\<lparr>f_pc := F_l5\<rparr>" by (auto simp: futex_lock_unlock_def)
    have "futex_label_step dbg t g v g' v'"
      by (rule label_passed) (use pc eq flagged w in \<open>simp_all add: futex_view_defs contended_word\<close>)
    with pc g w flagged eq show ?thesis by (simp add: futex_goto_defs)
  next
    case set
    with pc act have eq: "g' = g\<lparr>waiters_flag := True\<rparr>" "v' = v\<lparr>f_pc := F_l5, got_flag := True\<rparr>"
      by (auto simp: futex_lock_unlock_def)
    have "futex_spec_pc t v = SetWaiters (f_got_tid v)"
      using pc set(1) w by (simp add: futex_spec_pc_def Let_def contended_word)
    then have "futex_label_step dbg t g v g' v'"
      by (intro label_run [of Normal])
        (use eq set in \<open>simp_all add: futex_view_defs set_waiters_def compare_exchange_weak_def futex_word_flag\<close>)
    with pc g w set eq show ?thesis by (simp add: futex_goto_defs)
  next
    case changed
    with pc act have eq: "g' = g" "v' = futex_read g v F_l_cnt" by (auto simp: futex_lock_unlock_def)
    from changed h(1) w(1) have "futex_word (f_holder_tid g) (waiters_flag g) \<noteq> futex_word (f_got_tid v) (got_flag v)"
      by (simp add: futex_word_eq futex_unchanged_def)
    moreover have "futex_spec_pc t v = SetWaiters (f_got_tid v)"
      using pc changed(1) w by (simp add: futex_spec_pc_def Let_def contended_word)
    ultimately have "futex_label_step dbg t g v g' v'"
      by (intro label_run [of Normal])
        (use eq changed(1) in \<open>simp_all add: futex_spec_pc_def futex_spec_mem_def futex_read_def Let_def
          set_waiters_def compare_exchange_weak_def futex_word_flag(1)\<close>)
    with pc g own w changed(1) eq show ?thesis by (auto simp: futex_goto_defs contended_word)
  qed
qed

lemma futex_goto_w0:
  assumes run: "futex_running t g v" and pc: "f_pc v = F_w0"
    and act: "futex_lock_unlock t c n g v = Some (g', Goto v')"
  shows "futex_goto_ok dbg t g v g' v'"
proof -
  note t = futex_runningD(1) [OF run] and t0 = futex_runningD(2) [OF run]
    and g = futex_runningD(3) [OF run] and v = futex_runningD(4) [OF run]
    and own = futex_runningD(5) [OF run] and h = futex_runningD(6,7) [OF run]
  from pc have w: "tid_or_null (f_got_tid v)" using v by (simp add: futex_locals_ok_def)
  show ?thesis
  proof (cases "futex_unchanged g v")
    case True
    with pc act have eq: "v' = v\<lparr>f_pc := F_w1\<rparr>"
      "g' = g\<lparr>waiters_set := waiters_set g \<union> {t}, is_waiting := (is_waiting g)(t := True)\<rparr>"
      by (auto simp: futex_lock_unlock_def)
    have "futex_label_step dbg t g v g' v'"
      by (rule label_run [of Normal]) (use pc eq True in \<open>simp_all add: futex_view_defs futex_wait_def\<close>)
    with pc g v eq show ?thesis by (simp add: futex_goto_defs)
  next
    case False
    with pc act have eq: "g' = g" "v' = v\<lparr>f_pc := F_l6\<rparr>" by (auto simp: futex_lock_unlock_def)
    from False h(1) w have "futex_word (f_holder_tid g) (waiters_flag g) \<noteq> futex_word (f_got_tid v) (got_flag v)"
      by (simp add: futex_word_eq futex_unchanged_def)
    then have "futex_label_step dbg t g v g' v'"
      by (intro label_run [of Normal])
        (use pc eq in \<open>simp_all add: futex_spec_pc_def futex_spec_mem_def Let_def futex_wait_def wait_failed_def\<close>)
    with pc g eq show ?thesis by (simp add: futex_goto_defs)
  qed
qed

lemma futex_goto_w1:
  assumes run: "futex_running t g v" and pc: "f_pc v = F_w1"
    and act: "futex_lock_unlock t c n g v = Some (g', Goto v')"
  shows "futex_goto_ok dbg t g v g' v'"
proof -
  note t = futex_runningD(1) [OF run] and t0 = futex_runningD(2) [OF run]
    and g = futex_runningD(3) [OF run] and v = futex_runningD(4) [OF run]
    and own = futex_runningD(5) [OF run] and h = futex_runningD(6,7) [OF run]
  from pc act have eq: "\<not> is_waiting g t" "g' = g" "v' = v\<lparr>f_pc := F_l6\<rparr>"
    by (auto simp: futex_lock_unlock_def split: if_splits)
  have "futex_label_step dbg t g v g' v'"
    by (rule label_run [of Normal])
      (use pc eq g in \<open>simp_all add: futex_view_defs futex_asleep_def\<close>)
  with pc g eq show ?thesis by (simp add: futex_goto_defs)
qed

lemma futex_goto_l7:
  assumes run: "futex_running t g v" and pc: "f_pc v = F_l7"
    and act: "futex_lock_unlock t c n g v = Some (g', Goto v')"
  shows "futex_goto_ok dbg t g v g' v'"
proof -
  note t = futex_runningD(1) [OF run] and t0 = futex_runningD(2) [OF run]
    and g = futex_runningD(3) [OF run] and v = futex_runningD(4) [OF run]
    and own = futex_runningD(5) [OF run] and h = futex_runningD(6,7) [OF run]
  from pc act have eq: "g' = g" "v' = futex_read g v F_l_cnt" by (auto simp: futex_lock_unlock_def)
  have "futex_label_step dbg t g v g' v'"
    by (rule label_run [of Normal]) (use pc eq in \<open>simp_all add: futex_view_defs reload_def\<close>)
  with pc g own eq show ?thesis by (auto simp: futex_goto_defs)
qed

lemma futex_goto_cs:
  assumes run: "futex_running t g v" and pc: "f_pc v = F_cs"
    and act: "futex_lock_unlock t c n g v = Some (g', Goto v')"
  shows "futex_goto_ok dbg t g v g' v'"
proof -
  note t = futex_runningD(1) [OF run] and t0 = futex_runningD(2) [OF run]
    and g = futex_runningD(3) [OF run] and v = futex_runningD(4) [OF run]
    and own = futex_runningD(5) [OF run] and h = futex_runningD(6,7) [OF run]
  from pc act have eq: "g' = g\<lparr>f_in_critical_section := True\<rparr>" "v' = v\<lparr>f_pc := F_u0\<rparr>"
    by (auto simp: futex_lock_unlock_def split: if_splits)
  have "futex_label_step dbg t g v g' v'"
    by (rule label_passed) (use pc eq in \<open>simp_all add: futex_view_defs\<close>)
  with pc g eq show ?thesis by (simp add: futex_goto_defs)
qed

lemma futex_goto_u0:
  assumes run: "futex_running t g v" and pc: "f_pc v = F_u0"
    and act: "futex_lock_unlock t c n g v = Some (g', Goto v')"
  shows "futex_goto_ok dbg t g v g' v'"
proof -
  note t = futex_runningD(1) [OF run] and t0 = futex_runningD(2) [OF run]
    and g = futex_runningD(3) [OF run] and v = futex_runningD(4) [OF run]
    and own = futex_runningD(5) [OF run] and h = futex_runningD(6,7) [OF run]
  from pc act have eq: "v' = futex_read g v F_u1"
    "g' = g\<lparr>waiters_flag := False, f_holder_tid := 0, f_in_critical_section := False\<rparr>"
    by (auto simp: futex_lock_unlock_def split: if_splits)
  have ht: "f_holder_tid g = t" using own pc by (simp add: futex_spec_pc_def)
  have "t OR FUTEX_WAITERS \<noteq> t" using t by (intro or_waiters_neq tid_no_flag) (simp add: valid_tid_def)
  then have "futex_label_step dbg t g v g' v'"
    by (intro label_run [of Normal])
      (use pc eq ht t h(1) in \<open>auto simp: futex_view_defs guarded_def no_body_def raw_unlock_def
        futex_word_tid futex_word_def valid_tid_def\<close>)
  with pc g eq show ?thesis by (simp add: futex_goto_defs)
qed

lemma futex_goto_u2:
  assumes run: "futex_running t g v" and pc: "f_pc v = F_u2"
    and act: "futex_lock_unlock t c n g v = Some (g', Goto v')"
  shows "futex_goto_ok dbg t g v g' v'"
proof -
  note t = futex_runningD(1) [OF run] and t0 = futex_runningD(2) [OF run]
    and g = futex_runningD(3) [OF run] and v = futex_runningD(4) [OF run]
    and own = futex_runningD(5) [OF run] and h = futex_runningD(6,7) [OF run]
  show ?thesis
  proof (cases "got_flag v")
    case False
    with pc act have eq: "g' = g" "v' = v\<lparr>f_pc := F_u_end\<rparr>" by (auto simp: futex_lock_unlock_def)
    have "futex_label_step dbg t g v g' v'"
      by (rule label_passed) (use pc eq False in \<open>simp_all add: futex_view_defs\<close>)
    with pc g eq show ?thesis by (simp add: futex_goto_defs)
  next
    case True
    with pc act have v': "v' = v\<lparr>f_pc := F_u_end\<rparr>" and wake: "futex_spec_wake c g = Some g'"
      by (auto simp: futex_lock_unlock_def)
    from wake consider (none) "waiters_set g = {}" "g' = g"
      | (one) p where "p \<in> waiters_set g"
        "g' = g\<lparr>waiters_set := waiters_set g - {p}, is_waiting := (is_waiting g)(p := False)\<rparr>"
      by (auto simp: futex_spec_wake_def split: if_splits choice.splits)
    then show ?thesis
    proof cases
      case none
      have "futex_label_step dbg t g v g' v'"
        by (rule label_run [of Normal])
          (use pc v' True none in \<open>simp_all add: futex_view_defs wake_one_def\<close>)
      with pc g v' none show ?thesis by (simp add: futex_goto_defs)
    next
      case one
      have "futex_label_step dbg t g v g' v'"
        by (rule label_run [of "Wake p"])
          (use pc v' True one in \<open>simp_all add: futex_view_defs wake_one_def\<close>)
      with pc g v' one show ?thesis by (simp add: futex_goto_defs)
    qed
  qed
qed

lemma futex_goto_sim:
  assumes run: "futex_running t g v"
    and act: "futex_lock_unlock t c n g v = Some (g', Goto v')"
  shows "futex_goto_ok dbg t g v g' v'"
proof (cases "f_pc v")
  case F_l0
  then show ?thesis by (rule futex_goto_l0 [OF run _ act])
next
  case F_l1
  then show ?thesis by (rule futex_goto_l1 [OF run _ act])
next
  case F_l2
  then show ?thesis by (rule futex_goto_l2 [OF run _ act])
next
  case F_l4
  then show ?thesis by (rule futex_goto_l4 [OF run _ act])
next
  case F_w0
  then show ?thesis by (rule futex_goto_w0 [OF run _ act])
next
  case F_w1
  then show ?thesis by (rule futex_goto_w1 [OF run _ act])
next
  case F_l7
  then show ?thesis by (rule futex_goto_l7 [OF run _ act])
next
  case F_cs
  then show ?thesis by (rule futex_goto_cs [OF run _ act])
next
  case F_u0
  then show ?thesis by (rule futex_goto_u0 [OF run _ act])
next
  case F_u2
  then show ?thesis by (rule futex_goto_u2 [OF run _ act])
qed (use act in \<open>simp_all add: futex_lock_unlock_def\<close>)

text \<open>The other outcomes.\<close>

lemma contended_not_sleeping: "\<not> futex_sleeping (raw_lock_contended t w)"
  by (simp add: raw_lock_contended_def)

lemma futex_maybe_labels:
  assumes "futex_lock_unlock t c n g v = Some (g', Maybe_signal v')"
  shows "g' = g \<and> (f_pc v = F_l_cnt \<and> v' = v\<lparr>f_pc := F_l1\<rparr> \<or> f_pc v = F_l3 \<and> v' = v\<lparr>f_pc := F_l4\<rparr> \<or>
    f_pc v = F_l5 \<and> v' = v\<lparr>f_pc := F_w0\<rparr> \<or> f_pc v = F_l6 \<and> v' = v\<lparr>f_pc := F_l7\<rparr> \<or>
    f_pc v = F_u1 \<and> v' = v\<lparr>f_pc := F_u2\<rparr>)"
  using assms by (cases "f_pc v") (auto simp: futex_lock_unlock_def split: if_splits)

lemma futex_maybe_sim:
  assumes "futex_lock_unlock t c n g v = Some (g', Maybe_signal v')" and "futex_locals_ok t v"
  shows "g' = g \<and> futex_locals_ok t v' \<and> futex_spec_pc t v' = futex_spec_pc t v \<and>
    \<not> futex_holds (futex_spec_pc t v) \<and> \<not> futex_sleeping (futex_spec_pc t v) \<and>
    futex_label_rank (f_pc v') + 2 \<le> futex_label_rank (f_pc v)"
  using futex_maybe_labels [OF assms(1)] assms(2)
  by (elim conjE disjE) (simp_all add: futex_locals_ok_def futex_spec_pc_def Let_def contended_not_sleeping)

lemma futex_end_sim:
  assumes "futex_running t g v" and "futex_lock_unlock t c n g v = Some (g', out)"
  shows "out \<noteq> Err_recursive" and "out \<noteq> Assert_fails"
    and "out = Finish \<Longrightarrow> g' = g \<and> futex_finished (futex_spec_pc t v)"
  using assms
  by (cases "f_pc v"; auto simp: futex_running_def futex_lock_unlock_def futex_locals_ok_def
      futex_spec_pc_def split: if_splits)+

lemma futex_spec_progress:
  assumes "futex_globals_ok g" and "\<not> futex_waiting t (futex_spec_mem g) (futex_spec_pc t v)"
  shows "\<exists>c. c \<noteq> Interrupt \<and> futex_lock_unlock t c n g v \<noteq> None"
proof (cases "f_pc v = F_u2 \<and> got_flag v \<and> waiters_set g \<noteq> {}")
  case True
  then obtain p where "p \<in> waiters_set g" by blast
  with True show ?thesis
    by (intro exI [of _ "Wakes p"]) (simp add: futex_lock_unlock_def futex_spec_wake_def)
next
  case False
  have "futex_lock_unlock t Skip n g v \<noteq> None"
  proof (cases "f_pc v")
    case F_w1
    with assms have "\<not> is_waiting g t"
      by (simp add: futex_globals_ok_def futex_waiting_def futex_spec_mem_def futex_spec_pc_def Let_def)
    with F_w1 show ?thesis by (simp add: futex_lock_unlock_def)
  next
    case F_u2
    with False show ?thesis by (simp add: futex_lock_unlock_def futex_spec_wake_def)
  qed (simp_all add: futex_lock_unlock_def)
  then show ?thesis by blast
qed

section \<open>The interpretation\<close>

lemma futex_action_sim:
  assumes r: "reachable (futex_model dbg) (futex_lock_new ()) s" and m: "mem s = futex_spec_mem g"
    and stk: "stacks s t = futex_spec_pc t v # ps"
    and own: "futex_owner (futex_spec_mem g) = t \<longrightarrow> futex_holds (futex_spec_pc t v)"
    and cs: "futex_holds (futex_spec_pc t v) \<longrightarrow> f_in_critical_section g = (f_pc v = F_u0)"
    and ok: "futex_globals_ok g" "futex_locals_ok t v"
  shows "futex_running t g v"
proof -
  have "tid_or_null (f_holder_tid g)" using ok(1) by (simp add: futex_globals_ok_def)
  then have word: "futex_owner (futex_spec_mem g) = f_holder_tid g"
    by (simp add: futex_owner_def futex_spec_mem_def futex_word_tid)
  have "valid_tid t" using reachable_tid_ok [OF r] stk by fastforce
  moreover have "f_holder_tid g = t" if "futex_holds (futex_spec_pc t v)"
    using owner_inv_holds [OF futex.reachable_owner_inv [OF r], of "futex_spec_pc t v" t] stk that m word by simp
  ultimately show ?thesis
    using own cs ok word unfolding futex_running_def by blast
qed

interpretation futex_spec: spec_termination "futex_model dbg" "futex_lock_new ()" futex_owner futex_lock.item
    futex_holds futex_contends futex_recursive futex_sound futex_waiting futex_resp futex_waiting
    futex_pend futex_procedure futex_globals_init futex_spec_mem futex_spec_pc
    "\<lambda>v. futex_label_rank (f_pc v)" futex_globals_ok futex_locals_ok f_in_critical_section
    "\<lambda>v. f_pc v = F_u0" "futex_descent (\<lambda>_. 0) ()" for dbg
proof (unfold_locales, goal_cases)
  case 1
  show ?case by (simp add: futex_spec_mem_def futex_globals_init_def futex_lock_new_def futex_word_flag)
next
  case 2
  show ?case by (simp add: futex_globals_init_def futex_globals_ok_def)
next
  case 3
  show ?case by (simp add: futex_globals_init_def)
next
  case (4 t)
  show ?case by (simp add: futex_spec_pc_def futex_locals_init_def)
next
  case (5 t)
  show ?case by (simp add: futex_locals_ok_def futex_locals_init_def)
next
  case (6 v t)
  then show ?case by (simp add: futex_spec_pc_def)
next
  case (7 s g t v ps c d g' out)
  note run = futex_action_sim [OF 7(1-7)]
  note act = 7(8) [simplified]
  show ?case
  proof (cases out)
    case (Goto v')
    with futex_goto_sim [OF run, of c d g' v' dbg] act show ?thesis
      by (simp add: futex_goto_ok_def futex_label_step_def)
  next
    case (Maybe_signal v')
    with futex_maybe_sim [of t c d g v g' v'] act 7(6,7) show ?thesis by simp
  qed (use futex_end_sim [OF run act] 7(6) in simp_all)
next
  case (8 s g t v ps d)
  then show ?case using futex_spec_progress by simp
next
  case 9
  show ?case by (simp add: futex_descent_def)
next
  case (10 s s')
  then show ?case by (rule futex_quiet_descends) (rule no_body_bounded)
qed

end
