(* ===== verification/Pipe_Lock.thy ===== *)
theory Pipe_Lock
  imports Lock_Progress
begin

text \<open>
  \<open>PipeLock\<close> (\<open>signal_lock/src/pipe.rs\<close>). The owner's thread id and the number of contenders are
  two atomics; a contender blocks in \<open>read\<close> on a pipe, an unlocking thread that sees contenders
  writes a byte. The interleaving is sequentially consistent; that the fences of the source make the
  two relevant accesses behave so is the subject of theory Pipe\_Fences.
\<close>

section \<open>Creating the lock\<close>

text \<open>
  \<open>pipe\<close>, with the results of the system calls \<open>pipe2\<close> and \<open>fcntl\<close> as parameters, on the set
  of open file descriptors. An \<open>Fd\<close> that goes out of scope is closed (\<open>Drop for Fd\<close>).
\<close>

datatype pipe_new_error = PipeFailed errno | FcntlFailed errno

definition drop_fd :: "int \<Rightarrow> int set \<Rightarrow> int set" where
  "drop_fd fd fds = fds - {fd}"

definition pipe ::
    "(int set \<Rightarrow> errno + int \<times> int) \<Rightarrow> (int \<Rightarrow> errno option) \<Rightarrow> int set \<Rightarrow>
     (pipe_new_error + int \<times> int) \<times> int set" where
  "pipe pipe2 fcntl fds =
     (case pipe2 fds of
        Inl e \<Rightarrow> (Inl (PipeFailed e), fds)
      | Inr (reader, writer) \<Rightarrow>
          let fds' = insert reader (insert writer fds) in
          (case fcntl writer of
             Some e \<Rightarrow> (Inl (FcntlFailed e), drop_fd writer (drop_fd reader fds'))
           | None \<Rightarrow> (Inr (reader, writer), fds')))"

text \<open>
  The fields of \<open>PipeLock\<close>, and the number of bytes in the pipe.
\<close>

record 'a pipe_lock =
  item :: 'a
  holder_tid :: u32
  waiters :: u32
  pipe_bytes :: nat

record pipe_fds =
  reader :: int
  writer :: int

definition pipe_lock_init :: "'a \<Rightarrow> 'a pipe_lock" where
  "pipe_lock_init x = \<lparr>item = x, holder_tid = 0, waiters = 0, pipe_bytes = 0\<rparr>"

definition pipe_lock_new ::
    "(int set \<Rightarrow> errno + int \<times> int) \<Rightarrow> (int \<Rightarrow> errno option) \<Rightarrow> 'a \<Rightarrow> int set \<Rightarrow>
     (pipe_new_error + 'a pipe_lock \<times> pipe_fds) \<times> int set" where
  "pipe_lock_new pipe2 fcntl x fds =
     (case pipe pipe2 fcntl fds of
        (Inl e, fds') \<Rightarrow> (Inl e, fds')
      | (Inr (r, w), fds') \<Rightarrow>
          (Inr (pipe_lock_init x, \<lparr>reader = r, writer = w\<rparr>), fds'))"

section \<open>Program points\<close>

datatype pipe_abort =
    ReadFailed errno
  | WriterClosed
  | WriteFailed errno
  | NotHeldByThread tid tid

text \<open>
  \<open>Guarded l contended\<close> is the critical section; \<open>Deregister\<close>, \<open>DeregisterRecursive\<close> and
  \<open>DeregisterAbort\<close> are the three decrements of \<open>waiters\<close> in \<open>lock_contended\<close>.
\<close>

datatype 'l pipe_pc =
    TryLock
  | Register
  | AcquireLoop
  | Deregister
  | DeregisterRecursive
  | DeregisterAbort errno
  | ReadByte
  | Guarded 'l bool
  | CheckWaiters bool
  | WriteByte
  | Done "signal_lock_error + unit"
  | Aborted pipe_abort

section \<open>The operations\<close>

text \<open>\<open>lock\<close>, with the first test of \<open>lock_contended\<close> on the value found.\<close>

definition lock_contended :: "tid \<Rightarrow> tid \<Rightarrow> 'l pipe_pc" where
  "lock_contended t holder = (if holder = t then Done (Inl Recursive) else Register)"

definition try_lock :: "'l \<Rightarrow> tid \<Rightarrow> env \<Rightarrow> 'a pipe_lock \<Rightarrow> 'a pipe_lock \<times> 'l pipe_pc" where
  "try_lock l0 t c m =
     (case compare_exchange_weak c 0 t (holder_tid m) of
        (Inr prev, h) \<Rightarrow> (m\<lparr>holder_tid := h\<rparr>, Guarded l0 False)
      | (Inl holder, h) \<Rightarrow> (m\<lparr>holder_tid := h\<rparr>, lock_contended t holder))"

definition register :: "'a pipe_lock \<Rightarrow> 'a pipe_lock \<times> 'l pipe_pc" where
  "register m = (m\<lparr>waiters := waiters m + 1\<rparr>, AcquireLoop)"

text \<open>One iteration of the loop up to the call of \<open>read\<close>.\<close>

definition acquire_loop :: "tid \<Rightarrow> env \<Rightarrow> 'a pipe_lock \<Rightarrow> 'a pipe_lock \<times> 'l pipe_pc" where
  "acquire_loop t c m =
     (case compare_exchange_weak c 0 t (holder_tid m) of
        (Inr prev, h) \<Rightarrow> (m\<lparr>holder_tid := h\<rparr>, Deregister)
      | (Inl holder, h) \<Rightarrow>
          (m\<lparr>holder_tid := h\<rparr>,
           if holder = t then DeregisterRecursive
           else if holder = 0 then AcquireLoop
           else ReadByte))"

definition deregister :: "'l pipe_pc \<Rightarrow> 'a pipe_lock \<Rightarrow> 'a pipe_lock \<times> 'l pipe_pc" where
  "deregister p m = (m\<lparr>waiters := waiters m - 1\<rparr>, p)"

text \<open>
  \<open>read\<close> of one byte blocks while the pipe is empty; what the loop does with its result: a byte
  or \<open>EINTR\<close> and the loop goes on, another error or the end of file and the process aborts.
\<close>

definition read_byte :: "env \<Rightarrow> 'a pipe_lock \<Rightarrow> ('a pipe_lock \<times> 'l pipe_pc) option" where
  "read_byte c m =
     (case c of
        Fail e \<Rightarrow> Some (m, if e \<noteq> EINTR then DeregisterAbort e else AcquireLoop)
      | Eof \<Rightarrow> Some (m, Aborted WriterClosed)
      | _ \<Rightarrow> if pipe_bytes m = 0 then None
             else Some (m\<lparr>pipe_bytes := pipe_bytes m - 1\<rparr>, AcquireLoop))"

text \<open>\<open>unlock\<close> up to the check for contenders, which \<open>contended\<close> short-circuits.\<close>

definition unlock :: "bool \<Rightarrow> tid \<Rightarrow> bool \<Rightarrow> 'a pipe_lock \<Rightarrow> 'a pipe_lock \<times> 'l pipe_pc" where
  "unlock dbg t contended m =
     (let holder = holder_tid m; m' = m\<lparr>holder_tid := 0\<rparr> in
      (m', if dbg \<and> t \<noteq> holder then Aborted (NotHeldByThread t holder) else CheckWaiters contended))"

definition check_waiters :: "bool \<Rightarrow> 'a pipe_lock \<Rightarrow> 'a pipe_lock \<times> 'l pipe_pc" where
  "check_waiters contended m =
     (m, if contended \<or> 0 < waiters m then WriteByte else Done (Inr ()))"

text \<open>
  \<open>unlock_contended\<close>: the non-blocking \<open>write\<close> of one byte fails with \<open>EAGAIN\<close> when the pipe of
  \<open>cap\<close> bytes is full, which is ignored.
\<close>

definition write_failed :: "errno \<Rightarrow> 'l pipe_pc" where
  "write_failed e =
     (if e = EINTR then WriteByte
      else if \<not> (e = EAGAIN \<or> e = EWOULDBLOCK) then Aborted (WriteFailed e)
      else Done (Inr ()))"

definition unlock_contended :: "nat \<Rightarrow> env \<Rightarrow> 'a pipe_lock \<Rightarrow> 'a pipe_lock \<times> 'l pipe_pc" where
  "unlock_contended cap c m =
     (case c of
        Fail e \<Rightarrow> (m, write_failed e)
      | _ \<Rightarrow> if pipe_bytes m < cap then (m\<lparr>pipe_bytes := Suc (pipe_bytes m)\<rparr>, Done (Inr ()))
             else (m, write_failed EAGAIN))"

text \<open>The critical section accesses the item through the guard; its end drops the guard.\<close>

definition guarded ::
    "bool \<Rightarrow> ('l \<Rightarrow> 'a \<Rightarrow> ('l \<times> 'a) option) \<Rightarrow> tid \<Rightarrow> 'l \<Rightarrow> bool \<Rightarrow> 'a pipe_lock \<Rightarrow>
     'a pipe_lock \<times> 'l pipe_pc" where
  "guarded dbg body t l contended m =
     (case body l (item m) of
        Some (l', x) \<Rightarrow> (m\<lparr>item := x\<rparr>, Guarded l' contended)
      | None \<Rightarrow> unlock dbg t contended m)"

fun pipe_act ::
    "bool \<Rightarrow> nat \<Rightarrow> ('l \<Rightarrow> 'a \<Rightarrow> ('l \<times> 'a) option) \<Rightarrow> 'l \<Rightarrow> tid \<Rightarrow> env \<Rightarrow> 'a pipe_lock \<Rightarrow>
     'l pipe_pc \<Rightarrow> ('a pipe_lock \<times> 'l pipe_pc) option" where
  "pipe_act dbg cap body l0 t c m TryLock = Some (try_lock l0 t c m)"
| "pipe_act dbg cap body l0 t c m Register = Some (register m)"
| "pipe_act dbg cap body l0 t c m AcquireLoop = Some (acquire_loop t c m)"
| "pipe_act dbg cap body l0 t c m Deregister = Some (deregister (Guarded l0 True) m)"
| "pipe_act dbg cap body l0 t c m DeregisterRecursive = Some (deregister (Done (Inl Recursive)) m)"
| "pipe_act dbg cap body l0 t c m (DeregisterAbort e) = Some (deregister (Aborted (ReadFailed e)) m)"
| "pipe_act dbg cap body l0 t c m ReadByte = read_byte c m"
| "pipe_act dbg cap body l0 t c m (Guarded l cont) = Some (guarded dbg body t l cont m)"
| "pipe_act dbg cap body l0 t c m (CheckWaiters cont) = Some (check_waiters cont m)"
| "pipe_act dbg cap body l0 t c m WriteByte = Some (unlock_contended cap c m)"
| "pipe_act dbg cap body l0 t c m (Done r) = None"
| "pipe_act dbg cap body l0 t c m (Aborted a) = None"

text \<open>
  The documented answers: a blocking \<open>read\<close> and a non-blocking \<open>write\<close> of one byte on a pipe whose
  other end is open can be interrupted, and \<open>write\<close> fails with \<open>EAGAIN\<close> only when the pipe is full.
\<close>

fun pipe_allowed :: "'l pipe_pc \<Rightarrow> env \<Rightarrow> bool" where
  "pipe_allowed TryLock c = (c \<in> {Normal, WeakFail})"
| "pipe_allowed AcquireLoop c = (c \<in> {Normal, WeakFail})"
| "pipe_allowed ReadByte c = (c \<in> {Normal, Fail EINTR})"
| "pipe_allowed WriteByte c = (c \<in> {Normal, Fail EINTR})"
| "pipe_allowed _ c = (c = Normal)"

fun pipe_finished :: "'l pipe_pc \<Rightarrow> bool" where
  "pipe_finished (Done r) = True"
| "pipe_finished _ = False"

definition pipe_code ::
    "bool \<Rightarrow> nat \<Rightarrow> ('l \<Rightarrow> 'a \<Rightarrow> ('l \<times> 'a) option) \<Rightarrow> 'l \<Rightarrow> ('a pipe_lock, 'l pipe_pc) lock_code" where
  "pipe_code dbg cap body l0 =
     \<lparr>start = TryLock, act = pipe_act dbg cap body l0, allowed = pipe_allowed,
      finished = pipe_finished, sleeping = (\<lambda>_. False), tid_ok = (\<lambda>t. t \<noteq> 0)\<rparr>"

lemma pipe_code_simps [simp]:
  "start (pipe_code dbg cap body l0) = TryLock"
  "act (pipe_code dbg cap body l0) = pipe_act dbg cap body l0"
  "allowed (pipe_code dbg cap body l0) = pipe_allowed"
  "finished (pipe_code dbg cap body l0) = pipe_finished"
  "sleeping (pipe_code dbg cap body l0) = (\<lambda>_. False)"
  "tid_ok (pipe_code dbg cap body l0) = (\<lambda>t. t \<noteq> 0)"
  by (simp_all add: pipe_code_def)

lemmas pipe_defs [code_simps] =
  try_lock_def lock_contended_def register_def acquire_loop_def deregister_def read_byte_def
  unlock_def check_waiters_def write_failed_def unlock_contended_def guarded_def
  compare_exchange_weak_def

lemmas pipe_splits = if_splits option.splits sum.splits env.splits prod.splits

section \<open>Owner, holders and contenders\<close>

fun pipe_holds :: "'l pipe_pc \<Rightarrow> bool" where
  "pipe_holds Deregister = True"
| "pipe_holds (Guarded l c) = True"
| "pipe_holds _ = False"

fun pipe_contends :: "'l pipe_pc \<Rightarrow> bool" where
  "pipe_contends Register = True"
| "pipe_contends AcquireLoop = True"
| "pipe_contends ReadByte = True"
| "pipe_contends _ = False"

fun pipe_recursive :: "'l pipe_pc \<Rightarrow> bool" where
  "pipe_recursive (Done (Inl Recursive)) = True"
| "pipe_recursive DeregisterRecursive = True"
| "pipe_recursive _ = False"

interpretation pipe: owned_lock "pipe_code dbg cap body l0" "pipe_lock_init x0" holder_tid item
    pipe_holds pipe_contends pipe_recursive for dbg cap body l0 x0
proof (unfold_locales, goal_cases)
  case 1
  show ?case by (simp add: pipe_lock_init_def)
next
  case (11 p)
  then show ?case by (cases p) simp_all
next
  case (4 p)
  then show ?case by (cases p) simp_all
next
  case (5 t c m p m' p')
  then show ?case
    by (cases p) (auto simp: pipe_defs Let_def split: pipe_splits)
next
  case (6 t c m p m' p')
  then show ?case
    by (cases p) (auto simp: pipe_defs Let_def split: pipe_splits)
next
  case (7 t c m p m' p')
  then show ?case
    by (cases p) (auto simp: pipe_defs Let_def split: pipe_splits)
next
  case (8 t c m p m' p')
  then show ?case
    by (cases p) (auto simp: pipe_defs Let_def split: pipe_splits)
next
  case (12 t c m p m' p')
  then show ?case
    by (cases p) (auto simp: pipe_defs Let_def split: pipe_splits)
next
  case (13 t c m p m' p')
  then show ?case
    by (cases p) (auto simp: pipe_defs Let_def split: pipe_splits)
next
  case (14 t c m m' p')
  then show ?case
    by (auto simp: pipe_defs split: if_splits)
qed simp_all

section \<open>Recursion is detected\<close>

lemma pipe_reentrant_call:
  assumes "reachable (pipe_code dbg cap body l0) (pipe_lock_init x0) s"
    and "stacks s t = TryLock # ps" and "q \<in> set ps" and "pipe_holds q"
    and "sys_step (pipe_code dbg cap body l0) (Run t c) s s'"
  shows "stacks s' t = Done (Inl Recursive) # ps \<and> mem s' = mem s"
proof -
  from pipe.reentrant_call_recursive [OF assms(1) _ assms(3-5)] assms(2)
  obtain p' where p': "stacks s' t = p' # ps" "mem s' = mem s" by auto
  from assms(2,5) p'(1) have "p' \<noteq> DeregisterRecursive"
    by (auto elim!: run_step simp: try_lock_def lock_contended_def split: prod.splits sum.splits if_splits)
  moreover have "pipe_recursive p'"
    using pipe.reentrant_call_recursive [OF assms(1) _ assms(3-5)] assms(2) p'(1) by auto
  then have "p' = Done (Inl Recursive) \<or> p' = DeregisterRecursive"
    by (cases p' rule: pipe_recursive.cases) simp_all
  ultimately show ?thesis using p' by simp
qed

lemma pipe_recursive_justified:
  assumes "reachable (pipe_code dbg cap body l0) (pipe_lock_init x0) s"
    and "stacks s t = Done (Inl Recursive) # ps"
  shows "\<exists>q \<in> set ps. pipe_holds q"
  by (rule pipe.recursive_held_beneath [OF assms]) simp

end
