(* ===== verification/Pipe_Progress.thy ===== *)
theory Pipe_Progress
  imports Pipe_Lock
begin

text \<open>
  No lost wake-up for \<open>PipeLock\<close>: the counter \<open>waiters\<close> is the number of registered contenders, the
  interpretation of the hand-over contract, and the measure that bounds every quiet run.
\<close>

section \<open>The invariant\<close>

fun pipe_registered :: "'l pipe_pc \<Rightarrow> bool" where
  "pipe_registered AcquireLoop = True"
| "pipe_registered Deregister = True"
| "pipe_registered DeregisterRecursive = True"
| "pipe_registered (DeregisterAbort e) = True"
| "pipe_registered ReadByte = True"
| "pipe_registered _ = False"

text \<open>The points that are not reached: aborts, and recursion noticed only inside the loop.\<close>

fun pipe_pc_ok :: "'l pipe_pc \<Rightarrow> bool" where
  "pipe_pc_ok DeregisterRecursive = False"
| "pipe_pc_ok (DeregisterAbort e) = False"
| "pipe_pc_ok (Aborted a) = False"
| "pipe_pc_ok _ = True"

definition registered :: "(tid \<Rightarrow> 'l pipe_pc list) \<Rightarrow> nat" where
  "registered stk = (\<Sum>t\<in>UNIV. count_of pipe_registered (stk t))"

definition pipe_sound :: "('a pipe_lock, 'l pipe_pc) sys \<Rightarrow> bool" where
  "pipe_sound s \<longleftrightarrow> waiters (mem s) = of_nat (registered (stacks s)) \<and>
     on_stacks (list_all pipe_pc_ok) (stacks s)"

lemma pipe_sound_stack: "pipe_sound s \<Longrightarrow> stacks s t = xs \<Longrightarrow> list_all pipe_pc_ok xs"
  by (auto simp: pipe_sound_def on_stacks_def)

lemma registered_upd:
  assumes "stk t = xs"
  shows "registered (stk(t := ys)) + count_of pipe_registered xs = registered stk + count_of pipe_registered ys"
  using sum_fun_upd [of "\<lambda>_. count_of pipe_registered" stk t ys] assms by (simp add: registered_def)

lemma registered_le_depth: "registered (stacks s) \<le> depth s"
  unfolding registered_def depth_def by (intro sum_mono count_of_le_length)

text \<open>While somebody is registered, the counter has not wrapped around to 0.\<close>

lemma waiters_pos:
  assumes r: "reachable (pipe_code dbg cap body l0) (pipe_lock_init x0) s" and sound: "pipe_sound s"
    and q: "q \<in> set (stacks s t)" "pipe_registered q"
  shows "0 < waiters (mem s)"
proof -
  have "0 < count_of pipe_registered (stacks s t)"
    unfolding count_of_pos using q by blast
  also have "\<dots> \<le> registered (stacks s)"
    unfolding registered_def by (rule member_le_sum) simp_all
  finally have "0 < registered (stacks s)" .
  moreover have "registered (stacks s) < 2 ^ 32"
    using registered_le_depth [of s] reachable_live [OF r] by (simp add: max_live_def)
  ultimately have "unat (of_nat (registered (stacks s)) :: u32) = registered (stacks s)"
    by (simp add: unat_of_nat)
  with sound \<open>0 < registered (stacks s)\<close> show ?thesis
    by (simp add: pipe_sound_def word_less_nat_alt)
qed

text \<open>An action changes the counter as it changes the registration of its activation.\<close>

lemma pipe_act_waiters:
  assumes "pipe_allowed p c" and "pipe_act dbg cap body l0 t c m p = Some (m', p')"
  shows "waiters m' + of_nat (count_of pipe_registered [p]) = waiters m + of_nat (count_of pipe_registered [p'])"
  using assms by (cases p) (auto simp: pipe_defs Let_def split: pipe_splits)

lemma pipe_act_ok:
  assumes "pipe_allowed p c" and "pipe_pc_ok p" and "pipe_holds p \<Longrightarrow> holder_tid m = t"
    and "pipe_contends p \<Longrightarrow> holder_tid m \<noteq> t"
    and "pipe_act dbg cap body l0 t c m p = Some (m', p')"
  shows "pipe_pc_ok p'"
  using assms by (cases p) (auto simp: pipe_defs Let_def split: pipe_splits)

lemma pipe_running:
  assumes r: "reachable (pipe_code dbg cap body l0) (pipe_lock_init x0) s" and stk: "stacks s t = p # ps"
  shows "t \<noteq> 0" and "pipe_holds p \<Longrightarrow> holder_tid (mem s) = t" and "pipe_contends p \<Longrightarrow> holder_tid (mem s) \<noteq> t"
proof -
  show t: "t \<noteq> 0" using reachable_tid_ok [OF r] stk by simp
  have inv: "owner_inv holder_tid pipe_holds s \<and> nesting_inv pipe_holds pipe_contends pipe_recursive s"
    by (rule pipe.reachable_inv [OF r])
  show "pipe_holds p \<Longrightarrow> holder_tid (mem s) = t"
    using owner_inv_holds [of holder_tid pipe_holds s p t] inv stk by simp
  show "pipe_contends p \<Longrightarrow> holder_tid (mem s) \<noteq> t"
    using pipe.contender_not_owner [OF inv stk _ t] by blast
qed

lemma pipe_sound_step:
  assumes r: "reachable (pipe_code dbg cap body l0) (pipe_lock_init x0) s" and sound: "pipe_sound s"
    and step: "sys_step (pipe_code dbg cap body l0) e s s'"
  shows "pipe_sound s'"
  using step
proof cases
  case (call t)
  with sound pipe_sound_stack [OF sound refl, of t] registered_upd [of "stacks s" t, OF refl, of "TryLock # stacks s t"]
  show ?thesis by (simp add: pipe_sound_def on_stacks_upd)
next
  case (run t p ps c m' p')
  note p = pipe_running [OF r run(3)]
  have ok: "list_all pipe_pc_ok (p # ps)" by (rule pipe_sound_stack [OF sound run(3)])
  have act: "pipe_act dbg cap body l0 t c (mem s) p = Some (m', p')" and al: "pipe_allowed p c"
    using run by simp_all
  have "pipe_pc_ok p'" using pipe_act_ok [OF al _ p(2,3) act] ok by simp
  moreover have "waiters m' = of_nat (registered ((stacks s)(t := p' # ps)))"
  proof -
    have "of_nat (registered ((stacks s)(t := p' # ps)) + count_of pipe_registered (p # ps)) =
        (of_nat (registered (stacks s) + count_of pipe_registered (p' # ps)) :: u32)"
      by (simp only: registered_upd [of "stacks s" t, OF run(3)])
    with pipe_act_waiters [OF al act] sound show ?thesis
      by (auto simp: pipe_sound_def split: if_splits) (metis add_right_cancel)
  qed
  ultimately show ?thesis
    using sound run(2) ok by (simp add: pipe_sound_def on_stacks_upd)
next
  case (return t p ps)
  have "list_all pipe_pc_ok (p # ps)" by (rule pipe_sound_stack [OF sound return(3)])
  moreover have "\<not> pipe_registered p" using return(4) by (cases p) simp_all
  ultimately show ?thesis
    using sound return(2) registered_upd [of "stacks s" t, OF return(3), of ps]
    by (simp add: pipe_sound_def on_stacks_upd)
qed

lemma pipe_reachable_sound:
  assumes "reachable (pipe_code dbg cap body l0) (pipe_lock_init x0) s"
  shows "pipe_sound s"
  using assms
proof (rule reachable_invariant)
  show "pipe_sound (init_sys (pipe_lock_init x0))"
    by (simp add: pipe_sound_def pipe_lock_init_def registered_def)
qed (rule pipe_sound_step)

section \<open>Waiting and the responsibility to wake\<close>

definition pipe_waiting :: "tid \<Rightarrow> 'a pipe_lock \<Rightarrow> 'l pipe_pc \<Rightarrow> bool" where
  "pipe_waiting t m p \<longleftrightarrow> p = ReadByte"

definition pipe_asleep :: "tid \<Rightarrow> 'a pipe_lock \<Rightarrow> 'l pipe_pc \<Rightarrow> bool" where
  "pipe_asleep t m p \<longleftrightarrow> p = ReadByte \<and> pipe_bytes m = 0"

fun pipe_resp :: "tid \<Rightarrow> 'a pipe_lock \<Rightarrow> 'l pipe_pc \<Rightarrow> bool" where
  "pipe_resp t m AcquireLoop = True"
| "pipe_resp t m (CheckWaiters c) = True"
| "pipe_resp t m WriteByte = True"
| "pipe_resp t m _ = False"

definition pipe_pend :: "'a pipe_lock \<Rightarrow> bool" where
  "pipe_pend m \<longleftrightarrow> holder_tid m \<noteq> 0 \<or> 0 < pipe_bytes m"

lemma pipe_hand_over:
  assumes "t \<noteq> 0" and "pipe_allowed p c" and "pipe_pc_ok p" and "0 < cap"
    and "pipe_holds p \<Longrightarrow> holder_tid m = t" and "pipe_contends p \<Longrightarrow> holder_tid m \<noteq> t"
    and "p = CheckWaiters False \<Longrightarrow> 0 < waiters m"
    and "pipe_act dbg cap body l0 t c m p = Some (m', p')" and "\<not> pipe_pend m'"
  shows "pipe_resp t m' p' \<or> (\<not> pipe_pend m \<and> \<not> pipe_resp t m p \<and> \<not> pipe_waiting t m' p')"
proof (cases p)
  case (CheckWaiters cont)
  with assms show ?thesis by (cases cont) (auto simp: check_waiters_def)
qed (use assms in \<open>auto simp: pipe_defs pipe_pend_def pipe_waiting_def Let_def split: pipe_splits\<close>)

lemma pipe_act_progress:
  assumes "pipe_pc_ok p" and "\<not> pipe_asleep t m p" and "\<not> pipe_finished p"
  shows "\<exists>c m' p'. quiet c \<and> pipe_allowed p c \<and> pipe_act dbg cap body l0 t c m p = Some (m', p')"
  using assms
  by (intro exI [of _ Normal], cases p) (auto simp: pipe_asleep_def read_byte_def)

text \<open>The pipe holds at least one byte (\<open>cap\<close> is its capacity less one).\<close>

interpretation pipe: waking_lock "pipe_code dbg (Suc cap) body l0" "pipe_lock_init x0" holder_tid item
    pipe_holds pipe_contends pipe_recursive pipe_sound pipe_waiting pipe_resp pipe_asleep pipe_pend
    for dbg cap body l0 x0
proof (unfold_locales, goal_cases)
  case (1 s)
  then show ?case by (rule pipe_reachable_sound)
next
  case (2 t m p)
  then show ?case by (simp add: pipe_waiting_def)
next
  case (3 p t m)
  then show ?case by (cases p) (simp_all add: pipe_waiting_def)
next
  case (4 t m p)
  then show ?case by (cases p) (simp_all add: pipe_waiting_def)
next
  case (5 t m p)
  then show ?case by (simp add: pipe_asleep_def pipe_waiting_def)
next
  case (6 s t p ps c m' p' q u)
  then show ?case by (cases q) (simp_all add: pipe_waiting_def)
next
  case (7 s t p ps c m' p')
  note p = pipe_running [OF 7(1,3)]
  have "pipe_pc_ok p" using pipe_sound_stack [OF 7(2,3)] by simp
  moreover have "0 < waiters (mem s)" if "p = CheckWaiters False"
  proof -
    from 7(7) obtain u q where "q \<in> set (((stacks s)(t := p' # ps)) u)" "q = ReadByte"
      by (auto simp: some_waiting_def pipe_waiting_def)
    moreover have "p' \<noteq> ReadByte" using 7(5) that by (auto simp: check_waiters_def split: if_splits)
    ultimately have "q \<in> set (stacks s u)" "pipe_registered q"
      using 7(3) by (auto split: if_splits)
    then show ?thesis by (rule waiters_pos [OF 7(1,2)])
  qed
  ultimately show ?case
    using pipe_hand_over [where c = c and cap = "Suc cap" and p = p, OF p(1) _ _ _ p(2,3)] 7(4-6) by simp blast
next
  case (8 s)
  then show ?case by (auto simp: pipe_pend_def pipe_asleep_def)
next
  case (9 s t p ps)
  then have "pipe_pc_ok p" using pipe_sound_stack by fastforce
  with 9 show ?case using pipe_act_progress by simp
qed

section \<open>Termination\<close>

text \<open>
  A byte in the pipe pays for one more iteration of a contender's loop, an unlocking thread for the
  byte it may write. \<open>bm\<close> bounds the steps of the client's critical section.
\<close>

fun pipe_budget :: "('l \<Rightarrow> nat) \<Rightarrow> 'l \<Rightarrow> 'l pipe_pc \<Rightarrow> nat" where
  "pipe_budget bm l0 TryLock = bm l0 + 12"
| "pipe_budget bm l0 Register = bm l0 + 11"
| "pipe_budget bm l0 AcquireLoop = bm l0 + 10"
| "pipe_budget bm l0 ReadByte = bm l0 + 9"
| "pipe_budget bm l0 Deregister = bm l0 + 8"
| "pipe_budget bm l0 (Guarded l c) = bm l + 7"
| "pipe_budget bm l0 (CheckWaiters c) = 6"
| "pipe_budget bm l0 WriteByte = 5"
| "pipe_budget bm l0 DeregisterRecursive = 2"
| "pipe_budget bm l0 (DeregisterAbort e) = 2"
| "pipe_budget bm l0 (Done r) = 1"
| "pipe_budget bm l0 (Aborted a) = 1"

definition pipe_measure :: "('l \<Rightarrow> nat) \<Rightarrow> 'l \<Rightarrow> ('a pipe_lock, 'l pipe_pc) sys \<Rightarrow> nat" where
  "pipe_measure bm l0 s =
     (\<Sum>t\<in>UNIV. sum_list (map (pipe_budget bm l0) (stacks s t))) + 3 * pipe_bytes (mem s)"

lemma pipe_quiet_act:
  assumes "t \<noteq> 0" and "pipe_allowed p c" and "quiet c"
    and bm: "body_bounded body bm"
    and act: "pipe_act dbg cap body l0 t c m p = Some (m', p')"
  shows "pipe_budget bm l0 p' + 3 * pipe_bytes m' < pipe_budget bm l0 p + 3 * pipe_bytes m"
proof (cases p)
  case (Guarded l b)
  with act bm show ?thesis
    by (auto simp: guarded_def unlock_def Let_def dest: body_boundedD split: option.splits)
qed (use assms in \<open>auto simp: pipe_defs Let_def split: pipe_splits\<close>)

lemma pipe_quiet_descends:
  assumes r: "reachable (pipe_code dbg cap body l0) (pipe_lock_init x0) s"
    and step: "quiet_step (pipe_code dbg cap body l0) s s'" and bm: "body_bounded body bm"
  shows "pipe_measure bm l0 s' < pipe_measure bm l0 s"
proof -
  from step obtain e where e: "quiet_event e" and "sys_step (pipe_code dbg cap body l0) e s s'"
    by (auto simp: quiet_step_def)
  from this(2) show ?thesis
  proof cases
    case (call t)
    with e show ?thesis by simp
  next
    case (return t p ps)
    then have "pipe_budget bm l0 p = 1" by (cases p) simp_all
    with sum_fun_upd [of "\<lambda>_ ps. sum_list (map (pipe_budget bm l0) ps)" "stacks s" t ps] return
    show ?thesis by (simp add: pipe_measure_def)
  next
    case (run t p ps c m' p')
    have "pipe_budget bm l0 p' + 3 * pipe_bytes m' < pipe_budget bm l0 p + 3 * pipe_bytes (mem s)"
      using run e by (intro pipe_quiet_act [OF pipe_running(1) [OF r run(3)] _ _ bm]) simp_all
    with sum_fun_upd [of "\<lambda>_ ps. sum_list (map (pipe_budget bm l0) ps)" "stacks s" t "p' # ps"] run(2,3)
    show ?thesis by (simp add: pipe_measure_def)
  qed
qed

end
