(* ===== verification/Pipe_Spec.thy ===== *)
theory Pipe_Spec
  imports Spec_Simulation Pipe_Progress
begin

text \<open>
  \<open>tla/pipe.tla\<close>: the procedure \<open>lock_unlock\<close> of the specification of \<open>PipeLock\<close>, action by action,
  and the interpretation of \<open>spec_simulation\<close> that relates it to the code with a pipe of one byte.
  The variables \<open>waiters_set\<close> and \<open>got_waiters\<close>, which no action uses, are left out.
\<close>

section \<open>Variables and labels\<close>

record pipe_globals =
  p_holder_tid :: tid
  pipe_buf_len :: nat
  p_waiters :: nat
  p_in_critical_section :: bool

definition pipe_globals_init :: pipe_globals where
  "pipe_globals_init =
     \<lparr>p_holder_tid = 0, pipe_buf_len = 0, p_waiters = 0, p_in_critical_section = False\<rparr>"

datatype pipe_label =
    P_l0 | P_l_pre1 | P_l_pre2 | P_l_pre3 | P_l_cnt | P_l2 | P_l22 | P_l3 | P_pr0 | P_l6 | P_l8
  | P_cs | P_u0 | P_u1 | P_u2 | P_pw0 | P_u_end

record pipe_locals =
  p_pc :: pipe_label
  p_got_tid :: tid
  pending_byte :: bool

definition pipe_locals_init :: pipe_locals where
  "pipe_locals_init = \<lparr>p_pc = P_l0, p_got_tid = 0, pending_byte = False\<rparr>"

section \<open>The actions\<close>

definition pipe_read_holder :: "pipe_globals \<Rightarrow> pipe_locals \<Rightarrow> pipe_label \<Rightarrow> pipe_locals" where
  "pipe_read_holder g v l = v\<lparr>p_pc := l, p_got_tid := p_holder_tid g\<rparr>"

definition pipe_lock_unlock ::
    "tid \<Rightarrow> choice \<Rightarrow> nat \<Rightarrow> pipe_globals \<Rightarrow> pipe_locals \<Rightarrow> (pipe_globals \<times> pipe_locals outcome) option" where
  "pipe_lock_unlock self c signals g v =
     (case p_pc v of
        P_l0 \<Rightarrow>
          if p_holder_tid g = 0 then Some (g\<lparr>p_holder_tid := self\<rparr>, Goto (v\<lparr>p_pc := P_cs\<rparr>))
          else Some (g, Goto (pipe_read_holder g v P_l_pre1))
      | P_l_pre1 \<Rightarrow>
          if p_got_tid v = self then Some (g, if signals > 0 then Err_recursive else Assert_fails)
          else Some (g, Goto (v\<lparr>p_pc := P_l_pre2\<rparr>))
      | P_l_pre2 \<Rightarrow>
          Some (g\<lparr>p_waiters := p_waiters g + 1\<rparr>, Goto (v\<lparr>p_pc := P_l_pre3, pending_byte := True\<rparr>))
      | P_l_pre3 \<Rightarrow> Some (g, Goto (pipe_read_holder g v P_l_cnt))
      | P_l_cnt \<Rightarrow> Some (g, Maybe_signal (v\<lparr>p_pc := P_l2\<rparr>))
      | P_l2 \<Rightarrow>
          if p_got_tid v = 0
          then if p_holder_tid g = p_got_tid v
               then Some (g\<lparr>p_holder_tid := self\<rparr>, Goto (v\<lparr>p_pc := P_l22\<rparr>))
               else Some (g, Goto (pipe_read_holder g v P_l_cnt))
          else Some (g, Goto (v\<lparr>p_pc := P_l3\<rparr>))
      | P_l22 \<Rightarrow>
          if p_waiters g > 0
          then Some (g\<lparr>p_waiters := p_waiters g - 1\<rparr>, Goto (v\<lparr>p_pc := P_cs\<rparr>))
          else Some (g, Assert_fails)
      | P_l3 \<Rightarrow> Some (g, Maybe_signal (v\<lparr>p_pc := P_pr0\<rparr>))
      | P_pr0 \<Rightarrow>
          if pipe_buf_len g > 0
          then Some (g\<lparr>pipe_buf_len := pipe_buf_len g - 1\<rparr>, Goto (v\<lparr>p_pc := P_l6\<rparr>))
          else None
      | P_l6 \<Rightarrow> Some (g, Maybe_signal (v\<lparr>p_pc := P_l8\<rparr>))
      | P_l8 \<Rightarrow> Some (g, Goto (pipe_read_holder g v P_l_cnt))
      | P_cs \<Rightarrow>
          if p_in_critical_section g then Some (g, Assert_fails)
          else Some (g\<lparr>p_in_critical_section := True\<rparr>, Goto (v\<lparr>p_pc := P_u0\<rparr>))
      | P_u0 \<Rightarrow>
          if p_in_critical_section g
          then Some (g\<lparr>p_holder_tid := 0, p_in_critical_section := False\<rparr>,
                     Goto (v\<lparr>p_pc := P_u1, p_got_tid := 0\<rparr>))
          else Some (g, Assert_fails)
      | P_u1 \<Rightarrow> Some (g, Maybe_signal (v\<lparr>p_pc := P_u2\<rparr>))
      | P_u2 \<Rightarrow>
          if p_waiters g > 0 \<or> pending_byte v
          then Some (g, Goto (v\<lparr>p_pc := P_pw0, pending_byte := False\<rparr>))
          else Some (g, Goto (v\<lparr>p_pc := P_u_end\<rparr>))
      | P_pw0 \<Rightarrow>
          if pipe_buf_len g < 1
          then Some (g\<lparr>pipe_buf_len := pipe_buf_len g + 1\<rparr>, Goto (v\<lparr>p_pc := P_u_end\<rparr>))
          else Some (g, Goto (v\<lparr>p_pc := P_u_end\<rparr>))
      | P_u_end \<Rightarrow> Some (g, Finish))"

definition pipe_procedure :: "(pipe_globals, pipe_locals) procedure" where
  "pipe_procedure = \<lparr>entry = pipe_locals_init, action = pipe_lock_unlock\<rparr>"

lemma pipe_procedure_simps [simp]:
  "entry pipe_procedure = pipe_locals_init" "action pipe_procedure = pipe_lock_unlock"
  by (simp_all add: pipe_procedure_def)

section \<open>The specification's state as a state of the code\<close>

definition pipe_spec_mem :: "pipe_globals \<Rightarrow> unit pipe_lock" where
  "pipe_spec_mem g =
     \<lparr>item = (), holder_tid = p_holder_tid g, waiters = of_nat (p_waiters g),
      pipe_bytes = pipe_buf_len g\<rparr>"

text \<open>
  An activation that has read a holder waits for a byte; one that has read \<open>Null\<close> tries to
  acquire the lock. (The source merges the read with the attempt, \<open>l_pre3\<close> and \<open>l8\<close> are its failing
  branch.)
\<close>

definition pipe_spec_pc :: "tid \<Rightarrow> pipe_locals \<Rightarrow> unit pipe_pc" where
  "pipe_spec_pc self v =
     (case p_pc v of
        P_l0 \<Rightarrow> TryLock
      | P_l_pre1 \<Rightarrow> lock_contended self (p_got_tid v)
      | P_l_pre2 \<Rightarrow> Register
      | P_l_cnt \<Rightarrow> (if p_got_tid v = 0 then AcquireLoop else ReadByte)
      | P_l2 \<Rightarrow> (if p_got_tid v = 0 then AcquireLoop else ReadByte)
      | P_l22 \<Rightarrow> Deregister
      | P_l3 \<Rightarrow> ReadByte
      | P_pr0 \<Rightarrow> ReadByte
      | P_cs \<Rightarrow> Guarded () (pending_byte v)
      | P_u0 \<Rightarrow> Guarded () (pending_byte v)
      | P_u1 \<Rightarrow> CheckWaiters (pending_byte v)
      | P_u2 \<Rightarrow> CheckWaiters (pending_byte v)
      | P_pw0 \<Rightarrow> WriteByte
      | P_u_end \<Rightarrow> Done (Inr ())
      | _ \<Rightarrow> AcquireLoop)"

abbreviation pipe_model :: "bool \<Rightarrow> (unit pipe_lock, unit pipe_pc) lock_code" where
  "pipe_model dbg \<equiv> pipe_code dbg (Suc 0) no_body ()"

section \<open>Invariants of the variables\<close>

definition pipe_globals_ok :: "pipe_globals \<Rightarrow> bool" where
  "pipe_globals_ok g \<longleftrightarrow> p_waiters g < 2 ^ 32"

definition pipe_locals_ok :: "tid \<Rightarrow> pipe_locals \<Rightarrow> bool" where
  "pipe_locals_ok self v \<longleftrightarrow>
     (p_pc v = P_l0 \<longrightarrow> \<not> pending_byte v) \<and> (p_pc v = P_l_pre1 \<longrightarrow> p_got_tid v \<noteq> self) \<and>
     (p_pc v \<in> {P_l_pre3, P_l_cnt, P_l2, P_l22, P_l3, P_pr0, P_l6, P_l8} \<longrightarrow> pending_byte v)"

fun pipe_label_rank :: "pipe_label \<Rightarrow> nat" where
  "pipe_label_rank P_l6 = 8"
| "pipe_label_rank P_l8 = 6"
| "pipe_label_rank P_l_pre3 = 6"
| "pipe_label_rank P_l_cnt = 5"
| "pipe_label_rank P_l2 = 3"
| "pipe_label_rank P_l3 = 2"
| "pipe_label_rank P_l_pre1 = 1"
| "pipe_label_rank P_cs = 1"
| "pipe_label_rank P_u1 = 2"
| "pipe_label_rank _ = 0"

section \<open>Each action is an action of the code\<close>

definition pipe_label_step ::
    "bool \<Rightarrow> tid \<Rightarrow> pipe_globals \<Rightarrow> pipe_locals \<Rightarrow> pipe_globals \<Rightarrow> pipe_locals \<Rightarrow> bool" where
  "pipe_label_step dbg t g v g' v' \<longleftrightarrow>
     pipe_spec_mem g' = pipe_spec_mem g \<and> pipe_spec_pc t v' = pipe_spec_pc t v \<and>
       pipe_label_rank (p_pc v') < pipe_label_rank (p_pc v) \<or>
     pipe_allowed (pipe_spec_pc t v) Normal \<and>
       pipe_act dbg (Suc 0) no_body () t Normal (pipe_spec_mem g) (pipe_spec_pc t v) =
         Some (pipe_spec_mem g', pipe_spec_pc t v')"

text \<open>What is known at an action, and what is shown of one that goes on to the next label.\<close>

definition pipe_running_ok :: "tid \<Rightarrow> pipe_globals \<Rightarrow> pipe_locals \<Rightarrow> bool" where
  "pipe_running_ok t g v \<longleftrightarrow> t \<noteq> 0 \<and> pipe_locals_ok t v \<and>
     (p_holder_tid g = t \<longleftrightarrow> pipe_holds (pipe_spec_pc t v)) \<and>
     (pipe_holds (pipe_spec_pc t v) \<longrightarrow> p_in_critical_section g = (p_pc v = P_u0)) \<and>
     Suc (p_waiters g) < 2 ^ 32 \<and> (p_pc v = P_l22 \<longrightarrow> 0 < p_waiters g)"

definition pipe_goto_ok ::
    "bool \<Rightarrow> tid \<Rightarrow> pipe_globals \<Rightarrow> pipe_locals \<Rightarrow> pipe_globals \<Rightarrow> pipe_locals \<Rightarrow> bool" where
  "pipe_goto_ok dbg t g v g' v' \<longleftrightarrow> pipe_globals_ok g' \<and> pipe_locals_ok t v' \<and>
     (p_in_critical_section g' \<longleftrightarrow> p_pc v' = P_u0 \<or> p_pc v \<noteq> P_u0 \<and> p_in_critical_section g) \<and>
     pipe_label_step dbg t g v g' v'"

lemmas pipe_goto_defs =
  pipe_goto_ok_def pipe_label_step_def pipe_spec_pc_def pipe_spec_mem_def pipe_read_holder_def
  pipe_locals_ok_def pipe_globals_ok_def pipe_running_ok_def

lemma of_nat_pos: "n < 2 ^ 32 \<Longrightarrow> 0 < (of_nat n :: u32) \<longleftrightarrow> 0 < n"
  by (simp add: word_less_nat_alt unat_of_nat)

lemma pipe_goto_l2:
  assumes run: "pipe_running_ok t g v" and pc: "p_pc v = P_l2"
    and act: "pipe_lock_unlock t c n g v = Some (g', Goto v')"
  shows "pipe_goto_ok dbg t g v g' v'"
proof -
  consider (held) "p_got_tid v \<noteq> 0" | (free) "p_got_tid v = 0" "p_holder_tid g = 0"
    | (taken) "p_got_tid v = 0" "p_holder_tid g \<noteq> 0" by blast
  then show ?thesis
  proof cases
    case held
    with pc act have "g' = g" "v' = v\<lparr>p_pc := P_l3\<rparr>" by (auto simp: pipe_lock_unlock_def)
    with pc run held show ?thesis by (simp add: pipe_goto_defs)
  next
    case free
    with pc act have "g' = g\<lparr>p_holder_tid := t\<rparr>" "v' = v\<lparr>p_pc := P_l22\<rparr>"
      by (auto simp: pipe_lock_unlock_def)
    with pc run free show ?thesis
      by (simp add: pipe_goto_defs acquire_loop_def compare_exchange_weak_def)
  next
    case taken
    with pc act have "g' = g" "v' = pipe_read_holder g v P_l_cnt" by (auto simp: pipe_lock_unlock_def)
    with pc run taken show ?thesis
      by (simp add: pipe_goto_defs acquire_loop_def compare_exchange_weak_def)
  qed
qed

lemma pipe_goto_read:
  assumes run: "pipe_running_ok t g v" and pc: "p_pc v = P_l_pre3 \<or> p_pc v = P_l8"
    and act: "pipe_lock_unlock t c n g v = Some (g', Goto v')"
  shows "pipe_goto_ok dbg t g v g' v'"
proof -
  from pc act have "g' = g" "v' = pipe_read_holder g v P_l_cnt" by (auto simp: pipe_lock_unlock_def)
  moreover have al: "pipe_spec_pc t v = AcquireLoop" and "pipe_label_rank P_l_cnt < pipe_label_rank (p_pc v)"
    using pc by (auto simp: pipe_spec_pc_def)
  moreover have "pending_byte v"
    using run pc by (auto simp: pipe_running_ok_def pipe_locals_ok_def)
  moreover have "p_holder_tid g \<noteq> t" "pipe_globals_ok g" and t: "t \<noteq> 0"
    using run al by (simp_all add: pipe_running_ok_def pipe_globals_ok_def)
  moreover have "p_pc v \<noteq> P_u0" using pc by auto
  ultimately show ?thesis
    by (cases "p_holder_tid g = 0")
      (simp_all add: pipe_goto_ok_def pipe_label_step_def pipe_locals_ok_def pipe_spec_mem_def
        pipe_read_holder_def pipe_spec_pc_def [of t "v\<lparr>p_pc := P_l_cnt, p_got_tid := h\<rparr>" for h]
        acquire_loop_def compare_exchange_weak_def)
qed

lemma pipe_goto_sim:
  assumes run: "pipe_running_ok t g v" and act: "pipe_lock_unlock t c n g v = Some (g', Goto v')"
  shows "pipe_goto_ok dbg t g v g' v'"
proof (cases "p_pc v")
  case P_l0
  with assms show ?thesis
    by (auto simp: pipe_lock_unlock_def pipe_goto_defs try_lock_def compare_exchange_weak_def lock_contended_def split: if_splits)
next
  case P_l_pre1
  with assms show ?thesis
    by (auto simp: pipe_lock_unlock_def pipe_goto_defs lock_contended_def split: if_splits)
next
  case P_l_pre2
  with assms show ?thesis
    by (auto simp: pipe_lock_unlock_def pipe_goto_defs register_def)
next
  case P_l_pre3
  then show ?thesis by (intro pipe_goto_read [OF run _ act]) simp
next
  case P_l2
  then show ?thesis by (rule pipe_goto_l2 [OF run _ act])
next
  case P_l22
  with assms show ?thesis
    by (auto simp: pipe_lock_unlock_def pipe_goto_defs deregister_def of_nat_diff)
next
  case P_pr0
  with assms show ?thesis
    by (auto simp: pipe_lock_unlock_def pipe_goto_defs read_byte_def split: if_splits)
next
  case P_l8
  then show ?thesis by (intro pipe_goto_read [OF run _ act]) simp
next
  case P_cs
  with assms show ?thesis
    by (auto simp: pipe_lock_unlock_def pipe_goto_defs split: if_splits)
next
  case P_u0
  with assms show ?thesis
    by (auto simp: pipe_lock_unlock_def pipe_goto_defs guarded_def unlock_def no_body_def Let_def split: if_splits)
next
  case P_u2
  with run have "0 < (of_nat (p_waiters g) :: u32) \<longleftrightarrow> 0 < p_waiters g"
    by (intro of_nat_pos) (simp add: pipe_running_ok_def)
  moreover from P_u2 act have "g' = g"
    "v' = (if 0 < p_waiters g \<or> pending_byte v then v\<lparr>p_pc := P_pw0, pending_byte := False\<rparr>
           else v\<lparr>p_pc := P_u_end\<rparr>)"
    by (auto simp: pipe_lock_unlock_def split: if_splits)
  ultimately show ?thesis
    using P_u2 run by (simp add: pipe_goto_defs check_waiters_def)
next
  case P_pw0
  with assms show ?thesis
    by (auto simp: pipe_lock_unlock_def pipe_goto_defs unlock_contended_def write_failed_def split: if_splits)
qed (use act in \<open>simp_all add: pipe_lock_unlock_def\<close>)

text \<open>The other outcomes.\<close>

lemma pipe_maybe_labels:
  assumes "pipe_lock_unlock t c n g v = Some (g', Maybe_signal v')"
  shows "g' = g \<and> (p_pc v = P_l_cnt \<and> v' = v\<lparr>p_pc := P_l2\<rparr> \<or> p_pc v = P_l3 \<and> v' = v\<lparr>p_pc := P_pr0\<rparr> \<or>
    p_pc v = P_l6 \<and> v' = v\<lparr>p_pc := P_l8\<rparr> \<or> p_pc v = P_u1 \<and> v' = v\<lparr>p_pc := P_u2\<rparr>)"
  using assms by (cases "p_pc v") (auto simp: pipe_lock_unlock_def split: if_splits)

lemma pipe_maybe_sim:
  assumes "pipe_lock_unlock t c n g v = Some (g', Maybe_signal v')" and "pipe_locals_ok t v"
  shows "g' = g \<and> pipe_locals_ok t v' \<and> pipe_spec_pc t v' = pipe_spec_pc t v \<and>
    \<not> pipe_holds (pipe_spec_pc t v) \<and> pipe_label_rank (p_pc v') + 2 \<le> pipe_label_rank (p_pc v)"
  using pipe_maybe_labels [OF assms(1)] assms(2)
  by (elim conjE disjE) (simp_all add: pipe_locals_ok_def pipe_spec_pc_def)

lemma pipe_end_sim:
  assumes "pipe_running_ok t g v" and "pipe_lock_unlock t c n g v = Some (g', out)"
  shows "out \<noteq> Err_recursive" and "out \<noteq> Assert_fails"
    and "out = Finish \<Longrightarrow> g' = g \<and> pipe_finished (pipe_spec_pc t v)"
  using assms
  by (cases "p_pc v"; auto simp: pipe_running_ok_def pipe_lock_unlock_def pipe_locals_ok_def
      pipe_spec_pc_def split: if_splits)+

lemma pipe_spec_progress:
  assumes "\<not> pipe_asleep t (pipe_spec_mem g) (pipe_spec_pc t v)"
  shows "pipe_lock_unlock t Skip n g v \<noteq> None"
  using assms
  by (cases "p_pc v") (auto simp: pipe_lock_unlock_def pipe_asleep_def pipe_spec_mem_def pipe_spec_pc_def)

section \<open>The interpretation\<close>

text \<open>The counter of the specification does not reach \<open>2 ^ 32\<close>, as it counts activations.\<close>

lemma pipe_waiters_small:
  assumes r: "reachable (pipe_model dbg) (pipe_lock_init ()) s" and m: "mem s = pipe_spec_mem g"
    and ok: "pipe_globals_ok g"
  shows "Suc (p_waiters g) < 2 ^ 32"
proof -
  have small: "registered (stacks s) < 2 ^ 32 - 1"
    using registered_le_depth [of s] reachable_live [OF r] by (simp add: max_live_def)
  have "(of_nat (p_waiters g) :: u32) = of_nat (registered (stacks s))"
    using pipe_reachable_sound [OF r] m by (simp add: pipe_sound_def pipe_spec_mem_def)
  then have "unat (of_nat (p_waiters g) :: u32) = unat (of_nat (registered (stacks s)) :: u32)" by (rule arg_cong)
  with small ok have "p_waiters g = registered (stacks s)"
    by (simp add: unat_of_nat pipe_globals_ok_def)
  with small show ?thesis by simp
qed

lemma pipe_action_sim:
  assumes r: "reachable (pipe_model dbg) (pipe_lock_init ()) s" and m: "mem s = pipe_spec_mem g"
    and stk: "stacks s t = pipe_spec_pc t v # ps"
    and own: "holder_tid (pipe_spec_mem g) = t \<longrightarrow> pipe_holds (pipe_spec_pc t v)"
    and cs: "pipe_holds (pipe_spec_pc t v) \<longrightarrow> p_in_critical_section g = (p_pc v = P_u0)"
    and ok: "pipe_globals_ok g" "pipe_locals_ok t v"
  shows "pipe_running_ok t g v"
proof -
  have h: "holder_tid (pipe_spec_mem g) = p_holder_tid g" by (simp add: pipe_spec_mem_def)
  have "p_holder_tid g = t" if "pipe_holds (pipe_spec_pc t v)"
    using pipe_running(2) [OF r stk that] m h by simp
  moreover have "0 < p_waiters g" if "p_pc v = P_l22"
  proof -
    have "0 < waiters (mem s)"
      by (rule waiters_pos [OF r pipe_reachable_sound [OF r], of Deregister t])
        (use stk that in \<open>simp_all add: pipe_spec_pc_def\<close>)
    then show ?thesis using m by (intro gr0I) (simp add: pipe_spec_mem_def)
  qed
  ultimately show ?thesis
    using own cs ok h pipe_running(1) [OF r stk] pipe_waiters_small [OF r m ok(1)]
    unfolding pipe_running_ok_def by auto
qed

interpretation pipe_spec: spec_termination "pipe_model dbg" "pipe_lock_init ()" holder_tid pipe_lock.item
    pipe_holds pipe_contends pipe_recursive pipe_sound pipe_waiting pipe_resp pipe_asleep pipe_pend
    pipe_procedure pipe_globals_init pipe_spec_mem pipe_spec_pc
    "\<lambda>v. pipe_label_rank (p_pc v)" pipe_globals_ok pipe_locals_ok p_in_critical_section
    "\<lambda>v. p_pc v = P_u0" "measure (pipe_measure (\<lambda>_. 0) ())" for dbg
proof (unfold_locales, goal_cases)
  case 1
  show ?case by (simp add: pipe_spec_mem_def pipe_globals_init_def pipe_lock_init_def)
next
  case 2
  show ?case by (simp add: pipe_globals_init_def pipe_globals_ok_def)
next
  case 3
  show ?case by (simp add: pipe_globals_init_def)
next
  case (4 t)
  show ?case by (simp add: pipe_spec_pc_def pipe_locals_init_def)
next
  case (5 t)
  show ?case by (simp add: pipe_locals_ok_def pipe_locals_init_def)
next
  case (6 v t)
  then show ?case by (simp add: pipe_spec_pc_def)
next
  case (7 s g t v ps c d g' out)
  note run = pipe_action_sim [OF 7(1-7)]
  note act = 7(8) [simplified]
  show ?case
  proof (cases out)
    case (Goto v')
    with pipe_goto_sim [OF run, of c d g' v' dbg] act show ?thesis
      by (auto simp: pipe_goto_ok_def pipe_label_step_def intro!: exI [of _ Normal])
  next
    case (Maybe_signal v')
    with pipe_maybe_sim [of t c d g v g' v'] act 7(6,7) show ?thesis by simp
  qed (use pipe_end_sim [OF run act] 7(6) in simp_all)
next
  case (8 s g t v ps d)
  then show ?case using pipe_spec_progress [of t g v d] by (intro exI [of _ Skip]) simp
next
  case 9
  show ?case by simp
next
  case (10 s s')
  from pipe_quiet_descends [OF this no_body_bounded] show ?case by simp
qed

end
