(* ===== verification/Spec_Examples.thy ===== *)
theory Spec_Examples
  imports Futex_Spec Pipe_Spec
begin

text \<open>
  A short run of each specification, with two processes and one level of signals: process 1 takes the
  lock, process 2 finds it taken and is interrupted by a handler that calls \<open>lock_unlock\<close> again.
\<close>

definition interrupted_run :: "(tid \<times> choice) list" where
  "interrupted_run = [(1, Skip), (1, Skip), (2, Skip), (2, Skip), (2, Interrupt), (2, Skip)]"

lemmas spec_run_simps [code_simps] =
  spec_exec_def spec_init_def set_process_def Let_def may_signal_def count_down_def

lemma two_valid: "\<forall>t \<in> {1, 2}. valid_tid t"
  by (simp add: valid_tid_def FUTEX_TID_MASK_def)

lemma two_processes: "card {1 :: tid, 2} * Suc 1 < max_live"
  by (simp add: max_live_def)

definition futex_spec_interrupted :: "(futex_globals, futex_locals) spec" where
  "futex_spec_interrupted =
     \<lparr>glob = futex_globals_init\<lparr>f_holder_tid := 1\<rparr>,
      procs = (procs (spec_init {1, 2} 1 futex_globals_init))
        (1 := \<lparr>main = At_start, calls = [In_lock \<lparr>f_pc = F_cs, f_got_tid = 0, got_flag = False\<rparr>],
               iterations = 1, signal_depth = 0\<rparr>,
         2 := \<lparr>main = At_start,
               calls = [In_lock futex_locals_init, Handler_s1,
                        In_lock \<lparr>f_pc = F_l1, f_got_tid = 1, got_flag = False\<rparr>],
               iterations = 1, signal_depth = 1\<rparr>),
      failed = False\<rparr>"

lemma futex_spec_interrupted_run:
  "spec_exec_all futex_procedure 1 interrupted_run (spec_init {1, 2} 1 futex_globals_init) =
    Some futex_spec_interrupted"
  by (simp add: interrupted_run_def futex_spec_interrupted_def spec_run_simps futex_lock_unlock_def
      futex_globals_init_def futex_locals_init_def futex_read_def fun_upd_def cong: if_cong)

lemmas futex_spec_interrupted_reachable = spec_exec_all_reachable [OF futex_spec_interrupted_run]

definition pipe_spec_interrupted :: "(pipe_globals, pipe_locals) spec" where
  "pipe_spec_interrupted =
     \<lparr>glob = pipe_globals_init\<lparr>p_holder_tid := 1, p_waiters := 1\<rparr>,
      procs = (procs (spec_init {1, 2} 1 pipe_globals_init))
        (1 := \<lparr>main = At_start, calls = [In_lock \<lparr>p_pc = P_cs, p_got_tid = 0, pending_byte = False\<rparr>],
               iterations = 1, signal_depth = 0\<rparr>,
         2 := \<lparr>main = At_start,
               calls = [In_lock pipe_locals_init, Handler_s1,
                        In_lock \<lparr>p_pc = P_l2, p_got_tid = 1, pending_byte = True\<rparr>],
               iterations = 1, signal_depth = 1\<rparr>),
      failed = False\<rparr>"

definition pipe_interrupted_run :: "(tid \<times> choice) list" where
  "pipe_interrupted_run =
     [(1, Skip), (1, Skip), (2, Skip), (2, Skip), (2, Skip), (2, Skip), (2, Skip), (2, Interrupt), (2, Skip)]"

lemma pipe_spec_interrupted_run:
  "spec_exec_all pipe_procedure 1 pipe_interrupted_run (spec_init {1, 2} 1 pipe_globals_init) =
    Some pipe_spec_interrupted"
  by (simp add: pipe_interrupted_run_def pipe_spec_interrupted_def spec_run_simps pipe_lock_unlock_def
      pipe_globals_init_def pipe_locals_init_def pipe_read_holder_def fun_upd_def cong: if_cong)

lemmas pipe_spec_interrupted_reachable = spec_exec_all_reachable [OF pipe_spec_interrupted_run]

text \<open>A completed run: the processes take turns.\<close>

definition one_after_another :: "nat \<Rightarrow> (tid \<times> choice) list" where
  "one_after_another n = replicate n (1, Skip) @ replicate n (2, Skip)"

definition all_at_done :: "'g \<Rightarrow> ('g, 'v) spec" where
  "all_at_done g =
     \<lparr>glob = g, procs = (\<lambda>_. \<lparr>main = At_Done, calls = [], iterations = 0, signal_depth = 0\<rparr>), failed = False\<rparr>"

lemma all_at_done: "all_done (all_at_done g)"
  by (simp add: all_done_def all_at_done_def)

lemma futex_spec_completed:
  "spec_exec_all futex_procedure 1 (one_after_another 9) (spec_init {1, 2} 1 futex_globals_init) =
    Some (all_at_done futex_globals_init)"
  by (simp add: one_after_another_def all_at_done_def spec_run_simps futex_lock_unlock_def eval_nat_numeral
      futex_globals_init_def futex_locals_init_def futex_read_def fun_upd_def cong: if_cong)

lemma pipe_spec_completed:
  "spec_exec_all pipe_procedure 1 (one_after_another 9) (spec_init {1, 2} 1 pipe_globals_init) =
    Some (all_at_done pipe_globals_init)"
  by (simp add: one_after_another_def all_at_done_def spec_run_simps pipe_lock_unlock_def eval_nat_numeral
      pipe_globals_init_def pipe_locals_init_def pipe_read_holder_def fun_upd_def cong: if_cong)

end
