(* ===== verification/Lock_Clients.thy ===== *)
theory Lock_Clients
  imports Futex_Termination Pipe_Progress
begin

text \<open>
  The client of the benchmark (\<open>contend_lock\<close> in \<open>signal_lock/benches/lock.rs\<close>), whose critical section
  increments the item, and short schedules of two threads and a signal handler that the examples
  below evaluate.
\<close>

section \<open>The critical section \<open>*guard += 1\<close>\<close>

text \<open>A load and a store: without mutual exclusion an increment could be lost between the two.\<close>

datatype increment = Load | Store "64 word" | Stored

fun increment_body :: "increment \<Rightarrow> 64 word \<Rightarrow> (increment \<times> 64 word) option" where
  "increment_body Load x = Some (Store (x + 1), x)"
| "increment_body (Store v) x = Some (Stored, v)"
| "increment_body Stored x = None"

fun increment_steps :: "increment \<Rightarrow> nat" where
  "increment_steps Load = 2"
| "increment_steps (Store v) = 1"
| "increment_steps Stored = 0"

lemma increment_bounded: "body_bounded increment_body increment_steps"
  unfolding body_bounded_def
proof (intro allI impI)
  fix l x l' x'
  show "increment_body l x = Some (l', x') \<Longrightarrow> increment_steps l' < increment_steps l"
    by (cases l) auto
qed


section \<open>No update is lost\<close>

text \<open>The number of activations that return in a run and satisfy \<open>P\<close> then.\<close>

fun returns :: "('m, 'p) lock_code \<Rightarrow> ('p \<Rightarrow> bool) \<Rightarrow> event list \<Rightarrow> ('m, 'p) sys \<Rightarrow> nat" where
  "returns L P [] s = 0"
| "returns L P (e # es) s =
     (case exec L e s of
        None \<Rightarrow> 0
      | Some s' \<Rightarrow>
          (case e of Return t \<Rightarrow> count_of P (take 1 (stacks s t)) | _ \<Rightarrow> 0) + returns L P es s')"

text \<open>
  \<open>stored p\<close>: the activation has written the incremented item; \<open>fresh m p\<close>: the value an activation
  is about to store is the successor of the item.
\<close>

locale counted_lock = exclusive_lock L m0 own item holds
  for L :: "('m, 'p) lock_code" and m0 :: 'm and own :: "'m \<Rightarrow> tid" and item :: "'m \<Rightarrow> 64 word"
    and holds :: "'p \<Rightarrow> bool" +
  fixes stored succeeded :: "'p \<Rightarrow> bool" and fresh :: "'m \<Rightarrow> 'p \<Rightarrow> bool"
  assumes start_not_stored: "\<not> stored (start L)"
    and fresh_idle: "\<not> holds p \<Longrightarrow> fresh m p"
    and act_counts: "tid_ok L t \<Longrightarrow> act L t c m p = Some (m', p') \<Longrightarrow> fresh m p \<Longrightarrow>
      item m' = item m + (if stored p' \<and> \<not> stored p then 1 else 0) \<and> (stored p \<longrightarrow> stored p') \<and> fresh m' p'"
    and finished_stored: "finished L p \<Longrightarrow> succeeded p \<longleftrightarrow> stored p"
    and fresh_item: "item m' = item m \<Longrightarrow> fresh m p \<Longrightarrow> fresh m' p"
begin

abbreviation "all_fresh s \<equiv> (\<forall>t. \<forall>p \<in> set (stacks s t). fresh (mem s) p)"

lemma run_fresh:
  assumes r: "reachable L m0 s" and fresh: "all_fresh s" and stk: "stacks s t = p # ps"
    and act: "act L t c (mem s) p = Some (m', p')" and p': "fresh m' p'"
    and q: "q \<in> set (((stacks s)(t := p' # ps)) u)"
  shows "fresh m' q"
proof (cases "u = t \<and> q = p' \<or> \<not> holds q")
  case False
  with q stk have q': "q \<in> set (stacks s u)" "u \<noteq> t \<or> q \<in> set ps" "holds q" by (auto split: if_splits)
  have "owner_inv own holds s" using reachable_owner_inv [OF r] by simp
  then have "\<not> holds p" using stk q' by (rule other_not_holds)
  with act_item act have "item m' = item (mem s)" by simp
  with fresh q'(1) fresh_item show ?thesis by blast
qed (use p' fresh_idle in auto)

lemma counted_step:
  assumes r: "reachable L m0 s" and fresh: "all_fresh s" and e: "exec L e s = Some s'"
  shows "all_fresh s' \<and>
    item (mem s') + of_nat (total stored s) = item (mem s) + of_nat (total stored s' + returns L succeeded [e] s)"
proof -
  have step: "sys_step L e s s'" using e by (simp add: sys_step_exec)
  show ?thesis
    using step
  proof cases
    case (call t)
    with fresh fresh_idle start_free start_not_stored e
      sum_fun_upd [of "\<lambda>_. count_of stored" "stacks s" t "start L # stacks s t"] show ?thesis
      by (auto simp: total_def)
  next
    case (return t p ps)
    have "total stored s = total stored s' + (if stored p then 1 else 0)"
      using sum_fun_upd [of "\<lambda>_. count_of stored" "stacks s" t ps] return(2,3)
      by (simp add: total_def split: if_splits)
    moreover have "returns L succeeded [e] s = (if stored p then 1 else 0)"
      using e return(1,3) finished_stored [OF return(4)] by simp
    moreover have "fresh (mem s) q" if "q \<in> set (stacks s' u)" for q u
      using fresh [rule_format, of q u] that return(2,3) by (cases "u = t") auto
    ultimately show ?thesis using return(2) by simp
  next
    case (run t p ps c m' p')
    have ok: "tid_ok L t" using reachable_tid_ok [OF r] run by simp
    have "fresh (mem s) p" using fresh [rule_format, of p t] run by simp
    note counts = act_counts [OF ok run(5) this]
    have "total stored s' = total stored s + (if stored p' \<and> \<not> stored p then 1 else 0)"
      using sum_fun_upd [of "\<lambda>_. count_of stored" "stacks s" t "p' # ps"] run(2,3) counts
      by (simp add: total_def split: if_splits)
    moreover have "returns L succeeded [e] s = 0" using e run(1) by simp
    moreover have "all_fresh s'"
      using run_fresh [OF r fresh run(3,5)] counts run(2) by simp
    ultimately show ?thesis using counts run(2) by simp
  qed
qed

text \<open>The item counts the activations that have stored or returned successfully.\<close>

lemma counted_run:
  assumes "reachable L m0 s" and "all_fresh s" and "exec_all L es s = Some s'"
  shows "item (mem s') + of_nat (total stored s) = item (mem s) + of_nat (total stored s' + returns L succeeded es s)"
  using assms
proof (induction es arbitrary: s)
  case (Cons e es)
  then obtain s1 where e: "exec L e s = Some s1" and es: "exec_all L es s1 = Some s'"
    by (auto split: option.splits)
  have r1: "reachable L m0 s1" using reachable.step [OF Cons.prems(1)] e by (simp add: sys_step_exec)
  note one = counted_step [OF Cons.prems(1,2) e]
  have "item (mem s') + of_nat (total stored s1) = item (mem s1) + of_nat (total stored s' + returns L succeeded es s1)"
    using Cons.IH [OF r1 _ es] one by blast
  then have "item (mem s') + of_nat (total stored s) + of_nat (total stored s1) =
    item (mem s1) + of_nat (total stored s) + of_nat (total stored s' + returns L succeeded es s1)"
    by (simp add: add_ac)
  also have "\<dots> = item (mem s) + of_nat (total stored s' + returns L succeeded (e # es) s) + of_nat (total stored s1)"
    using one e by (simp add: add_ac)
  finally show ?case by simp
qed simp

lemma no_lost_update:
  assumes run: "exec_all L es (init_sys m0) = Some s" and "idle s"
  shows "item (mem s) = item m0 + of_nat (returns L succeeded es (init_sys m0))"
proof -
  have "total stored s = 0" using assms(2) by (simp add: total_def idle_def)
  with counted_run [OF reachable.initial _ run] show ?thesis by (simp add: total_def)
qed

end

subsection \<open>\<open>FutexLock\<close> as the benchmark's lock\<close>

fun futex_stored :: "increment futex_pc \<Rightarrow> bool" where
  "futex_stored (Futex_Lock.Guarded l) = (l = Stored)"
| "futex_stored UnlockWake = True"
| "futex_stored (Futex_Lock.Done r) = (r = Inr ())"
| "futex_stored (Futex_Lock.Aborted (WaitFailure e)) = False"
| "futex_stored (Futex_Lock.Aborted a) = True"
| "futex_stored _ = False"

fun futex_succeeded :: "'l futex_pc \<Rightarrow> bool" where
  "futex_succeeded (Futex_Lock.Done r) = (r = Inr ())"
| "futex_succeeded _ = False"

fun futex_fresh :: "64 word futex_lock \<Rightarrow> increment futex_pc \<Rightarrow> bool" where
  "futex_fresh m (Futex_Lock.Guarded (Store v)) = (v = futex_lock.item m + 1)"
| "futex_fresh m p = True"

interpretation futex_count: counted_lock "futex_code dbg increment_body Load" "futex_lock_new x0" futex_owner
    futex_lock.item futex_holds futex_stored futex_succeeded futex_fresh
    for dbg x0
proof (unfold_locales, goal_cases)
  case (2 p m)
  then show ?case by (cases p) simp_all
next
  case (3 t c m p m' p')
  then show ?case
  proof (cases p)
    case (Guarded l)
    with 3 show ?thesis
      by (cases l) (auto simp: Futex_Lock.guarded_def raw_unlock_def Let_def split: if_splits)
  qed (auto simp: futex_defs Let_def split: futex_splits)
next
  case (4 p)
  then show ?case by (cases p) simp_all
next
  case (5 m' m p)
  then show ?case by (cases "(m, p)" rule: futex_fresh.cases) simp_all
qed simp_all

subsection \<open>\<open>PipeLock\<close> as the benchmark's lock\<close>

fun pipe_stored :: "increment pipe_pc \<Rightarrow> bool" where
  "pipe_stored (Guarded l cont) = (l = Stored)"
| "pipe_stored (CheckWaiters cont) = True"
| "pipe_stored WriteByte = True"
| "pipe_stored (Done r) = (r = Inr ())"
| "pipe_stored (Aborted a) = (case a of NotHeldByThread t u \<Rightarrow> True | WriteFailed e \<Rightarrow> True | _ \<Rightarrow> False)"
| "pipe_stored _ = False"

fun pipe_succeeded :: "'l pipe_pc \<Rightarrow> bool" where
  "pipe_succeeded (Done r) = (r = Inr ())"
| "pipe_succeeded _ = False"

fun pipe_fresh :: "64 word pipe_lock \<Rightarrow> increment pipe_pc \<Rightarrow> bool" where
  "pipe_fresh m (Guarded (Store v) cont) = (v = item m + 1)"
| "pipe_fresh m p = True"

interpretation pipe_count: counted_lock "pipe_code dbg cap increment_body Load" "pipe_lock_init x0" holder_tid
    item pipe_holds pipe_stored pipe_succeeded pipe_fresh
    for dbg cap x0
proof (unfold_locales, goal_cases)
  case (2 p m)
  then show ?case by (cases p) simp_all
next
  case (3 t c m p m' p')
  then show ?case
  proof (cases p)
    case (Guarded l cont)
    with 3 show ?thesis
      by (cases l) (auto simp: guarded_def unlock_def Let_def split: if_splits)
  qed (auto simp: pipe_defs Let_def split: pipe_splits)
next
  case (4 p)
  then show ?case by (cases p) simp_all
next
  case (5 m' m p)
  then show ?case by (cases "(m, p)" rule: pipe_fresh.cases) simp_all
qed simp_all

section \<open>Schedules\<close>

abbreviation "futex_client \<equiv> futex_code True increment_body Load"
abbreviation "pipe_client \<equiv> pipe_code True (Suc 1) increment_body Load"

definition runs :: "tid \<Rightarrow> nat \<Rightarrow> event list" where
  "runs t n = replicate n (Run t Normal)"

lemma runs_unfold:
  "runs t 0 = []" "runs t (Suc n) = Run t Normal # runs t n"
  "runs t (numeral k) = Run t Normal # runs t (pred_numeral k)" "runs t 1 = [Run t Normal]"
  by (simp_all add: runs_def numeral_eq_Suc)

lemmas run_simps = code_simps runs_unfold init_sys_def max_live_def Let_def

lemmas futex_run_simps = run_simps futex_lock_new_def valid_tid_def FUTEX_TID_MASK_def FUTEX_WAITERS_def

lemmas pipe_run_simps = run_simps pipe_lock_init_def

text \<open>Thread 1 takes the lock, thread 2 finds it held and goes to sleep in the kernel.\<close>

definition futex_contended_run :: "event list" where
  "futex_contended_run = Call 1 # runs 1 1 @ Call 2 # runs 2 3"

definition futex_contended :: "(64 word futex_lock, increment futex_pc) sys" where
  "futex_contended =
     \<lparr>mem = (futex_lock_new 0)\<lparr>futex := 0x80000001, sleepers := {2}\<rparr>,
      stacks = (\<lambda>_. [])(1 := [Futex_Lock.Guarded Load], 2 := [FutexAsleep 0x80000001]), live = 2\<rparr>"

lemma futex_contended_reachable: "reachable futex_client (futex_lock_new 0) futex_contended"
  by (rule exec_all_reachable [where es = futex_contended_run])
    (simp add: futex_contended_run_def futex_contended_def futex_run_simps fun_upd_def cong: if_cong)

text \<open>Thread 1 goes on, unlocks and wakes thread 2, which increments the item in its turn.\<close>

definition futex_full_run :: "event list" where
  "futex_full_run = futex_contended_run @ runs 1 3 @ Run 1 (Wake 2) # runs 2 7 @ [Return 1, Return 2]"

lemma futex_full:
  "exec_all futex_client futex_full_run (init_sys (futex_lock_new 0)) =
     Some (init_sys ((futex_lock_new 0)\<lparr>futex_lock.item := 2\<rparr>))"
  by (simp add: futex_full_run_def futex_contended_run_def futex_run_simps fun_upd_def cong: if_cong)

text \<open>A signal handler interrupts thread 1, which holds the lock, and tries to take it again.\<close>

definition futex_signalled :: "(64 word futex_lock, increment futex_pc) sys" where
  "futex_signalled =
     \<lparr>mem = (futex_lock_new 0)\<lparr>futex := 1\<rparr>,
      stacks = (\<lambda>_. [])(1 := [RawLock, Futex_Lock.Guarded Load]), live = 2\<rparr>"

definition futex_refused :: "(64 word futex_lock, increment futex_pc) sys" where
  "futex_refused = futex_signalled\<lparr>stacks := (\<lambda>_. [])(1 := [Futex_Lock.Done (Inl Recursive), Futex_Lock.Guarded Load])\<rparr>"

lemma futex_signalled_reachable: "reachable futex_client (futex_lock_new 0) futex_signalled"
  by (rule exec_all_reachable [where es = "[Call 1, Run 1 Normal, Call 1]"])
    (simp add: futex_signalled_def futex_run_simps fun_upd_def cong: if_cong)

lemma futex_refused_step: "sys_step futex_client (Run 1 Normal) futex_signalled futex_refused"
  by (simp add: sys_step_exec futex_refused_def futex_signalled_def futex_run_simps fun_upd_def cong: if_cong)

subsection \<open>The same for \<open>PipeLock\<close>\<close>

text \<open>Thread 2 has registered as a waiter and is blocked in \<open>read\<close>.\<close>

definition pipe_contended_run :: "event list" where
  "pipe_contended_run = Call 1 # runs 1 1 @ Call 2 # runs 2 3"

definition pipe_contended :: "(64 word pipe_lock, increment pipe_pc) sys" where
  "pipe_contended =
     \<lparr>mem = (pipe_lock_init 0)\<lparr>holder_tid := 1, waiters := 1\<rparr>,
      stacks = (\<lambda>_. [])(1 := [Guarded Load False], 2 := [ReadByte]), live = 2\<rparr>"

lemma pipe_contended_reachable: "reachable pipe_client (pipe_lock_init 0) pipe_contended"
  by (rule exec_all_reachable [where es = pipe_contended_run])
    (simp add: pipe_contended_run_def pipe_contended_def pipe_run_simps fun_upd_def cong: if_cong)

text \<open>
  Thread 1 unlocks and writes a byte, thread 2 reads it and increments in its turn; the byte it
  writes itself, because it had to contend, stays in the pipe.
\<close>

definition pipe_full_run :: "event list" where
  "pipe_full_run = pipe_contended_run @ runs 1 5 @ runs 2 8 @ [Return 1, Return 2]"

lemma pipe_full:
  "exec_all pipe_client pipe_full_run (init_sys (pipe_lock_init 0)) =
     Some (init_sys ((pipe_lock_init 0)\<lparr>item := 2, pipe_bytes := 1\<rparr>))"
  by (simp add: pipe_full_run_def pipe_contended_run_def pipe_run_simps fun_upd_def cong: if_cong)

definition pipe_signalled :: "(64 word pipe_lock, increment pipe_pc) sys" where
  "pipe_signalled =
     \<lparr>mem = (pipe_lock_init 0)\<lparr>holder_tid := 1\<rparr>,
      stacks = (\<lambda>_. [])(1 := [TryLock, Guarded Load False]), live = 2\<rparr>"

definition pipe_refused :: "(64 word pipe_lock, increment pipe_pc) sys" where
  "pipe_refused = pipe_signalled\<lparr>stacks := (\<lambda>_. [])(1 := [Done (Inl Recursive), Guarded Load False])\<rparr>"

lemma pipe_signalled_reachable: "reachable pipe_client (pipe_lock_init 0) pipe_signalled"
  by (rule exec_all_reachable [where es = "[Call 1, Run 1 Normal, Call 1]"])
    (simp add: pipe_signalled_def pipe_run_simps fun_upd_def cong: if_cong)

lemma pipe_refused_step: "sys_step pipe_client (Run 1 Normal) pipe_signalled pipe_refused"
  by (simp add: sys_step_exec pipe_refused_def pipe_signalled_def pipe_run_simps fun_upd_def cong: if_cong)

end
