(* ===== verification/Lock_Serial.thy ===== *)
theory Lock_Serial
  imports Futex_Lock Pipe_Lock
begin

text \<open>
  Critical sections are serializable. The threads interleave their critical sections step by step
  with everything else; the locale \<open>serial_lock\<close> shows that the item nevertheless is what the
  sections produce when each of them runs alone from its first to its last step, one after the other
  in the order in which they take the lock. Clients of a lock can therefore be verified
  sequentially.
\<close>

section \<open>Running a critical section alone\<close>

text \<open>One step of the client's code inside the section, and the section from a program point to its end.\<close>

definition body_step :: "('l \<Rightarrow> 'a \<Rightarrow> ('l \<times> 'a) option) \<Rightarrow> 'l \<times> 'a \<Rightarrow> 'l \<times> 'a \<Rightarrow> bool" where
  "body_step body = (\<lambda>(l, x) next. body l x = Some next)"

inductive section_from :: "('l \<Rightarrow> 'a \<Rightarrow> ('l \<times> 'a) option) \<Rightarrow> 'l \<Rightarrow> 'a \<Rightarrow> 'a \<Rightarrow> bool"
  for body :: "'l \<Rightarrow> 'a \<Rightarrow> ('l \<times> 'a) option" where
  section_ends: "body l x = None \<Longrightarrow> section_from body l x x"
| section_goes: "body l x = Some (l', x') \<Longrightarrow> section_from body l' x' y \<Longrightarrow> section_from body l x y"

text \<open>The section is deterministic, so that a run of it is evaluated by rewriting.\<close>

lemma section_from_unfold:
  "section_from body l x y \<longleftrightarrow>
     (case body l x of None \<Rightarrow> y = x | Some (l', x') \<Rightarrow> section_from body l' x' y)"
  by (subst section_from.simps) (auto split: option.splits)

lemma section_from_steps:
  assumes "(body_step body)\<^sup>*\<^sup>* (l, x) (l', x')" and "body l' x' = None"
  shows "section_from body l x x'"
  using assms(1)
proof (induction "(l, x)" arbitrary: l x rule: converse_rtranclp_induct)
  case base
  show ?case by (rule section_ends) (rule assms(2))
next
  case (step z)
  then show ?case by (cases z) (auto simp: body_step_def intro: section_goes)
qed

lemma section_from_functional:
  assumes "section_from body l x y" and "section_from body l x z"
  shows "y = z"
  using assms
proof induction
  case (section_ends l x)
  then show ?case by (simp add: section_from_unfold [of body l x])
next
  case (section_goes l x l' x' y)
  then show ?case by (simp add: section_from_unfold [of body l x])
qed

section \<open>Serializability\<close>

text \<open>
  \<open>local p\<close> is the client's local state at a program point inside the critical section. A step of
  the holder is a step of the client, leaves the section at its end, or belongs to the lock itself.
\<close>

locale serial_lock = exclusive_lock L m0 own item holds
  for L :: "('m, 'p) lock_code" and m0 :: 'm and own :: "'m \<Rightarrow> tid" and item :: "'m \<Rightarrow> 'a"
    and holds :: "'p \<Rightarrow> bool" +
  fixes body :: "'l \<Rightarrow> 'a \<Rightarrow> ('l \<times> 'a) option" and first :: 'l and local :: "'p \<Rightarrow> 'l option"
  assumes local_holds: "holds p \<longleftrightarrow> local p \<noteq> None"
    and enters: "act L t c m p = Some (m', p') \<Longrightarrow> local p = None \<Longrightarrow> local p' \<noteq> None \<Longrightarrow> local p' = Some first"
    and inside: "act L t c m p = Some (m', p') \<Longrightarrow> local p = Some l \<Longrightarrow> local p' = Some l' \<Longrightarrow>
      l' = l \<and> item m' = item m \<or> body l (item m) = Some (l', item m')"
    and leaves: "act L t c m p = Some (m', p') \<Longrightarrow> local p = Some l \<Longrightarrow> local p' = None \<Longrightarrow>
      body l (item m) = None \<and> item m' = item m"
begin

definition serial :: "'a \<Rightarrow> bool" where
  "serial x \<longleftrightarrow> (section_from body first)\<^sup>*\<^sup>* (item m0) x"

definition within :: "'l \<Rightarrow> 'a \<Rightarrow> bool" where
  "within l x \<longleftrightarrow> (\<exists>x0. serial x0 \<and> (body_step body)\<^sup>*\<^sup>* (first, x0) (l, x))"

definition serial_inv :: "('m, 'p) sys \<Rightarrow> bool" where
  "serial_inv s \<longleftrightarrow> (own (mem s) = 0 \<longrightarrow> serial (item (mem s))) \<and>
     (\<forall>t. \<forall>q \<in> set (stacks s t). \<forall>l. local q = Some l \<longrightarrow> within l (item (mem s)))"

lemma serial_invI:
  assumes "own (mem s) = 0 \<Longrightarrow> serial (item (mem s))"
    and "\<And>q u l. q \<in> set (stacks s u) \<Longrightarrow> local q = Some l \<Longrightarrow> within l (item (mem s))"
  shows "serial_inv s"
  using assms unfolding serial_inv_def by blast

lemma serial_invD:
  "serial_inv s \<Longrightarrow> own (mem s) = 0 \<Longrightarrow> serial (item (mem s))"
  "serial_inv s \<Longrightarrow> q \<in> set (stacks s u) \<Longrightarrow> local q = Some l \<Longrightarrow> within l (item (mem s))"
  unfolding serial_inv_def by blast+

lemma within_first: "serial x \<Longrightarrow> within first x"
  unfolding within_def by blast

lemma within_step: "within l x \<Longrightarrow> body l x = Some (l', x') \<Longrightarrow> within l' x'"
  unfolding within_def by (auto simp: body_step_def intro: rtranclp.rtrancl_into_rtrancl)

lemma within_end: "within l x \<Longrightarrow> body l x = None \<Longrightarrow> serial x"
  unfolding within_def serial_def
  by (auto intro: rtranclp.rtrancl_into_rtrancl dest: section_from_steps)

lemma outside_serial_inv:
  assumes inv: "serial_inv s" and stk: "stacks s t = p # ps" and ok: "tid_ok L t"
    and act: "act L t c (mem s) p = Some (m', p')" and p: "\<not> holds p"
  shows "serial_inv (s\<lparr>mem := m', stacks := (stacks s)(t := p' # ps)\<rparr>)" (is "serial_inv ?s'")
proof -
  have item: "item m' = item (mem s)" by (rule act_item [OF act p])
  have own: "own m' = 0 \<Longrightarrow> own (mem s) = 0"
    using act_keeps [OF ok act] act_acquires [OF ok act] p tid_nonzero [OF ok] by metis
  have "within l (item (mem s))" if "local p' = Some l" for l
  proof -
    have "l = first" using enters [OF act] p local_holds [of p] that by auto
    moreover have "own (mem s) = 0"
      using act_acquires [OF ok act p] local_holds [of p'] that by simp
    ultimately show ?thesis using serial_invD(1) [OF inv] by (simp add: within_first)
  qed
  then have "within l (item m')" if "q \<in> set (stacks ?s' u)" "local q = Some l" for q u l
    using that stk serial_invD(2) [OF inv, of q u l] by (cases "u = t") (auto simp: item)
  then show ?thesis
    using own serial_invD(1) [OF inv] by (intro serial_invI) (simp_all add: item)
qed

lemma inside_serial_inv:
  assumes r: "reachable L m0 s" and inv: "serial_inv s" and stk: "stacks s t = p # ps"
    and ok: "tid_ok L t" and act: "act L t c (mem s) p = Some (m', p')" and p: "holds p"
  shows "serial_inv (s\<lparr>mem := m', stacks := (stacks s)(t := p' # ps)\<rparr>)" (is "serial_inv ?s'")
proof -
  have oinv: "owner_inv own holds s" by (rule reachable_owner_inv [OF r])
  obtain l where l: "local p = Some l" using p local_holds by blast
  have w: "within l (item (mem s))" using serial_invD(2) [OF inv _ l, of t] stk by simp
  have own: "own (mem s) = t" "t \<noteq> 0" using owner_inv_holds [OF oinv _ p, of t] stk by simp_all
  have others: "local q = None" if "q \<in> set (stacks s u)" "u \<noteq> t \<or> q \<in> set ps" for q u
    using other_not_holds [OF oinv stk that] p local_holds by blast
  have top: "within l' (item m')" if "local p' = Some l'" for l'
    using inside [OF act l that] w within_step by auto
  have "within l' (item m')" if "q \<in> set (stacks ?s' u)" "local q = Some l'" for q u l'
    using that others [of q u] top stk by (cases "u = t") auto
  moreover have "serial (item m')" if "own m' = 0"
  proof -
    have "\<not> holds p'" using act_keeps [OF ok act] p own that by auto
    with leaves [OF act l] within_end [OF w] local_holds show ?thesis by auto
  qed
  ultimately show ?thesis by (intro serial_invI) simp_all
qed

lemma reachable_serial_inv:
  assumes "reachable L m0 s"
  shows "serial_inv s"
  using assms
proof (induction rule: reachable.induct)
  case initial
  show ?case by (simp add: serial_inv_def serial_def)
next
  case (step s e s')
  from step.hyps(2) show ?case
  proof cases
    case (call t)
    have "local (start L) = None" using start_free local_holds by blast
    with call serial_invD [OF step.IH] show ?thesis
      by (intro serial_invI) (auto split: if_splits)
  next
    case (run t p ps c m' p')
    have "tid_ok L t" using reachable_tid_ok [OF step.hyps(1)] run by simp
    with run step.IH outside_serial_inv inside_serial_inv [OF step.hyps(1)] show ?thesis
      by (cases "holds p") auto
  next
    case (return t p ps)
    have "q \<in> set (stacks s u)" if "q \<in> set (stacks s' u)" for q u
      using that return(2,3) by (cases "u = t") auto
    moreover have "mem s' = mem s" using return(2) by simp
    ultimately show ?thesis
      using serial_invD [OF step.IH] by (intro serial_invI) (metis, metis)
  qed
qed

text \<open>
  The item of a free lock is the result of complete sections in some order; while the lock is held,
  it is that of complete sections and of the steps the holder has made.
\<close>

lemma serializable:
  assumes "reachable L m0 s" and "own (mem s) = 0"
  shows "(section_from body first)\<^sup>*\<^sup>* (item m0) (item (mem s))"
  using reachable_serial_inv [OF assms(1)] assms(2) by (simp add: serial_inv_def serial_def)

lemma serializable_held:
  assumes "reachable L m0 s" and "q \<in> set (stacks s t)" and "local q = Some l"
  obtains x where "(section_from body first)\<^sup>*\<^sup>* (item m0) x"
    and "(body_step body)\<^sup>*\<^sup>* (first, x) (l, item (mem s))"
  using serial_invD(2) [OF reachable_serial_inv [OF assms(1)] assms(2,3)]
  unfolding within_def serial_def by blast

text \<open>A step of the machine changes the item by a step of the client's code or not at all.\<close>

lemma item_step:
  assumes r: "reachable L m0 s" and step: "sys_step L e s s'"
  shows "item (mem s') = item (mem s) \<or> (\<exists>l l'. body l (item (mem s)) = Some (l', item (mem s')))"
  using step
proof cases
  case (run t p ps c m' p')
  show ?thesis
  proof (cases "local p")
    case None
    then have "\<not> holds p" using local_holds by blast
    with act_item [OF run(5)] run(2) show ?thesis by simp
  next
    case (Some l)
    with inside [OF run(5)] leaves [OF run(5)] run(2) show ?thesis by (cases "local p'") auto
  qed
qed simp_all

lemma item_later:
  assumes "reachable L m0 s" and "exec_all L es s = Some s'"
    and refl: "\<And>x. R x x" and trans: "\<And>x y z. R x y \<Longrightarrow> R y z \<Longrightarrow> R x z"
    and step: "\<And>l x l' x'. body l x = Some (l', x') \<Longrightarrow> R x x'"
  shows "R (item (mem s)) (item (mem s'))"
  using assms(1,2)
proof (induction es arbitrary: s)
  case Nil
  then show ?case by (simp add: refl)
next
  case (Cons e es)
  then obtain s1 where e: "sys_step L e s s1" and es: "exec_all L es s1 = Some s'"
    by (auto simp: sys_step_exec split: option.splits)
  have "R (item (mem s)) (item (mem s1))"
    using item_step [OF Cons.prems(1) e] refl step by auto
  moreover have "R (item (mem s1)) (item (mem s'))"
    using Cons.IH [OF reachable.step [OF Cons.prems(1) e] es] .
  ultimately show ?case by (rule trans)
qed

text \<open>
  An invariant of the item that every step of the client keeps, with what is known at each program
  point, holds in all reachable states.
\<close>

lemma item_invariant:
  assumes r: "reachable L m0 s" and I0: "I (item m0)"
    and enter: "\<And>x. I x \<Longrightarrow> J first x"
    and go: "\<And>l x l' x'. J l x \<Longrightarrow> body l x = Some (l', x') \<Longrightarrow> J l' x'"
    and exit: "\<And>l x. J l x \<Longrightarrow> body l x = None \<Longrightarrow> I x"
  shows "(own (mem s) = 0 \<and> I (item (mem s))) \<or> (\<exists>l. J l (item (mem s)))"
proof -
  have steps: "J l' x'" if "(body_step body)\<^sup>*\<^sup>* (l, x) (l', x')" "J l x" for l x l' x'
    using that by (induction "(l', x')" arbitrary: l' x' rule: rtranclp_induct) (auto simp: body_step_def intro: go)
  have whole: "I y" if "section_from body l x y" "J l x" for l x y
    using that by induction (auto intro: exit go)
  have serial: "I x" if "(section_from body first)\<^sup>*\<^sup>* (item m0) x" for x
    using that I0 by induction (auto intro: whole enter)
  show ?thesis
  proof (cases "own (mem s) = 0")
    case True
    with serial [OF serializable [OF r]] show ?thesis by simp
  next
    case False
    from owner_inv_owned [OF reachable_owner_inv [OF r] refl this] obtain q l
      where "q \<in> set (stacks s (own (mem s)))" "local q = Some l"
      using local_holds by blast
    then obtain x where "(section_from body first)\<^sup>*\<^sup>* (item m0) x"
      and "(body_step body)\<^sup>*\<^sup>* (first, x) (l, item (mem s))"
      using serializable_held [OF r] by blast
    with steps [OF _ enter [OF serial]] show ?thesis by blast
  qed
qed

end

section \<open>The two locks\<close>

fun futex_local :: "'l futex_pc \<Rightarrow> 'l option" where
  "futex_local (Futex_Lock.Guarded l) = Some l"
| "futex_local p = None"

interpretation futex_serial: serial_lock "futex_code dbg body l0" "futex_lock_new x0" futex_owner
    futex_lock.item futex_holds body l0 futex_local for dbg body l0 x0
proof (unfold_locales, goal_cases)
  case (1 p)
  show ?case by (cases p) simp_all
next
  case (2 t c m p m' p')
  then show ?case by (cases p) (auto simp: futex_defs Let_def split: futex_splits)
next
  case (3 t c m p m' p' l l')
  then show ?case by (cases p) (auto simp: Futex_Lock.guarded_def raw_unlock_def Let_def split: futex_splits)
next
  case (4 t c m p m' p' l)
  then show ?case by (cases p) (auto simp: Futex_Lock.guarded_def raw_unlock_def Let_def split: futex_splits)
qed

text \<open>A contender of \<open>PipeLock\<close> that has got the lock leaves the count of waiters before the section.\<close>

fun pipe_local :: "'l \<Rightarrow> 'l pipe_pc \<Rightarrow> 'l option" where
  "pipe_local l0 Deregister = Some l0"
| "pipe_local l0 (Guarded l contended) = Some l"
| "pipe_local l0 p = None"

interpretation pipe_serial: serial_lock "pipe_code dbg cap body l0" "pipe_lock_init x0" holder_tid item
    pipe_holds body l0 "pipe_local l0" for dbg cap body l0 x0
proof (unfold_locales, goal_cases)
  case (1 p)
  show ?case by (cases p) simp_all
next
  case (2 t c m p m' p')
  then show ?case by (cases p) (auto simp: pipe_defs Let_def split: pipe_splits)
next
  case (3 t c m p m' p' l l')
  then show ?case by (cases p) (auto simp: guarded_def unlock_def deregister_def Let_def split: pipe_splits)
next
  case (4 t c m p m' p' l)
  then show ?case by (cases p) (auto simp: guarded_def unlock_def deregister_def Let_def split: pipe_splits)
qed

section \<open>Exclusive access to the item\<close>

text \<open>
  While an activation holds the lock, no step of another thread and no step of a signal handler above
  it changes the protected item.
\<close>

lemma futex_exclusive_item:
  assumes "reachable (futex_code dbg body l0) (futex_lock_new x0) s"
    and "q \<in> set (stacks s u)" and "futex_holds q"
    and "sys_step (futex_code dbg body l0) e s s'"
    and "event_thread e \<noteq> u \<or> \<not> futex_holds (hd (stacks s u))"
  shows "futex_lock.item (mem s') = futex_lock.item (mem s)"
  by (rule futex.exclusive_item [OF assms])

lemma pipe_exclusive_item:
  assumes "reachable (pipe_code dbg cap body l0) (pipe_lock_init x0) s"
    and "q \<in> set (stacks s u)" and "pipe_holds q"
    and "sys_step (pipe_code dbg cap body l0) e s s'"
    and "event_thread e \<noteq> u \<or> \<not> pipe_holds (hd (stacks s u))"
  shows "item (mem s') = item (mem s)"
  by (rule pipe.exclusive_item [OF assms])

end
