(* ===== verification/Lock_Embedding.thy ===== *)
theory Lock_Embedding
  imports Lock_Machine
begin

text \<open>
  A lock that wraps another one. When every operation of the outer lock is the operation of the inner
  one on the wrapped state, the two machines run in lockstep and every fact about the inner lock's
  runs carries over.
\<close>

definition lift_sys :: "('m \<Rightarrow> 'n) \<Rightarrow> ('p \<Rightarrow> 'q) \<Rightarrow> ('m, 'p) sys \<Rightarrow> ('n, 'q) sys" where
  "lift_sys f g s = \<lparr>mem = f (mem s), stacks = (\<lambda>t. map g (stacks s t)), live = live s\<rparr>"

lemma lift_sys_simps [simp]:
  "mem (lift_sys f g s) = f (mem s)" "stacks (lift_sys f g s) t = map g (stacks s t)"
  "live (lift_sys f g s) = live s"
  by (simp_all add: lift_sys_def)

lemma lift_init [simp]: "lift_sys f g (init_sys m) = init_sys (f m)"
  by (simp add: lift_sys_def init_sys_def)

locale lock_embedding =
  fixes L :: "('m, 'p) lock_code" and L' :: "('n, 'q) lock_code" and f :: "'m \<Rightarrow> 'n" and g :: "'p \<Rightarrow> 'q"
  assumes start_lift: "start L' = g (start L)"
    and act_lift: "act L' t c (f m) (g p) = map_option (map_prod f g) (act L t c m p)"
    and allowed_lift: "allowed L' (g p) = allowed L p"
    and finished_lift: "finished L' (g p) = finished L p"
    and sleeping_lift: "sleeping L' (g p) = sleeping L p"
    and tid_ok_lift: "tid_ok L' t = tid_ok L t"
begin

abbreviation "lift \<equiv> lift_sys f g"

lemma stacks_lift: "stacks (lift s) = (\<lambda>t. map g (stacks s t))"
  by (simp add: lift_sys_def)

lemma exec_lift: "exec L' e (lift s) = map_option lift (exec L e s)"
proof (cases e)
  case (Call t)
  then show ?thesis
    by (cases "stacks s t")
      (auto simp: lift_sys_def fun_eq_iff start_lift sleeping_lift tid_ok_lift)
next
  case (Run t c)
  then show ?thesis
    by (cases "stacks s t")
      (auto simp: lift_sys_def fun_eq_iff allowed_lift act_lift split: option.split)
next
  case (Return t)
  then show ?thesis
    by (cases "stacks s t") (auto simp: lift_sys_def fun_eq_iff finished_lift)
qed

lemma exec_all_lift: "exec_all L' es (lift s) = map_option lift (exec_all L es s)"
  by (induction es arbitrary: s) (simp_all add: exec_lift split: option.split)

lemma reachable_lift:
  assumes "reachable L' (f m0) s'"
  shows "\<exists>s. reachable L m0 s \<and> s' = lift s"
  using assms
proof (induction s' rule: reachable.induct)
  case initial
  show ?case using reachable.initial [of L m0] lift_init [of f g m0] by metis
next
  case (step s' e s'')
  then obtain s where r: "reachable L m0 s" and s': "s' = lift s" by blast
  from step.hyps(2) obtain s1 where "exec L e s = Some s1" "s'' = lift s1"
    by (auto simp: sys_step_exec s' exec_lift)
  with r show ?case by (auto intro: reachable.step simp: sys_step_exec [symmetric])
qed

lemma lift_reachable: "reachable L m0 s \<Longrightarrow> reachable L' (f m0) (lift s)"
proof (induction rule: reachable.induct)
  case initial
  show ?case by (simp add: reachable.initial)
next
  case (step s e s')
  then have "sys_step L' e (lift s) (lift s')" by (simp add: sys_step_exec exec_lift)
  with step.IH show ?case by (rule reachable.step)
qed

end

end
