(* ===== verification/Signal_Lock.thy ===== *)
theory Signal_Lock
  imports Lock_Serial Lock_Embedding
begin

text \<open>
  The crate's root (\<open>signal_lock/src/lib.rs\<close>): the choice of the implementation behind \<open>SignalLock\<close>, its
  constructor and its operations.
\<close>

section \<open>\<open>SignalLock\<close>\<close>

datatype platform = Linux | OtherUnix

text \<open>\<open>imp::Lock\<close>: \<open>FutexLock\<close> on Linux, \<open>PipeLock\<close> on the other Unix systems.\<close>

datatype 'a signal_lock = FutexImp "'a futex_lock" | PipeImp "'a pipe_lock" pipe_fds

definition signal_lock_new ::
    "platform \<Rightarrow> (int set \<Rightarrow> errno + int \<times> int) \<Rightarrow> (int \<Rightarrow> errno option) \<Rightarrow> 'a \<Rightarrow> int set \<Rightarrow>
     (pipe_new_error + 'a signal_lock) \<times> int set" where
  "signal_lock_new os pipe2 fcntl x fds =
     (case os of
        Linux \<Rightarrow> (Inr (FutexImp (futex_lock_new x)), fds)
      | OtherUnix \<Rightarrow>
          (case pipe_lock_new pipe2 fcntl x fds of
             (Inl e, fds') \<Rightarrow> (Inl e, fds')
           | (Inr (l, ends), fds') \<Rightarrow> (Inr (PipeImp l ends), fds')))"

fun signal_lock_owner :: "'a signal_lock \<Rightarrow> tid" where
  "signal_lock_owner (FutexImp l) = futex_owner l"
| "signal_lock_owner (PipeImp l ends) = holder_tid l"

fun signal_lock_fds :: "'a signal_lock \<Rightarrow> int set" where
  "signal_lock_fds (FutexImp l) = {}"
| "signal_lock_fds (PipeImp l ends) = {reader ends, writer ends}"

lemma futex_owner_new [simp]: "futex_owner (futex_lock_new x) = 0"
  by (simp add: futex_owner_def futex_lock_new_def)

text \<open>The lock that \<open>SignalLock::new\<close> makes is free, and a failure leaves no descriptor open.\<close>

lemma signal_lock_new_free:
  assumes "\<And>r w. pipe2 fds = Inr (r, w) \<Longrightarrow> r \<notin> fds \<and> w \<notin> fds \<and> r \<noteq> w"
  shows "case signal_lock_new os pipe2 fcntl x fds of
      (Inl e, fds') \<Rightarrow> os = OtherUnix \<and> fds' = fds
    | (Inr l, fds') \<Rightarrow> signal_lock_owner l = 0 \<and> fds' = fds \<union> signal_lock_fds l"
  using assms
  by (auto simp: signal_lock_new_def pipe_lock_new_def pipe_def drop_fd_def Let_def pipe_lock_init_def
      split: platform.splits sum.splits option.splits)

section \<open>Locking through \<open>SignalLock\<close>\<close>

text \<open>
  \<open>SignalLock::lock\<close> and \<open>SignalLockGuard\<close> pass every operation on to the implementation, on its own
  state and program points; \<open>Ok\<close> of the inner guard becomes \<open>Ok\<close> of the wrapping guard, \<open>Err\<close> stays.
\<close>

datatype 'l signal_pc = FutexPc "'l futex_pc" | PipePc "'l pipe_pc"

fun signal_act ::
    "bool \<Rightarrow> nat \<Rightarrow> ('l \<Rightarrow> 'a \<Rightarrow> ('l \<times> 'a) option) \<Rightarrow> 'l \<Rightarrow> tid \<Rightarrow> env \<Rightarrow> 'a signal_lock \<Rightarrow>
     'l signal_pc \<Rightarrow> ('a signal_lock \<times> 'l signal_pc) option" where
  "signal_act dbg cap body l0 t c (FutexImp m) (FutexPc p) =
     map_option (map_prod FutexImp FutexPc) (futex_act dbg body l0 t c m p)"
| "signal_act dbg cap body l0 t c (PipeImp m ends) (PipePc p) =
     map_option (map_prod (\<lambda>m. PipeImp m ends) PipePc) (pipe_act dbg cap body l0 t c m p)"
| "signal_act dbg cap body l0 t c l p = None"

fun signal_allowed :: "'l signal_pc \<Rightarrow> env \<Rightarrow> bool" where
  "signal_allowed (FutexPc p) c = futex_allowed p c"
| "signal_allowed (PipePc p) c = pipe_allowed p c"

fun signal_finished :: "'l signal_pc \<Rightarrow> bool" where
  "signal_finished (FutexPc p) = futex_finished p"
| "signal_finished (PipePc p) = pipe_finished p"

fun signal_sleeping :: "'l signal_pc \<Rightarrow> bool" where
  "signal_sleeping (FutexPc p) = futex_sleeping p"
| "signal_sleeping (PipePc p) = False"

definition signal_code ::
    "platform \<Rightarrow> bool \<Rightarrow> nat \<Rightarrow> ('l \<Rightarrow> 'a \<Rightarrow> ('l \<times> 'a) option) \<Rightarrow> 'l \<Rightarrow>
     ('a signal_lock, 'l signal_pc) lock_code" where
  "signal_code os dbg cap body l0 =
     \<lparr>start = (case os of Linux \<Rightarrow> FutexPc RawLock | OtherUnix \<Rightarrow> PipePc TryLock),
      act = signal_act dbg cap body l0, allowed = signal_allowed,
      finished = signal_finished, sleeping = signal_sleeping,
      tid_ok = (case os of Linux \<Rightarrow> valid_tid | OtherUnix \<Rightarrow> \<lambda>t. t \<noteq> 0)\<rparr>"

fun signal_lock_item :: "'a signal_lock \<Rightarrow> 'a" where
  "signal_lock_item (FutexImp l) = futex_lock.item l"
| "signal_lock_item (PipeImp l ends) = pipe_lock.item l"

interpretation signal_linux: lock_embedding "futex_code dbg body l0" "signal_code Linux dbg cap body l0"
    FutexImp FutexPc for dbg cap body l0
  by unfold_locales (simp_all add: signal_code_def fun_eq_iff)

interpretation signal_unix: lock_embedding "pipe_code dbg cap body l0" "signal_code OtherUnix dbg cap body l0"
    "\<lambda>m. PipeImp m ends" PipePc for dbg cap body l0 ends
  by unfold_locales (simp_all add: signal_code_def fun_eq_iff)

text \<open>The runs of the lock are those of the implementation, schedule by schedule.\<close>

lemma signal_lock_runs:
  assumes "signal_lock_new os pipe2 fcntl x fds = (Inr l, fds')"
  shows "exec_all (signal_code os dbg cap body l0) es (init_sys l) =
    (case l of
       FutexImp m \<Rightarrow> map_option (lift_sys FutexImp FutexPc) (exec_all (futex_code dbg body l0) es (init_sys m))
     | PipeImp m ends \<Rightarrow> map_option (lift_sys (\<lambda>m. PipeImp m ends) PipePc)
         (exec_all (pipe_code dbg cap body l0) es (init_sys m)))"
  using assms
    signal_linux.exec_all_lift [where s = "init_sys m" for m, unfolded lift_init]
    signal_unix.exec_all_lift [where s = "init_sys m" for m, unfolded lift_init]
  by (auto simp: signal_lock_new_def split: platform.splits sum.splits prod.splits)

text \<open>A run of a lock that \<open>SignalLock::new\<close> has made is a run of the platform's implementation.\<close>

lemma signal_lock_cases:
  assumes new: "signal_lock_new os pipe2 fcntl x fds = (Inr l, fds')"
    and r: "reachable (signal_code os dbg cap body l0) l s"
  obtains (futex) s1 where "os = Linux" "reachable (futex_code dbg body l0) (futex_lock_new x) s1"
      "s = lift_sys FutexImp FutexPc s1"
  | (pipe) s1 ends where "os = OtherUnix" "reachable (pipe_code dbg cap body l0) (pipe_lock_init x) s1"
      "s = lift_sys (\<lambda>m. PipeImp m ends) PipePc s1"
proof (cases os)
  case Linux
  with new have "l = FutexImp (futex_lock_new x)" by (simp add: signal_lock_new_def)
  with r Linux signal_linux.reachable_lift [of dbg cap body l0 "futex_lock_new x" s] futex show ?thesis by auto
next
  case OtherUnix
  with new obtain ends where "l = PipeImp (pipe_lock_init x) ends"
    by (auto simp: signal_lock_new_def pipe_lock_new_def split: sum.splits prod.splits)
  with r OtherUnix signal_unix.reachable_lift [of dbg cap body l0 "pipe_lock_init x" ends s] pipe show ?thesis
    by auto
qed

text \<open>The item of a free \<open>SignalLock\<close> is the result of complete critical sections, one after the other.\<close>

lemma signal_serial:
  assumes new: "signal_lock_new os pipe2 fcntl x fds = (Inr l, fds')"
    and r: "reachable (signal_code os dbg cap body l0) l s" and "signal_lock_owner (mem s) = 0"
  shows "(section_from body l0)\<^sup>*\<^sup>* x (signal_lock_item (mem s))"
  using new r
proof (cases rule: signal_lock_cases)
  case (futex s1)
  with futex_serial.serializable [OF futex(2)] assms(3) show ?thesis by (simp add: futex_lock_new_def)
next
  case (pipe s1 ends)
  with pipe_serial.serializable [OF pipe(2)] assms(3) show ?thesis by (simp add: pipe_lock_init_def)
qed

end
