(* ===== verification/Signal_Clients.thy ===== *)
theory Signal_Clients
  imports Lock_Clients Signal_Lock
begin

text \<open>
  The contracts of the two implementations, read off \<open>SignalLock\<close>: progress, refinement of the
  abstract lock and the benchmark's counter, for the platform's implementation of a lock that
  \<open>SignalLock::new\<close> has made.
\<close>

section \<open>Steps of an embedded lock\<close>

context lock_embedding
begin

lemma step_lift: "sys_step L e s s' \<Longrightarrow> sys_step L' e (lift s) (lift s')"
  by (simp add: sys_step_exec exec_lift)

lemma lifted_step:
  assumes "sys_step L' e (lift s) s'"
  shows "\<exists>s1. sys_step L e s s1 \<and> s' = lift s1"
  using assms by (auto simp: sys_step_exec exec_lift)

lemma quiet_step_lift: "quiet_step L s s' \<Longrightarrow> quiet_step L' (lift s) (lift s')"
  unfolding quiet_step_def using step_lift by blast

lemma idle_lift: "idle (lift s) \<longleftrightarrow> idle s"
  by (simp add: idle_def)

lemma returns_lift:
  assumes "\<And>p. P' (g p) \<longleftrightarrow> P p"
  shows "returns L' P' es (lift s) = returns L P es s"
proof (induction es arbitrary: s)
  case (Cons e es)
  have "count_of P' (take 1 (map g xs)) = count_of P (take 1 xs)" for xs
    by (cases xs) (simp_all add: assms)
  then show ?case
    by (simp add: exec_lift Cons.IH split: option.split event.split)
qed simp

end

section \<open>The two implementations\<close>

lemma futex_mutual_exclusion:
  assumes "reachable (futex_code dbg body l0) (futex_lock_new x0) s"
  shows "total futex_holds s \<le> 1 \<and>
    (\<forall>t. count_of futex_holds (stacks s t) = (if t \<noteq> 0 \<and> futex_owner (mem s) = t then 1 else 0))"
  using futex.one_holder [OF assms] futex.reachable_inv [OF assms] by (simp add: owner_inv_def)

lemma pipe_mutual_exclusion:
  assumes "reachable (pipe_code dbg cap body l0) (pipe_lock_init x0) s"
  shows "total pipe_holds s \<le> 1 \<and>
    (\<forall>t. count_of pipe_holds (stacks s t) = (if t \<noteq> 0 \<and> holder_tid (mem s) = t then 1 else 0))"
  using pipe.one_holder [OF assms] pipe.reachable_inv [OF assms] by (simp add: owner_inv_def)

lemma futex_no_deadlock:
  assumes "reachable (futex_code dbg body l0) (futex_lock_new x0) s" and "\<not> idle s"
  shows "\<exists>s'. quiet_step (futex_code dbg body l0) s s'"
  by (rule futex.no_deadlock [OF assms])

lemma pipe_no_deadlock:
  assumes "reachable (pipe_code dbg (Suc cap) body l0) (pipe_lock_init x0) s" and "\<not> idle s"
  shows "\<exists>s'. quiet_step (pipe_code dbg (Suc cap) body l0) s s'"
  by (rule pipe.no_deadlock [OF assms])

lemma futex_refines_lock:
  assumes "reachable (futex_code dbg body l0) (futex_lock_new x0) s" and "sys_step (futex_code dbg body l0) e s s'"
  shows "abs_lock_step (event_thread e) (owner_of futex_owner s) (owner_of futex_owner s')"
  by (rule futex.refines_abs_lock [OF assms])

lemma pipe_refines_lock:
  assumes "reachable (pipe_code dbg cap body l0) (pipe_lock_init x0) s" and "sys_step (pipe_code dbg cap body l0) e s s'"
  shows "abs_lock_step (event_thread e) (owner_of holder_tid s) (owner_of holder_tid s')"
  by (rule pipe.refines_abs_lock [OF assms])

lemma futex_no_lost_update:
  assumes "exec_all (futex_code dbg increment_body Load) es (init_sys (futex_lock_new x0)) = Some s" and "idle s"
  shows "futex_lock.item (mem s) = x0 +
    of_nat (returns (futex_code dbg increment_body Load) futex_succeeded es (init_sys (futex_lock_new x0)))"
  using futex_count.no_lost_update [OF assms] by (simp add: futex_lock_new_def)

lemma pipe_no_lost_update:
  assumes "exec_all (pipe_code dbg cap increment_body Load) es (init_sys (pipe_lock_init x0)) = Some s" and "idle s"
  shows "pipe_lock.item (mem s) = x0 +
    of_nat (returns (pipe_code dbg cap increment_body Load) pipe_succeeded es (init_sys (pipe_lock_init x0)))"
  using pipe_count.no_lost_update [OF assms] by (simp add: pipe_lock_init_def)

section \<open>The operations of \<open>SignalLock\<close>\<close>

fun signal_succeeded :: "'l signal_pc \<Rightarrow> bool" where
  "signal_succeeded (FutexPc p) = futex_succeeded p"
| "signal_succeeded (PipePc p) = pipe_succeeded p"

text \<open>The activations that hold the lock, from the acquisition to the unlock.\<close>

fun signal_holds :: "'l signal_pc \<Rightarrow> bool" where
  "signal_holds (FutexPc p) = futex_holds p"
| "signal_holds (PipePc p) = pipe_holds p"

lemma count_of_map: "count_of P (map f xs) = count_of (\<lambda>x. P (f x)) xs"
  by (induction xs) simp_all

lemma signal_one_holder:
  assumes new: "signal_lock_new os pipe2 fcntl x fds = (Inr l, fds')"
    and r: "reachable (signal_code os dbg cap body l0) l s"
  shows "total signal_holds s \<le> 1 \<and>
    (\<forall>t. count_of signal_holds (stacks s t) = (if t \<noteq> 0 \<and> signal_lock_owner (mem s) = t then 1 else 0))"
  using new r
proof (cases rule: signal_lock_cases)
  case (futex s1)
  have "total signal_holds s = total futex_holds s1"
    by (simp add: futex(3) total_def count_of_map)
  moreover have "count_of signal_holds (stacks s t) = count_of futex_holds (stacks s1 t)" for t
    by (simp add: futex(3) count_of_map)
  ultimately show ?thesis
    using futex_mutual_exclusion [OF futex(2)] by (simp add: futex(3))
next
  case (pipe s1 ends)
  have "total signal_holds s = total pipe_holds s1"
    by (simp add: pipe(3) total_def count_of_map)
  moreover have "count_of signal_holds (stacks s t) = count_of pipe_holds (stacks s1 t)" for t
    by (simp add: pipe(3) count_of_map)
  ultimately show ?thesis
    using pipe_mutual_exclusion [OF pipe(2)] by (simp add: pipe(3))
qed

lemma signal_progress:
  assumes new: "signal_lock_new os pipe2 fcntl x fds = (Inr l, fds')"
    and r: "reachable (signal_code os dbg (Suc cap) body l0) l s" and "\<not> idle s"
  shows "\<exists>s'. quiet_step (signal_code os dbg (Suc cap) body l0) s s'"
  using new r
proof (cases rule: signal_lock_cases)
  case (futex s1)
  with futex_no_deadlock [OF futex(2)] assms(3) show ?thesis
    using signal_linux.quiet_step_lift by (fastforce simp: signal_linux.idle_lift)
next
  case (pipe s1 ends)
  with pipe_no_deadlock [OF pipe(2)] assms(3) show ?thesis
    using signal_unix.quiet_step_lift by (fastforce simp: signal_unix.idle_lift)
qed

lemma signal_owner_of:
  "owner_of signal_lock_owner (lift_sys FutexImp FutexPc s) = owner_of futex_owner s"
  "owner_of signal_lock_owner (lift_sys (\<lambda>m. PipeImp m ends) PipePc p) = owner_of holder_tid p"
  by (simp_all add: owner_of_def)

lemma signal_abs_step:
  assumes new: "signal_lock_new os pipe2 fcntl x fds = (Inr l, fds')"
    and r: "reachable (signal_code os dbg cap body l0) l s"
    and step: "sys_step (signal_code os dbg cap body l0) e s s'"
  shows "abs_lock_step (event_thread e) (owner_of signal_lock_owner s) (owner_of signal_lock_owner s')"
  using new r
proof (cases rule: signal_lock_cases)
  case (futex s1)
  from signal_linux.lifted_step [OF step [unfolded futex(1,3)]] obtain s2
    where s2: "sys_step (futex_code dbg body l0) e s1 s2" "s' = lift_sys FutexImp FutexPc s2" by blast
  from futex_refines_lock [OF futex(2) s2(1)] futex(3) s2(2) show ?thesis by (simp add: signal_owner_of)
next
  case (pipe s1 ends)
  from signal_unix.lifted_step [OF step [unfolded pipe(1,3)]] obtain s2
    where s2: "sys_step (pipe_code dbg cap body l0) e s1 s2" "s' = lift_sys (\<lambda>m. PipeImp m ends) PipePc s2"
    by blast
  from pipe_refines_lock [OF pipe(2) s2(1)] pipe(3) s2(2) show ?thesis by (simp add: signal_owner_of)
qed

lemma signal_counts:
  assumes new: "signal_lock_new os pipe2 fcntl x fds = (Inr l, fds')"
    and run: "exec_all (signal_code os dbg cap increment_body Load) es (init_sys l) = Some s" and "idle s"
  shows "signal_lock_item (mem s) =
    x + of_nat (returns (signal_code os dbg cap increment_body Load) signal_succeeded es (init_sys l))"
proof (cases os)
  case Linux
  with new have l: "l = FutexImp (futex_lock_new x)" by (simp add: signal_lock_new_def)
  have init: "init_sys l = lift_sys FutexImp FutexPc (init_sys (futex_lock_new x))" by (simp add: l)
  from run obtain s1 where s1: "exec_all (futex_code dbg increment_body Load) es (init_sys (futex_lock_new x)) = Some s1"
      "s = lift_sys FutexImp FutexPc s1"
    unfolding Linux init signal_linux.exec_all_lift by auto
  from futex_no_lost_update [OF s1(1)] assms(3) s1(2)
    signal_linux.returns_lift [of signal_succeeded futex_succeeded dbg cap increment_body Load es "init_sys (futex_lock_new x)"]
  show ?thesis by (simp add: Linux init signal_linux.idle_lift)
next
  case OtherUnix
  with new obtain ends where l: "l = PipeImp (pipe_lock_init x) ends"
    by (auto simp: signal_lock_new_def pipe_lock_new_def split: sum.splits prod.splits)
  have init: "init_sys l = lift_sys (\<lambda>m. PipeImp m ends) PipePc (init_sys (pipe_lock_init x))" by (simp add: l)
  from run obtain s1 where s1: "exec_all (pipe_code dbg cap increment_body Load) es (init_sys (pipe_lock_init x)) = Some s1"
      "s = lift_sys (\<lambda>m. PipeImp m ends) PipePc s1"
    unfolding OtherUnix init signal_unix.exec_all_lift by auto
  from pipe_no_lost_update [OF s1(1)] assms(3) s1(2)
    signal_unix.returns_lift [of signal_succeeded pipe_succeeded dbg cap increment_body Load es _ "init_sys (pipe_lock_init x)"]
  show ?thesis by (simp add: OtherUnix init signal_unix.idle_lift)
qed

end
