(* ===== verification/Fork.thy ===== *)
theory Fork
  imports Signal_Clients
begin

text \<open>
  A fork while a guard is alive (\<open>signal_lock/tests/fork.rs\<close>). The child is a copy of the process with
  the forking thread only, which has a new id from then on; its activations keep the id that they
  have read before, as the guards cache it. Threads that sleep on a private futex are not copied,
  and the descriptors of a \<open>PipeLock\<close> refer to the same pipe in both processes.
\<close>

section \<open>The child of a fork\<close>

fun fork_copy :: "'a signal_lock \<Rightarrow> 'a signal_lock" where
  "fork_copy (FutexImp m) = FutexImp (m\<lparr>sleepers := {}\<rparr>)"
| "fork_copy (PipeImp m ends) = PipeImp m ends"

definition fork_child :: "tid \<Rightarrow> ('a signal_lock, 'p) sys \<Rightarrow> ('a signal_lock, 'p) sys" where
  "fork_child t s =
     \<lparr>mem = fork_copy (mem s), stacks = (\<lambda>_. [])(t := stacks s t), live = length (stacks s t)\<rparr>"

lemma fork_child_simps [simp]:
  "mem (fork_child t s) = fork_copy (mem s)" "stacks (fork_child t s) t = stacks s t"
  by (simp_all add: fork_child_def)

text \<open>An activation with a guard, in the client's local state \<open>l\<close>, and one whose guard is dropped.\<close>

fun signal_guarded :: "'l signal_pc \<Rightarrow> 'l option" where
  "signal_guarded (FutexPc (Futex_Lock.Guarded l)) = Some l"
| "signal_guarded (PipePc (Guarded l contended)) = Some l"
| "signal_guarded p = None"

fun signal_unlocked :: "'l signal_pc \<Rightarrow> bool" where
  "signal_unlocked (FutexPc p) \<longleftrightarrow> p = Futex_Lock.Done (Inr ())"
| "signal_unlocked (PipePc p) \<longleftrightarrow> p = Done (Inr ())"

lemma signal_guardedE:
  assumes "signal_guarded p = Some l"
  obtains "p = FutexPc (Futex_Lock.Guarded l)" | contended where "p = PipePc (Guarded l contended)"
  using assms by (cases p rule: signal_guarded.cases) auto

section \<open>Dropping the guard\<close>

lemma quiet_run:
  assumes "stacks s t = p # ps" and "quiet c" and "allowed L p c"
    and "act L t c (mem s) p = Some (m', p')"
  shows "quiet_step L s (s\<lparr>mem := m', stacks := (stacks s)(t := p' # ps)\<rparr>)"
  unfolding quiet_step_def
  by (rule exI [of _ "Run t c"]) (use assms sys_step.run [OF assms(1,3,4)] in simp)

lemma futex_guard_drops:
  fixes body :: "'l \<Rightarrow> 'a \<Rightarrow> ('l \<times> 'a) option"
  assumes stk: "stacks s t = FutexPc (Futex_Lock.Guarded l) # ps" and m: "mem s = FutexImp m" "sleepers m = {}"
    and owner: "futex_owner m = t" "word_ok (futex m)" and body: "body l (futex_lock.item m) = None"
  shows "\<exists>s' p'. (quiet_step (signal_code os dbg cap body l0))\<^sup>*\<^sup>* s s' \<and> stacks s' t = p' # ps \<and>
    signal_unlocked p' \<and> signal_lock_owner (mem s') = 0"
proof -
  let ?L = "signal_code os dbg cap body l0" and ?m = "m\<lparr>futex := 0\<rparr>"
  have free: "futex_owner ?m = 0" by (simp add: futex_owner_def)
  have word: "futex m = t \<or> futex m = t OR FUTEX_WAITERS"
    using owner by (elim word_ok_cases) (auto simp: futex_owner_def)
  have t: "t AND FUTEX_TID_MASK = t" using owner(1) by (auto simp: futex_owner_def)
  have "(raw_unlock dbg t m :: 'a futex_lock \<times> 'l futex_pc) =
      (?m, if futex m = t then Futex_Lock.Done (Inr ()) else UnlockWake)"
    using word by (elim disjE) (simp_all add: raw_unlock_def Let_def t)
  then consider (plain) "(raw_unlock dbg t m :: 'a futex_lock \<times> 'l futex_pc) = (?m, Futex_Lock.Done (Inr ()))"
    | (wake) "(raw_unlock dbg t m :: 'a futex_lock \<times> 'l futex_pc) = (?m, UnlockWake)"
    by (cases "futex m = t") simp_all
  then show ?thesis
  proof cases
    case plain
    from quiet_run [OF stk, of Normal ?L "FutexImp ?m" "FutexPc (Futex_Lock.Done (Inr ()))"] plain body m
    have "quiet_step ?L s (s\<lparr>mem := FutexImp ?m,
        stacks := (stacks s)(t := FutexPc (Futex_Lock.Done (Inr ())) # ps)\<rparr>)" (is "quiet_step _ _ ?s")
      by (simp add: signal_code_def Futex_Lock.guarded_def)
    with free show ?thesis
      by (intro exI [of _ ?s] exI [of _ "FutexPc (Futex_Lock.Done (Inr ()))"]) auto
  next
    case wake
    let ?s = "s\<lparr>mem := FutexImp ?m, stacks := (stacks s)(t := FutexPc UnlockWake # ps)\<rparr>"
    from quiet_run [OF stk, of Normal ?L "FutexImp ?m" "FutexPc UnlockWake"] wake body m
    have first: "quiet_step ?L s ?s" by (simp add: signal_code_def Futex_Lock.guarded_def)
    have "quiet_step ?L ?s (?s\<lparr>mem := FutexImp ?m,
        stacks := (stacks ?s)(t := FutexPc (Futex_Lock.Done (Inr ())) # ps)\<rparr>)" (is "quiet_step _ _ ?s'")
      by (rule quiet_run [where c = Normal and p = "FutexPc UnlockWake"])
        (simp_all add: signal_code_def wake_one_def m)
    with first have "(quiet_step ?L)\<^sup>*\<^sup>* s ?s'"
      by (meson converse_rtranclp_into_rtranclp r_into_rtranclp)
    with free show ?thesis
      by (intro exI [of _ ?s'] exI [of _ "FutexPc (Futex_Lock.Done (Inr ()))"]) simp
  qed
qed

lemma pipe_guard_drops:
  assumes stk: "stacks s t = PipePc (Guarded l contended) # ps" and m: "mem s = PipeImp m ends"
    and owner: "holder_tid m = t" and body: "body l (pipe_lock.item m) = None"
  shows "\<exists>s' p'. (quiet_step (signal_code os dbg cap body l0))\<^sup>*\<^sup>* s s' \<and> stacks s' t = p' # ps \<and>
    signal_unlocked p' \<and> signal_lock_owner (mem s') = 0"
proof -
  let ?L = "signal_code os dbg cap body l0" and ?m = "m\<lparr>holder_tid := 0\<rparr>"
  let ?at = "\<lambda>m p. s\<lparr>mem := PipeImp m ends, stacks := (stacks s)(t := PipePc p # ps)\<rparr>"
  have first: "quiet_step ?L s (?at ?m (CheckWaiters contended))"
    by (rule quiet_run [OF stk, of Normal])
      (use m owner body in \<open>simp_all add: signal_code_def Pipe_Lock.guarded_def unlock_def Let_def\<close>)
  have step: "quiet_step ?L (?at m1 p1) (?at m2 p2)"
    if "pipe_allowed p1 Normal" "pipe_act dbg cap body l0 t Normal m1 p1 = Some (m2, p2)" for m1 m2 p1 p2
    using quiet_run [of "?at m1 p1" t "PipePc p1" ps Normal ?L "PipeImp m2 ends" "PipePc p2"] that
    by (simp add: signal_code_def)
  have "\<exists>m2. (quiet_step ?L)\<^sup>*\<^sup>* (?at ?m (CheckWaiters contended)) (?at m2 (Done (Inr ()))) \<and> holder_tid m2 = 0"
  proof (cases "contended \<or> 0 < waiters m")
    case False
    then have "quiet_step ?L (?at ?m (CheckWaiters contended)) (?at ?m (Done (Inr ())))"
      by (intro step) (simp_all add: check_waiters_def)
    then show ?thesis by (intro exI [of _ ?m]) simp
  next
    case True
    then have check: "quiet_step ?L (?at ?m (CheckWaiters contended)) (?at ?m WriteByte)"
      by (intro step) (simp_all add: check_waiters_def)
    let ?m2 = "if pipe_bytes m < cap then ?m\<lparr>pipe_bytes := Suc (pipe_bytes m)\<rparr> else ?m"
    have "quiet_step ?L (?at ?m WriteByte) (?at ?m2 (Done (Inr ())))"
      by (intro step) (simp_all add: unlock_contended_def write_failed_def)
    with check have "(quiet_step ?L)\<^sup>*\<^sup>* (?at ?m (CheckWaiters contended)) (?at ?m2 (Done (Inr ())))"
      by (meson converse_rtranclp_into_rtranclp r_into_rtranclp)
    then show ?thesis by (intro exI [of _ ?m2] conjI) simp_all
  qed
  with first obtain m2 where "(quiet_step ?L)\<^sup>*\<^sup>* s (?at m2 (Done (Inr ())))" "holder_tid m2 = 0"
    by (meson converse_rtranclp_into_rtranclp)
  then show ?thesis by (intro exI [of _ "?at m2 (Done (Inr ()))"] exI [of _ "PipePc (Done (Inr ()))"]) simp
qed

text \<open>A guard that is alive at the fork can be dropped in the child.\<close>

lemma fork_child_drops:
  assumes new: "signal_lock_new os pipe2 fcntl x fds = (Inr lock, fds')"
    and r: "reachable (signal_code os dbg cap body l0) lock s"
    and stk: "stacks s t = p # ps" "signal_guarded p = Some l"
    and body: "body l (signal_lock_item (mem s)) = None"
  shows "\<exists>s' p'. (quiet_step (signal_code os dbg cap body l0))\<^sup>*\<^sup>* (fork_child t s) s' \<and>
    stacks s' t = p' # ps \<and> signal_unlocked p' \<and> signal_lock_owner (mem s') = 0"
  using new r
proof (cases rule: signal_lock_cases)
  case (futex s1)
  with stk have top: "p = FutexPc (Futex_Lock.Guarded l)" by (auto elim: signal_guardedE)
  with stk futex(3) obtain qs where "stacks s1 t = Futex_Lock.Guarded l # qs" by auto
  then have "futex_owner (mem s1) = t"
    using owner_inv_holds [OF futex.reachable_owner_inv [OF futex(2)], of "Futex_Lock.Guarded l" t] by simp
  moreover have "word_ok (futex (mem s1))"
    using futex_reachable_sound [OF futex(2)] by (simp add: futex_sound_def)
  ultimately show ?thesis
    using top stk(1) body futex(3)
    by (intro futex_guard_drops [where m = "(mem s1)\<lparr>sleepers := {}\<rparr>"]) (simp_all add: futex_owner_def)
next
  case (pipe s1 ends)
  with stk obtain contended where top: "p = PipePc (Guarded l contended)" by (auto elim: signal_guardedE)
  with stk pipe(3) obtain qs where "stacks s1 t = Guarded l contended # qs" by auto
  then have "holder_tid (mem s1) = t"
    using pipe_running(2) [OF pipe(2)] by fastforce
  with top stk(1) body pipe(3) show ?thesis
    by (intro pipe_guard_drops [where m = "mem s1"]) simp_all
qed

text \<open>With the id that \<open>gettid\<close> returns in the child, the drop of the guard would abort in debug builds.\<close>

lemma fork_uncached_aborts:
  assumes "futex_owner m = t" and "u \<noteq> t"
  shows "raw_unlock True u m = (m\<lparr>futex := 0\<rparr>, Futex_Lock.Aborted (Futex_Lock.NotHeldByThread u t))"
  using assms by (auto simp: raw_unlock_def futex_owner_def Let_def)

section \<open>The pipe is shared\<close>

text \<open>
  Two processes after a fork, each with its copy of a \<open>PipeLock\<close>, on one pipe: a byte that one of them
  writes or reads is in the pipe of the other.
\<close>

definition same_pipe ::
    "('a pipe_lock, 'p) sys \<Rightarrow> ('a pipe_lock, 'p) sys \<Rightarrow> ('a pipe_lock, 'p) sys" where
  "same_pipe s s' = s'\<lparr>mem := (mem s')\<lparr>pipe_bytes := pipe_bytes (mem s)\<rparr>\<rparr>"

fun forked_exec ::
    "('a pipe_lock, 'p) lock_code \<Rightarrow> (bool \<times> event) list \<Rightarrow>
     ('a pipe_lock, 'p) sys \<times> ('a pipe_lock, 'p) sys \<Rightarrow>
     (('a pipe_lock, 'p) sys \<times> ('a pipe_lock, 'p) sys) option" where
  "forked_exec L [] (s1, s2) = Some (s1, s2)"
| "forked_exec L ((in_child, e) # es) (s1, s2) =
     (if in_child
      then (case exec L e s2 of None \<Rightarrow> None | Some s \<Rightarrow> forked_exec L es (same_pipe s s1, s))
      else (case exec L e s1 of None \<Rightarrow> None | Some s \<Rightarrow> forked_exec L es (s, same_pipe s s2)))"

text \<open>
  A thread of each process waits for its lock. The parent unlocks and writes a byte, which the child's
  waiter reads: it finds its own lock still held and waits again.
\<close>

definition stolen_run :: "(bool \<times> event) list" where
  "stolen_run =
     map (Pair False) (Call 1 # runs 1 1 @ Call 2 # runs 2 3) @
     map (Pair True) (Call 3 # runs 3 1 @ Call 4 # runs 4 3) @
     map (Pair False) (runs 1 5 @ [Return 1]) @ map (Pair True) (runs 4 2)"

definition deserted :: "(64 word pipe_lock, increment pipe_pc) sys" where
  "deserted = \<lparr>mem = (pipe_lock_init 1)\<lparr>waiters := 1\<rparr>, stacks = (\<lambda>_. [])(2 := [ReadByte]), live = 1\<rparr>"

definition hoarding :: "(64 word pipe_lock, increment pipe_pc) sys" where
  "hoarding =
     \<lparr>mem = (pipe_lock_init 0)\<lparr>holder_tid := 3, waiters := 1\<rparr>,
      stacks = (\<lambda>_. [])(3 := [Guarded Load False], 4 := [ReadByte]), live = 2\<rparr>"

lemma stolen_run_result:
  "forked_exec pipe_client stolen_run (init_sys (pipe_lock_init 0), init_sys (pipe_lock_init 0)) =
    Some (deserted, hoarding)"
  by (simp add: stolen_run_def deserted_def hoarding_def same_pipe_def pipe_run_simps fun_upd_def cong: if_cong)
    (rule ext, simp)

text \<open>
  The parent's lock is free, and yet its waiter cannot go on: nothing in the parent will ever write a
  byte. Without a fork this is excluded (\<open>pipe_no_deadlock\<close>).
\<close>

lemma deserted_stuck:
  "\<not> idle deserted \<and> holder_tid (mem deserted) = 0 \<and> (\<nexists>s'. quiet_step pipe_client deserted s')"
proof (intro conjI)
  show "\<not> idle deserted" by (auto simp: idle_def deserted_def)
  show "holder_tid (mem deserted) = 0" by (simp add: deserted_def pipe_lock_init_def)
  show "\<nexists>s'. quiet_step pipe_client deserted s'"
  proof
    assume "\<exists>s'. quiet_step pipe_client deserted s'"
    then obtain e s' where "quiet_event e" "exec pipe_client e deserted = Some s'"
      by (auto simp: quiet_step_def sys_step_exec)
    then show False
      by (cases e) (auto simp: deserted_def pipe_lock_init_def read_byte_def split: if_splits env.splits)
  qed
qed

end
