(* ===== verification/Lock_Sync.thy ===== *)
theory Lock_Sync
  imports Futex_Lock Pipe_Lock
begin

text \<open>
  Data-race freedom of the protected item. The item is an \<open>UnsafeCell\<close> that the guards read and
  write with plain accesses, so every two of them have to be ordered by happens-before, and the only
  synchronization is the memory ordering of the atomic operations in \<open>futex.rs\<close> and \<open>pipe.rs\<close>. The
  happens-before of release and acquire operations is tracked by views: the accesses that a thread
  has seen, and those that the value of an atomic variable carries. The locale
  \<open>synchronizing_lock\<close> states which orderings the operations of a lock need.
\<close>

section \<open>Memory orderings and views\<close>

datatype ordering = Relaxed | Acquire | Release | AcqRel | SeqCst

text \<open>Orderings are ordered by strength; \<open>Acquire\<close> and \<open>Release\<close> are incomparable.\<close>

instantiation ordering :: order
begin

definition less_eq_ordering :: "ordering \<Rightarrow> ordering \<Rightarrow> bool" where
  "a \<le> b \<longleftrightarrow> a = b \<or> a = Relaxed \<or> b = SeqCst \<or> (b = AcqRel \<and> a \<noteq> SeqCst)"

definition less_ordering :: "ordering \<Rightarrow> ordering \<Rightarrow> bool" where
  "a < b \<longleftrightarrow> a \<le> b \<and> a \<noteq> (b :: ordering)"

instance
proof
  fix a b c :: ordering
  show "a < b \<longleftrightarrow> a \<le> b \<and> \<not> b \<le> a"
    by (cases a; cases b) (simp_all add: less_ordering_def less_eq_ordering_def)
  show "a \<le> a" by (simp add: less_eq_ordering_def)
  show "a \<le> c" if "a \<le> b" "b \<le> c" using that by (cases a; cases b; cases c) (simp_all add: less_eq_ordering_def)
  show "a = b" if "a \<le> b" "b \<le> a" using that by (cases a; cases b) (simp_all add: less_eq_ordering_def)
qed

end

definition acquires :: "ordering \<Rightarrow> bool" where
  "acquires o' \<longleftrightarrow> Acquire \<le> o'"

definition releases :: "ordering \<Rightarrow> bool" where
  "releases o' \<longleftrightarrow> Release \<le> o'"

lemma ordering_strength [simp]:
  "acquires o' \<longleftrightarrow> o' \<in> {Acquire, AcqRel, SeqCst}" "releases o' \<longleftrightarrow> o' \<in> {Release, AcqRel, SeqCst}"
  by (cases o'; simp add: acquires_def releases_def less_eq_ordering_def)+

text \<open>
  The atomic variables, and what one action of a thread does to the memory: nothing that
  synchronizes (system calls and fences are counted here, which can only lose happens-before edges),
  a plain access to the item, or an atomic read, write or read-modify-write.
\<close>

datatype location = LockWord | WaiterCount | InitFlag

datatype access =
    NoSync
  | ItemAccess
  | AtomicLoad location ordering
  | AtomicStore location ordering
  | AtomicRmw location ordering

text \<open>A failed compare-and-exchange is a load with the ordering given for the failure.\<close>

definition cas_access :: "location \<Rightarrow> ordering \<Rightarrow> ordering \<Rightarrow> (u32 + u32) \<times> u32 \<Rightarrow> access" where
  "cas_access x success failure res =
     (case res of (Inr prev, w) \<Rightarrow> AtomicRmw x success | (Inl found, w) \<Rightarrow> AtomicLoad x failure)"

text \<open>
  \<open>item_accesses\<close> numbers the accesses to the item; \<open>seen t\<close> holds those that happen before the next
  action of thread \<open>t\<close>, \<open>carried x\<close> those that an acquire load of \<open>x\<close> makes visible. A
  read-modify-write continues the release sequence of the value it replaces, a store ends it.
\<close>

record views =
  item_accesses :: nat
  seen :: "tid \<Rightarrow> nat set"
  carried :: "location \<Rightarrow> nat set"

definition no_views :: views where
  "no_views = \<lparr>item_accesses = 0, seen = (\<lambda>_. {}), carried = (\<lambda>_. {})\<rparr>"

definition acquire_view :: "ordering \<Rightarrow> location \<Rightarrow> tid \<Rightarrow> views \<Rightarrow> nat set" where
  "acquire_view o' x t v = seen v t \<union> (if acquires o' then carried v x else {})"

fun observe :: "access \<Rightarrow> tid \<Rightarrow> views \<Rightarrow> views" where
  "observe NoSync t v = v"
| "observe ItemAccess t v =
     v\<lparr>item_accesses := Suc (item_accesses v), seen := (seen v)(t := insert (item_accesses v) (seen v t))\<rparr>"
| "observe (AtomicLoad x o') t v = v\<lparr>seen := (seen v)(t := acquire_view o' x t v)\<rparr>"
| "observe (AtomicStore x o') t v =
     v\<lparr>carried := (carried v)(x := if releases o' then seen v t else {})\<rparr>"
| "observe (AtomicRmw x o') t v =
     (let view = acquire_view o' x t v in
      v\<lparr>seen := (seen v)(t := view),
        carried := (carried v)(x := carried v x \<union> (if releases o' then view else {}))\<rparr>)"

text \<open>Stronger orderings never hide an access.\<close>

lemma stronger_ordering:
  assumes "o1 \<le> o2"
  shows "seen (observe (AtomicRmw x o1) t v) u \<subseteq> seen (observe (AtomicRmw x o2) t v) u"
    and "carried (observe (AtomicRmw x o1) t v) y \<subseteq> carried (observe (AtomicRmw x o2) t v) y"
  using assms by (auto simp: acquire_view_def less_eq_ordering_def Let_def)

section \<open>Runs with their views\<close>

fun observe_event ::
    "(tid \<Rightarrow> env \<Rightarrow> 'm \<Rightarrow> 'p \<Rightarrow> access) \<Rightarrow> event \<Rightarrow> ('m, 'p) sys \<Rightarrow> views \<Rightarrow> views" where
  "observe_event A (Run t c) s v = observe (A t c (mem s) (hd (stacks s t))) t v"
| "observe_event A e s v = v"

inductive viewed ::
    "('m, 'p) lock_code \<Rightarrow> (tid \<Rightarrow> env \<Rightarrow> 'm \<Rightarrow> 'p \<Rightarrow> access) \<Rightarrow> 'm \<Rightarrow> ('m, 'p) sys \<Rightarrow> views \<Rightarrow> bool"
  for L :: "('m, 'p) lock_code" and A :: "tid \<Rightarrow> env \<Rightarrow> 'm \<Rightarrow> 'p \<Rightarrow> access" and m0 :: 'm where
  viewed_initial: "viewed L A m0 (init_sys m0) no_views"
| viewed_step: "viewed L A m0 s v \<Longrightarrow> sys_step L e s s' \<Longrightarrow> viewed L A m0 s' (observe_event A e s v)"

fun views_after ::
    "('m, 'p) lock_code \<Rightarrow> (tid \<Rightarrow> env \<Rightarrow> 'm \<Rightarrow> 'p \<Rightarrow> access) \<Rightarrow> event list \<Rightarrow> ('m, 'p) sys \<Rightarrow> views \<Rightarrow>
     (('m, 'p) sys \<times> views) option" where
  "views_after L A [] s v = Some (s, v)"
| "views_after L A (e # es) s v =
     (case exec L e s of
        None \<Rightarrow> None
      | Some s' \<Rightarrow> views_after L A es s' (observe_event A e s v))"

lemma views_after_viewed:
  assumes "viewed L A m0 s v" and "views_after L A es s v = Some (s', v')"
  shows "viewed L A m0 s' v'"
  using assms
  by (induction es arbitrary: s v)
    (auto split: option.splits intro: viewed_step [OF _ sys_step_exec [THEN iffD2]])

lemma viewed_reachable: "viewed L A m0 s v \<Longrightarrow> reachable L m0 s"
  by (induction rule: viewed.induct) (auto intro: reachable.intros)

text \<open>Every run has its views: they only watch.\<close>

lemma reachable_viewed: "reachable L m0 s \<Longrightarrow> \<exists>v. viewed L A m0 s v"
  by (induction rule: reachable.induct) (auto intro: viewed.intros)

text \<open>
  An action that neither accesses the item nor stores to the lock's word makes no view of the lock
  smaller.
\<close>

definition monotone_access :: "access \<Rightarrow> bool" where
  "monotone_access a \<longleftrightarrow> a \<noteq> ItemAccess \<and> (\<forall>o'. a \<noteq> AtomicStore LockWord o')"

lemma observe_monotone:
  assumes "monotone_access a"
  shows "item_accesses (observe a t v) = item_accesses v"
    and "seen v u \<subseteq> seen (observe a t v) u" and "carried v LockWord \<subseteq> carried (observe a t v) LockWord"
  using assms by (cases a; auto simp: monotone_access_def acquire_view_def Let_def)+

section \<open>Which orderings a lock needs\<close>

locale synchronizing_lock = exclusive_lock L m0 own item holds
  for L :: "('m, 'p) lock_code" and m0 :: 'm and own :: "'m \<Rightarrow> tid" and item :: "'m \<Rightarrow> 'a"
    and holds :: "'p \<Rightarrow> bool" +
  fixes access :: "tid \<Rightarrow> env \<Rightarrow> 'm \<Rightarrow> 'p \<Rightarrow> access"
  assumes item_held: "act L t c m p = Some (m', p') \<Longrightarrow> access t c m p = ItemAccess \<Longrightarrow> holds p \<and> holds p'"
    and item_accessed: "act L t c m p = Some (m', p') \<Longrightarrow> item m' \<noteq> item m \<Longrightarrow> access t c m p = ItemAccess"
    and no_store: "access t c m p \<noteq> AtomicStore LockWord o'"
    and acquire_syncs: "tid_ok L t \<Longrightarrow> act L t c m p = Some (m', p') \<Longrightarrow> \<not> holds p \<Longrightarrow> holds p' \<Longrightarrow>
      \<exists>o'. access t c m p = AtomicRmw LockWord o' \<and> acquires o'"
    and release_syncs: "tid_ok L t \<Longrightarrow> act L t c m p = Some (m', p') \<Longrightarrow> holds p \<Longrightarrow> \<not> holds p' \<Longrightarrow>
      \<exists>o'. access t c m p = AtomicRmw LockWord o' \<and> releases o'"
begin

text \<open>
  A free lock carries all accesses to the item, and a thread that holds it has seen all of them.
\<close>

definition sync_inv :: "('m, 'p) sys \<Rightarrow> views \<Rightarrow> bool" where
  "sync_inv s v \<longleftrightarrow>
     (own (mem s) = 0 \<longrightarrow> {..<item_accesses v} \<subseteq> carried v LockWord) \<and>
     (\<forall>t. \<forall>q \<in> set (stacks s t). holds q \<longrightarrow> {..<item_accesses v} \<subseteq> seen v t)"

lemma monotone_unless_item: "access t c m p \<noteq> ItemAccess \<Longrightarrow> monotone_access (access t c m p)"
  using no_store by (simp add: monotone_access_def)

lemma held_stays_seen:
  assumes "sync_inv s v" and "monotone_access a" and "q \<in> set (stacks s u)" and "holds q"
  shows "{..<item_accesses (observe a t v)} \<subseteq> seen (observe a t v) u"
  using assms observe_monotone [where a = a and t = t and v = v] unfolding sync_inv_def by (metis subset_trans)

lemma access_sync_inv:
  assumes r: "reachable L m0 s" and inv: "sync_inv s v" and stk: "stacks s t = p # ps"
    and act: "act L t c (mem s) p = Some (m', p')" and item: "access t c (mem s) p = ItemAccess"
  shows "sync_inv (s\<lparr>mem := m', stacks := (stacks s)(t := p' # ps)\<rparr>) (observe (access t c (mem s) p) t v)"
    (is "sync_inv ?s' (observe ?a t v)")
proof -
  have ok: "tid_ok L t" using reachable_tid_ok [OF r] stk by simp
  from item_held [OF act item] have held: "holds p" "holds p'" by simp_all
  have oinv: "owner_inv own holds s" by (rule reachable_owner_inv [OF r])
  have own: "own (mem s) = t" "t \<noteq> 0" using owner_inv_holds [OF oinv _ held(1)] stk by auto
  have "own m' = own (mem s)" using act_keeps [OF ok act] held by simp
  with own have "own (mem ?s') \<noteq> 0" by simp
  have seen: "{..<item_accesses v} \<subseteq> seen v t"
    using inv held(1) stk by (simp add: sync_inv_def)
  have only: "u = t" if "q \<in> set (stacks ?s' u)" "holds q" for u q
  proof (rule ccontr)
    assume "u \<noteq> t"
    then have "q \<in> set (stacks s u)" using that(1) by simp
    with owner_inv_holds [OF oinv _ that(2)] own(1) \<open>u \<noteq> t\<close> show False by auto
  qed
  have "{..<item_accesses (observe ?a t v)} \<subseteq> seen (observe ?a t v) u"
    if "q \<in> set (stacks ?s' u)" "holds q" for u q
    unfolding only [OF that] item using seen by (auto simp: lessThan_Suc)
  with \<open>own (mem ?s') \<noteq> 0\<close> show ?thesis by (auto simp: sync_inv_def)
qed

text \<open>A thread that has taken the lock has seen what the lock carried, and a release makes it carry all.\<close>

lemma acquired_seen:
  assumes ok: "tid_ok L t" and inv: "sync_inv s v" and act: "act L t c (mem s) p = Some (m', p')"
    and p: "\<not> holds p" and p': "holds p'"
  shows "{..<item_accesses v} \<subseteq> seen (observe (access t c (mem s) p) t v) t"
  using acquire_syncs [OF ok act p p'] act_acquires [OF ok act p p'] inv
  by (auto simp: sync_inv_def acquire_view_def Let_def)

lemma freed_carries:
  assumes r: "reachable L m0 s" and inv: "sync_inv s v" and stk: "stacks s t = p # ps"
    and act: "act L t c (mem s) p = Some (m', p')" and not_item: "access t c (mem s) p \<noteq> ItemAccess"
    and free: "own m' = 0"
  shows "{..<item_accesses v} \<subseteq> carried (observe (access t c (mem s) p) t v) LockWord"
proof -
  have ok: "tid_ok L t" using reachable_tid_ok [OF r] stk by simp
  show ?thesis
  proof (cases "holds p")
    case True
    have "\<not> holds p'"
      using act_keeps [OF ok act] True free tid_nonzero [OF ok]
        owner_inv_holds [OF reachable_owner_inv [OF r] _ True, of t] stk by auto
    from release_syncs [OF ok act True this] obtain o'
      where rel: "access t c (mem s) p = AtomicRmw LockWord o'" "releases o'" by blast
    have "{..<item_accesses v} \<subseteq> seen v t" using inv True stk by (simp add: sync_inv_def)
    with rel show ?thesis by (auto simp: acquire_view_def Let_def)
  next
    case False
    then have "own (mem s) = 0"
      using act_keeps [OF ok act] act_acquires [OF ok act] free tid_nonzero [OF ok] by metis
    with inv have "{..<item_accesses v} \<subseteq> carried v LockWord" by (simp add: sync_inv_def)
    then show ?thesis
      using observe_monotone(3) [OF monotone_unless_item [OF not_item]] by (rule subset_trans)
  qed
qed

lemma other_sync_inv:
  assumes r: "reachable L m0 s" and inv: "sync_inv s v" and stk: "stacks s t = p # ps"
    and act: "act L t c (mem s) p = Some (m', p')" and not_item: "access t c (mem s) p \<noteq> ItemAccess"
  shows "sync_inv (s\<lparr>mem := m', stacks := (stacks s)(t := p' # ps)\<rparr>) (observe (access t c (mem s) p) t v)"
    (is "sync_inv ?s' (observe ?a t v)")
proof -
  have ok: "tid_ok L t" using reachable_tid_ok [OF r] stk by simp
  have mono: "monotone_access ?a" by (rule monotone_unless_item [OF not_item])
  have n: "item_accesses (observe ?a t v) = item_accesses v" by (rule observe_monotone(1) [OF mono])
  have old: "{..<item_accesses (observe ?a t v)} \<subseteq> seen (observe ?a t v) u"
    if "q \<in> set (stacks s u)" "holds q" for u q
    using held_stays_seen [OF inv mono that] .
  have top: "{..<item_accesses (observe ?a t v)} \<subseteq> seen (observe ?a t v) t" if "holds p'"
    using old [of p t] acquired_seen [OF ok inv act _ that] stk n by (cases "holds p") simp_all
  have free: "{..<item_accesses (observe ?a t v)} \<subseteq> carried (observe ?a t v) LockWord" if "own m' = 0"
    using freed_carries [OF r inv stk act not_item that] n by simp
  show ?thesis
    unfolding sync_inv_def
  proof (intro conjI allI ballI impI)
    show "own (mem ?s') = 0 \<Longrightarrow> {..<item_accesses (observe ?a t v)} \<subseteq> carried (observe ?a t v) LockWord"
      using free by simp
    show "{..<item_accesses (observe ?a t v)} \<subseteq> seen (observe ?a t v) u"
      if "q \<in> set (stacks ?s' u)" "holds q" for u q
    proof (cases "u = t \<and> q = p'")
      case True
      with top that show ?thesis by simp
    next
      case False
      then have "q \<in> set (stacks s u)" using that(1) stk by (auto split: if_splits)
      then show ?thesis using that(2) by (rule old)
    qed
  qed
qed

lemma viewed_sync_inv: "viewed L access m0 s v \<Longrightarrow> sync_inv s v"
proof (induction rule: viewed.induct)
  case viewed_initial
  show ?case by (simp add: sync_inv_def no_views_def)
next
  case (viewed_step s v e s')
  have r: "reachable L m0 s" by (rule viewed_reachable [OF viewed_step.hyps(1)])
  from viewed_step.hyps(2) show ?case
  proof cases
    case (call t)
    with viewed_step.IH start_free show ?thesis by (auto simp: sync_inv_def)
  next
    case (run t p ps c m' p')
    with access_sync_inv [OF r viewed_step.IH run(3,5)] other_sync_inv [OF r viewed_step.IH run(3,5)]
    show ?thesis by (cases "access t c (mem s) p = ItemAccess") simp_all
  next
    case (return t p ps)
    with viewed_step.IH show ?thesis by (auto simp: sync_inv_def split: if_splits)
  qed
qed

text \<open>An access to the item happens after all earlier accesses to it.\<close>

lemma data_race_free:
  assumes v: "viewed L access m0 s v" and "stacks s t = p # ps"
    and "act L t c (mem s) p = Some (m', p')" and "access t c (mem s) p = ItemAccess"
  shows "{..<item_accesses v} \<subseteq> seen v t"
  using viewed_sync_inv [OF v] item_held [OF assms(3,4)] assms(2) by (simp add: sync_inv_def)

end

section \<open>The orderings of \<open>FutexLock\<close>\<close>

fun futex_access ::
    "('l \<Rightarrow> 'a \<Rightarrow> ('l \<times> 'a) option) \<Rightarrow> tid \<Rightarrow> env \<Rightarrow> 'a futex_lock \<Rightarrow> 'l futex_pc \<Rightarrow> access" where
  "futex_access body t c m RawLock =
     cas_access LockWord Acquire Relaxed (compare_exchange_weak c 0 t (futex m))"
| "futex_access body t c m AcquireWithWaiters =
     cas_access LockWord Acquire Relaxed (compare_exchange_weak c 0 (t OR FUTEX_WAITERS) (futex m))"
| "futex_access body t c m (SetWaiters w) =
     cas_access LockWord Acquire Relaxed (compare_exchange_weak c w (w OR FUTEX_WAITERS) (futex m))"
| "futex_access body t c m Reload = AtomicLoad LockWord SeqCst"
| "futex_access body t c m (Futex_Lock.Guarded l) =
     (case body l (futex_lock.item m) of Some r \<Rightarrow> ItemAccess | None \<Rightarrow> AtomicRmw LockWord Release)"
| "futex_access body t c m p = NoSync"

interpretation futex_sync: synchronizing_lock "futex_code dbg body l0" "futex_lock_new x0" futex_owner
    futex_lock.item futex_holds "futex_access body" for dbg body l0 x0
proof (unfold_locales, goal_cases)
  case (1 t c m p m' p')
  then show ?case
    by (cases p) (auto simp: Futex_Lock.guarded_def cas_access_def split: futex_splits)
next
  case (2 t c m p m' p')
  then show ?case
    by (cases p) (auto simp: futex_defs Let_def split: futex_splits)
next
  case (3 t c m p o')
  show ?case by (cases p) (auto simp: cas_access_def split: futex_splits)
next
  case (4 t c m p m' p')
  then show ?case
    by (cases p) (auto simp: futex_defs cas_access_def Let_def split: futex_splits)
next
  case (5 t c m p m' p')
  then show ?case
    by (cases p) (auto simp: Futex_Lock.guarded_def split: option.splits)
qed

section \<open>The orderings of \<open>PipeLock\<close>\<close>

text \<open>The counter of waiters is only accessed relaxed; the fences order it against the owner's word.\<close>

fun pipe_access ::
    "('l \<Rightarrow> 'a \<Rightarrow> ('l \<times> 'a) option) \<Rightarrow> tid \<Rightarrow> env \<Rightarrow> 'a pipe_lock \<Rightarrow> 'l pipe_pc \<Rightarrow> access" where
  "pipe_access body t c m TryLock =
     cas_access LockWord Acquire Relaxed (compare_exchange_weak c 0 t (holder_tid m))"
| "pipe_access body t c m Register = AtomicRmw WaiterCount Relaxed"
| "pipe_access body t c m AcquireLoop =
     cas_access LockWord Acquire Relaxed (compare_exchange_weak c 0 t (holder_tid m))"
| "pipe_access body t c m Deregister = AtomicRmw WaiterCount Relaxed"
| "pipe_access body t c m DeregisterRecursive = AtomicRmw WaiterCount Relaxed"
| "pipe_access body t c m (DeregisterAbort e) = AtomicRmw WaiterCount Relaxed"
| "pipe_access body t c m (Guarded l contended) =
     (case body l (item m) of Some r \<Rightarrow> ItemAccess | None \<Rightarrow> AtomicRmw LockWord Release)"
| "pipe_access body t c m (CheckWaiters contended) =
     (if contended then NoSync else AtomicLoad WaiterCount Relaxed)"
| "pipe_access body t c m p = NoSync"

interpretation pipe_sync: synchronizing_lock "pipe_code dbg cap body l0" "pipe_lock_init x0" holder_tid
    item pipe_holds "pipe_access body" for dbg cap body l0 x0
proof (unfold_locales, goal_cases)
  case (1 t c m p m' p')
  then show ?case
    by (cases p) (auto simp: guarded_def cas_access_def split: pipe_splits)
next
  case (2 t c m p m' p')
  then show ?case
    by (cases p) (auto simp: pipe_defs Let_def split: pipe_splits)
next
  case (3 t c m p o')
  show ?case by (cases p) (auto simp: cas_access_def split: pipe_splits)
next
  case (4 t c m p m' p')
  then show ?case
    by (cases p) (auto simp: pipe_defs cas_access_def Let_def split: pipe_splits)
next
  case (5 t c m p m' p')
  then show ?case
    by (cases p) (auto simp: guarded_def deregister_def split: option.splits)
qed

end
