(* ===== verification/Ordered_Map.thy ===== *)
theory Ordered_Map
  imports Prelude
begin

text \<open>
  The operations of \<open>std::collections::BTreeMap\<close> that \<open>mmapcatch\<close> uses: insertion, removal, and the
  greatest entry of \<open>range(..=k)\<close> (\<open>next_back\<close>). The map is the list of its entries in ascending
  key order; the locale states the contract the client relies on and the interpretation shows that the
  list implementation meets it.
\<close>

section \<open>The contract\<close>

locale ordered_map =
  fixes invar :: "'m \<Rightarrow> bool"
    and lookup :: "'m \<Rightarrow> 'k::linorder \<Rightarrow> 'v option"
    and empty :: 'm
    and insert :: "'k \<Rightarrow> 'v \<Rightarrow> 'm \<Rightarrow> 'm"
    and remove :: "'k \<Rightarrow> 'm \<Rightarrow> 'v option \<times> 'm"
    and last_upto :: "'k \<Rightarrow> 'm \<Rightarrow> ('k \<times> 'v) option"
  assumes empty_laws: "invar empty" "lookup empty k = None"
    and insert_laws: "invar m \<Longrightarrow> invar (insert k v m)" "invar m \<Longrightarrow> lookup (insert k v m) = (lookup m)(k := Some v)"
    and remove_laws: "invar m \<Longrightarrow> invar (snd (remove k m))"
      "invar m \<Longrightarrow> lookup (snd (remove k m)) = (lookup m)(k := None)"
      "invar m \<Longrightarrow> fst (remove k m) = lookup m k"
    and last_upto_some: "invar m \<Longrightarrow> last_upto k m = Some (j, v) \<Longrightarrow>
      j \<le> k \<and> lookup m j = Some v \<and> (\<forall>i. j < i \<and> i \<le> k \<longrightarrow> lookup m i = None)"
    and last_upto_none: "invar m \<Longrightarrow> last_upto k m = None \<Longrightarrow> i \<le> k \<Longrightarrow> lookup m i = None"
begin

text \<open>The greatest entry up to \<open>k\<close> is determined by its key.\<close>

lemma last_upto_iff:
  assumes "invar m"
  shows "last_upto k m = Some (j, v) \<longleftrightarrow>
    j \<le> k \<and> lookup m j = Some v \<and> (\<forall>i. j < i \<and> i \<le> k \<longrightarrow> lookup m i = None)"
proof
  assume *: "j \<le> k \<and> lookup m j = Some v \<and> (\<forall>i. j < i \<and> i \<le> k \<longrightarrow> lookup m i = None)"
  then obtain j' v' where l: "last_upto k m = Some (j', v')"
    using last_upto_none [OF assms] by (cases "last_upto k m") auto
  from last_upto_some [OF assms l] * have "j' = j"
    by (metis linorder_less_linear option.distinct(1))
  with last_upto_some [OF assms l] * l show "last_upto k m = Some (j, v)" by simp
qed (rule last_upto_some [OF assms])

lemma last_upto_hit:
  assumes "invar m" and "lookup m k = Some v"
  shows "last_upto k m = Some (k, v)"
  using assms by (auto simp: last_upto_iff)

lemma last_upto_none_iff:
  assumes "invar m"
  shows "last_upto k m = None \<longleftrightarrow> (\<forall>i \<le> k. lookup m i = None)"
  using last_upto_none [OF assms] last_upto_some [OF assms, of k]
  by (cases "last_upto k m") auto

lemma insert_remove:
  assumes "invar m" and "lookup m k = None"
  shows "lookup (snd (remove k (insert k v m))) = lookup m" and "fst (remove k (insert k v m)) = Some v"
  using assms by (auto simp: insert_laws remove_laws fun_upd_idem)

end

section \<open>The implementation\<close>

type_synonym ('k, 'v) btree = "('k \<times> 'v) list"

definition bt_invar :: "('k::linorder, 'v) btree \<Rightarrow> bool" where
  "bt_invar m \<longleftrightarrow> sorted_wrt (<) (map fst m)"

fun bt_insert :: "'k::linorder \<Rightarrow> 'v \<Rightarrow> ('k, 'v) btree \<Rightarrow> ('k, 'v) btree" where
  "bt_insert k v [] = [(k, v)]"
| "bt_insert k v ((j, w) # m) =
     (if k < j then (k, v) # (j, w) # m
      else if k = j then (k, v) # m
      else (j, w) # bt_insert k v m)"

fun bt_remove :: "'k::linorder \<Rightarrow> ('k, 'v) btree \<Rightarrow> 'v option \<times> ('k, 'v) btree" where
  "bt_remove k [] = (None, [])"
| "bt_remove k ((j, w) # m) =
     (if k = j then (Some w, m) else case bt_remove k m of (r, m') \<Rightarrow> (r, (j, w) # m'))"

fun bt_last_upto :: "'k::linorder \<Rightarrow> ('k, 'v) btree \<Rightarrow> ('k \<times> 'v) option" where
  "bt_last_upto k [] = None"
| "bt_last_upto k ((j, w) # m) =
     (if k < j then None
      else case bt_last_upto k m of None \<Rightarrow> Some (j, w) | Some e \<Rightarrow> Some e)"

lemma bt_invar_simps [simp]:
  "bt_invar []" "bt_invar ((j, w) # m) \<longleftrightarrow> (\<forall>k \<in> fst ` set m. j < k) \<and> bt_invar m"
  by (auto simp: bt_invar_def)

lemma map_of_below: fixes l :: "'k::linorder" shows "\<forall>x \<in> set m. j < fst x \<Longrightarrow> l \<le> j \<Longrightarrow> map_of m l = None"
  by (induction m) (auto simp: map_of_eq_None_iff)

lemma bt_insert_in: "x \<in> set (bt_insert k v m) \<Longrightarrow> x = (k, v) \<or> x \<in> set m"
  by (induction m rule: bt_insert.induct [of _ k v]) (auto split: if_splits)

lemma bt_insert_invar: "bt_invar m \<Longrightarrow> bt_invar (bt_insert k v m)"
proof (induction k v m rule: bt_insert.induct)
  case (2 k v j w m)
  then show ?case by (auto dest!: bt_insert_in)
qed simp

lemma bt_insert_lookup: "bt_invar m \<Longrightarrow> map_of (bt_insert k v m) = (map_of m)(k \<mapsto> v)"
  by (induction m) (auto simp: fun_eq_iff)

lemma bt_remove_in: "x \<in> set (snd (bt_remove k m)) \<Longrightarrow> x \<in> set m"
  by (induction k m rule: bt_remove.induct) (auto split: if_splits prod.splits)

lemma bt_remove_invar: "bt_invar m \<Longrightarrow> bt_invar (snd (bt_remove k m))"
proof (induction m)
  case (Cons e m)
  obtain j w where e: "e = (j, w)" by (cases e)
  obtain r m' where rm: "bt_remove k m = (r, m')" by (cases "bt_remove k m")
  from bt_remove_in [of _ k m] rm have "x \<in> set m" if "x \<in> set m'" for x using that by simp
  with Cons e rm show ?case by auto
qed simp

lemma bt_remove_fst: "fst (bt_remove k m) = map_of m k"
  by (induction m) (auto split: prod.splits)

lemma bt_remove_lookup: "bt_invar m \<Longrightarrow> map_of (snd (bt_remove k m)) = (map_of m)(k := None)"
proof (induction m)
  case (Cons e m)
  obtain j w where e: "e = (j, w)" by (cases e)
  obtain r m' where rm: "bt_remove k m = (r, m')" by (cases "bt_remove k m")
  have "map_of m j = None"
    using Cons.prems e by (force simp: map_of_eq_None_iff)
  with Cons e rm show ?case by (auto simp: fun_eq_iff)
qed simp

lemma bt_last_upto_none:
  assumes "bt_invar m" and "bt_last_upto k m = None" and "i \<le> k"
  shows "map_of m i = None"
  using assms
proof (induction m)
  case (Cons e m)
  obtain j w where e: "e = (j, w)" by (cases e)
  from Cons.prems e have "k < j" by (auto split: if_splits option.splits)
  with Cons.prems e show ?case by (auto intro: map_of_below)
qed simp

lemma bt_last_upto_some:
  assumes "bt_invar m" and "bt_last_upto k m = Some (j, v)"
  shows "j \<le> k \<and> map_of m j = Some v \<and> (\<forall>i. j < i \<and> i \<le> k \<longrightarrow> map_of m i = None)"
  using assms
proof (induction m)
  case (Cons e m)
  obtain i w where e: "e = (i, w)" by (cases e)
  show ?case
  proof (cases "bt_last_upto k m")
    case None
    with Cons.prems e have *: "j = i" "v = w" "i \<le> k" by (auto split: if_splits)
    have "map_of m l = None" if "l \<le> k" for l
      using bt_last_upto_none [OF _ None that] Cons.prems(1) e by simp
    with * e show ?thesis by auto
  next
    case (Some e')
    with Cons e have *: "e' = (j, v)" "i \<le> k" "bt_invar m" by (auto split: if_splits)
    with Cons.IH Some have ih: "j \<le> k \<and> map_of m j = Some v \<and> (\<forall>i. j < i \<and> i \<le> k \<longrightarrow> map_of m i = None)"
      by simp
    then have "(j, v) \<in> set m" by (simp add: map_of_SomeD)
    then have "i < j" using Cons.prems(1) e by force
    with ih e show ?thesis by auto
  qed
qed simp

interpretation btree: ordered_map bt_invar map_of "[]" bt_insert bt_remove bt_last_upto
  by unfold_locales
    (auto intro: bt_insert_invar bt_remove_invar simp: bt_insert_lookup bt_remove_lookup bt_remove_fst
      dest: bt_last_upto_some bt_last_upto_none)

end
