(* ===== verification/Mmap_Root.thy ===== *)
theory Mmap_Root
  imports Ordered_Map
begin

text \<open>
  The registry of memory maps of \<open>mmapcatch\<close> (\<open>Root\<close> and \<open>Mapping\<close> in \<open>mmapcatch/src/lib.rs\<close>) and
  its two searches. A registered map is the half-open interval of the addresses
  \<open>start .. start + len - 1\<close>; the searches look at one entry only and rely on the intervals being
  disjoint.
\<close>

section \<open>Mappings and the registry\<close>

text \<open>\<open>m_state\<close> is the address of the mapping's shared \<open>State\<close>.\<close>

record mapping =
  m_start :: usize
  m_len :: usize
  mmap_prot :: int
  m_state :: nat

record root =
  root_map :: "(usize, mapping) btree"
  cleanly_unlocked :: bool

definition root_new :: root where
  "root_new = \<lparr>root_map = [], cleanly_unlocked = True\<rparr>"

text \<open>\<open>lookup_addr\<close>: the mapping that includes an address.\<close>

definition lookup_addr :: "bool \<Rightarrow> usize \<Rightarrow> root \<Rightarrow> panic + mapping option" where
  "lookup_addr dbg addr r =
     (case bt_last_upto addr (root_map r) of
        None \<Rightarrow> Inr None
      | Some (start, m) \<Rightarrow>
          if start \<le> addr then
            and_then (usize_add dbg start (m_len m))
              (\<lambda>stop. Inr (if addr < stop then Some m else None))
          else Inr None)"

text \<open>\<open>lookup_overlap\<close>: a mapping that overlaps the given interval.\<close>

definition lookup_overlap :: "bool \<Rightarrow> usize \<Rightarrow> usize \<Rightarrow> root \<Rightarrow> panic + mapping option" where
  "lookup_overlap dbg addr len r =
     and_then (usize_add dbg addr len) (\<lambda>stop.
     and_then (usize_sub dbg stop 1) (\<lambda>end_addr.
       case bt_last_upto end_addr (root_map r) of
         None \<Rightarrow> Inr None
       | Some (start, m) \<Rightarrow>
           and_then (usize_add dbg start (m_len m)) (\<lambda>m_stop.
             if addr < m_stop then
               and_then (usize_add dbg addr len) (\<lambda>stop. Inr (if start < stop then Some m else None))
             else Inr None)))"

section \<open>Intervals\<close>

text \<open>A non-empty interval that ends below the top of the address space.\<close>

definition region_ok :: "usize \<Rightarrow> usize \<Rightarrow> bool" where
  "region_ok start len \<longleftrightarrow> 0 < len \<and> unat start + unat len < 2 ^ 64"

definition in_region :: "usize \<Rightarrow> usize \<Rightarrow> usize \<Rightarrow> bool" where
  "in_region start len a \<longleftrightarrow> unat start \<le> unat a \<and> unat a < unat start + unat len"

definition overlapping :: "usize \<Rightarrow> usize \<Rightarrow> usize \<Rightarrow> usize \<Rightarrow> bool" where
  "overlapping s1 l1 s2 l2 \<longleftrightarrow> unat s1 < unat s2 + unat l2 \<and> unat s2 < unat s1 + unat l1"

lemma overlapping_sym: "overlapping s1 l1 s2 l2 \<longleftrightarrow> overlapping s2 l2 s1 l1"
  by (auto simp: overlapping_def)

text \<open>Two non-empty intervals overlap exactly when they have an address in common.\<close>

lemma overlapping_common:
  assumes "region_ok s1 l1" and "region_ok s2 l2"
  shows "overlapping s1 l1 s2 l2 \<longleftrightarrow> (\<exists>a. in_region s1 l1 a \<and> in_region s2 l2 a)"
proof
  assume "overlapping s1 l1 s2 l2"
  then have "in_region s1 l1 (max s1 s2) \<and> in_region s2 l2 (max s1 s2)"
    using assms by (auto simp: overlapping_def in_region_def region_ok_def max_def word_le_nat_alt word_less_nat_alt)
  then show "\<exists>a. in_region s1 l1 a \<and> in_region s2 l2 a" ..
qed (auto simp: overlapping_def in_region_def)

text \<open>A registry of disjoint intervals, each under the key of its start.\<close>

definition regions_ok :: "(usize \<rightharpoonup> mapping) \<Rightarrow> bool" where
  "regions_ok reg \<longleftrightarrow>
     (\<forall>k m. reg k = Some m \<longrightarrow> m_start m = k \<and> region_ok k (m_len m)) \<and>
     (\<forall>j k m n. reg j = Some m \<and> reg k = Some n \<and> j \<noteq> k \<longrightarrow> \<not> overlapping j (m_len m) k (m_len n))"

lemma regions_ok_at: "regions_ok reg \<Longrightarrow> reg k = Some m \<Longrightarrow> m_start m = k \<and> region_ok k (m_len m)"
  by (simp add: regions_ok_def)

lemma regions_ok_disjoint:
  "regions_ok reg \<Longrightarrow> reg j = Some m \<Longrightarrow> reg k = Some n \<Longrightarrow> overlapping j (m_len m) k (m_len n) \<Longrightarrow> j = k"
  unfolding regions_ok_def by blast

lemma regions_ok_remove: "regions_ok reg \<Longrightarrow> regions_ok (reg(k := None))"
  by (auto simp: regions_ok_def)

lemma regions_ok_insert:
  assumes "regions_ok reg" and "m_start m = k" and "region_ok k (m_len m)"
    and "\<And>j n. reg j = Some n \<Longrightarrow> \<not> overlapping k (m_len m) j (m_len n)"
  shows "regions_ok (reg(k \<mapsto> m))"
  unfolding regions_ok_def
proof (intro conjI allI impI)
  fix j n
  assume "(reg(k \<mapsto> m)) j = Some n"
  with assms(1-3) show "m_start n = j" and "region_ok j (m_len n)"
    by (auto dest: regions_ok_at split: if_splits)
next
  fix i j p q
  assume *: "(reg(k \<mapsto> m)) i = Some p \<and> (reg(k \<mapsto> m)) j = Some q \<and> i \<noteq> j"
  show "\<not> overlapping i (m_len p) j (m_len q)"
  proof (cases "i = k \<or> j = k")
    case True
    with * assms(4) overlapping_sym [of k] show ?thesis by auto
  next
    case False
    with * regions_ok_disjoint [OF assms(1)] show ?thesis by auto
  qed
qed

section \<open>Searching the greatest entry is enough\<close>

locale region_registry = ordered_map invar lookup empty insert remove last_upto
  for invar :: "'m \<Rightarrow> bool" and lookup :: "'m \<Rightarrow> usize \<Rightarrow> mapping option" and empty :: 'm
    and insert :: "usize \<Rightarrow> mapping \<Rightarrow> 'm \<Rightarrow> 'm" and remove :: "usize \<Rightarrow> 'm \<Rightarrow> mapping option \<times> 'm"
    and last_upto :: "usize \<Rightarrow> 'm \<Rightarrow> (usize \<times> mapping) option"
begin

lemma covering_is_last:
  assumes inv: "invar r" and ok: "regions_ok (lookup r)"
    and k: "lookup r k = Some m" and cov: "in_region k (m_len m) a"
  shows "last_upto a r = Some (k, m)"
proof -
  have "lookup r i = None" if "k < i" "i \<le> a" for i
  proof (rule ccontr)
    assume "lookup r i \<noteq> None"
    then obtain n where n: "lookup r i = Some n" by blast
    have "overlapping k (m_len m) i (m_len n)"
      using regions_ok_at [OF ok n] cov that
      by (auto simp: overlapping_def in_region_def region_ok_def word_less_nat_alt word_le_nat_alt)
    with regions_ok_disjoint [OF ok k n] that(1) show False by simp
  qed
  with k cov show ?thesis
    by (simp add: last_upto_iff [OF inv] in_region_def word_le_nat_alt)
qed

lemma overlap_is_last:
  assumes inv: "invar r" and ok: "regions_ok (lookup r)"
    and "lookup r k = Some m" and "overlapping addr len k (m_len m)"
    and region: "region_ok addr len" and last: "unat e = unat addr + unat len - 1"
  obtains j n where "last_upto e r = Some (j, n)" and "overlapping addr len j (m_len n)"
proof -
  have k: "lookup r k = Some m" "k \<le> e"
    using assms by (auto simp: overlapping_def region_ok_def word_le_nat_alt)
  then obtain j n where j: "last_upto e r = Some (j, n)"
    using last_upto_none [OF inv] by (cases "last_upto e r") auto
  note jn = last_upto_some [OF inv j]
  have "overlapping addr len j (m_len n)"
  proof (cases "j = k")
    case True
    with jn k assms(4) show ?thesis by simp
  next
    case False
    with jn k have "k < j" by (metis linorder_less_linear option.distinct(1))
    with jn regions_ok_disjoint [OF ok k(1), of j n] have "\<not> overlapping k (m_len m) j (m_len n)" by auto
    with \<open>k < j\<close> jn regions_ok_at [OF ok, of j n] assms(4) region last show ?thesis
      by (auto simp: overlapping_def region_ok_def word_le_nat_alt word_less_nat_alt)
  qed
  with j that show thesis by blast
qed

end

interpretation registry: region_registry bt_invar map_of "[]" bt_insert bt_remove bt_last_upto
  by unfold_locales

definition root_ok :: "root \<Rightarrow> bool" where
  "root_ok r \<longleftrightarrow> bt_invar (root_map r) \<and> regions_ok (map_of (root_map r))"

lemma root_ok_parts:
  assumes "root_ok r"
  shows "bt_invar (root_map r)" and "regions_ok (map_of (root_map r))"
  using assms by (simp_all add: root_ok_def)

lemma root_ok_new: "root_ok root_new"
  by (simp add: root_ok_def root_new_def regions_ok_def)

text \<open>The stop address of a registered interval does not wrap around.\<close>

lemma region_stop:
  assumes "region_ok start len"
  shows "usize_add dbg start len = Inr (start + len)" and "unat (start + len) = unat start + unat len"
  using assms usize_add_exact [of start len] by (simp_all add: region_ok_def)

lemma root_last:
  assumes "root_ok r" and "bt_last_upto a (root_map r) = Some (k, m)"
  shows "k \<le> a" and "map_of (root_map r) k = Some m" and "m_start m = k" and "region_ok k (m_len m)"
proof -
  have inv: "bt_invar (root_map r)" and ok: "regions_ok (map_of (root_map r))"
    using assms(1) by (simp_all add: root_ok_def)
  show "k \<le> a" and k: "map_of (root_map r) k = Some m"
    using btree.last_upto_some [OF inv assms(2)] by simp_all
  from regions_ok_at [OF ok k] show "m_start m = k" and "region_ok k (m_len m)" by simp_all
qed

lemma lookup_addr_eq:
  assumes "root_ok r"
  shows "lookup_addr dbg addr r =
    Inr (case bt_last_upto addr (root_map r) of
           Some (k, m) \<Rightarrow> if in_region k (m_len m) addr then Some m else None | None \<Rightarrow> None)"
proof (cases "bt_last_upto addr (root_map r)")
  case None
  then show ?thesis by (simp add: lookup_addr_def)
next
  case (Some e)
  then obtain k m where e: "bt_last_upto addr (root_map r) = Some (k, m)" by (cases e) auto
  note m = region_stop [OF root_last(4) [OF assms e]]
  from root_last(1) [OF assms e] show ?thesis
    by (simp add: lookup_addr_def e m(1) in_region_def word_le_nat_alt word_less_nat_alt m(2))
qed

lemma lookup_addr_some:
  assumes r: "root_ok r"
  shows "lookup_addr dbg addr r = Inr (Some m) \<longleftrightarrow>
    map_of (root_map r) (m_start m) = Some m \<and> in_region (m_start m) (m_len m) addr"
proof
  assume "lookup_addr dbg addr r = Inr (Some m)"
  then obtain k where "bt_last_upto addr (root_map r) = Some (k, m)" "in_region k (m_len m) addr"
    by (auto simp: lookup_addr_eq [OF r] split: option.splits if_splits)
  with root_last [OF r this(1)] show "map_of (root_map r) (m_start m) = Some m \<and> in_region (m_start m) (m_len m) addr"
    by simp
next
  assume *: "map_of (root_map r) (m_start m) = Some m \<and> in_region (m_start m) (m_len m) addr"
  with r have "bt_last_upto addr (root_map r) = Some (m_start m, m)"
    by (intro registry.covering_is_last) (simp_all add: root_ok_def)
  with * show "lookup_addr dbg addr r = Inr (Some m)"
    by (simp add: lookup_addr_eq [OF r])
qed

lemma lookup_addr_total:
  assumes "root_ok r"
  obtains x where "lookup_addr dbg addr r = Inr x"
  using lookup_addr_eq [OF assms] by blast

lemma lookup_addr_none:
  assumes r: "root_ok r"
  shows "lookup_addr dbg addr r = Inr None \<longleftrightarrow>
    (\<forall>k m. map_of (root_map r) k = Some m \<longrightarrow> \<not> in_region k (m_len m) addr)"
proof
  assume none: "lookup_addr dbg addr r = Inr None"
  show "\<forall>k m. map_of (root_map r) k = Some m \<longrightarrow> \<not> in_region k (m_len m) addr"
  proof (intro allI impI notI)
    fix k m assume k: "map_of (root_map r) k = Some m" and "in_region k (m_len m) addr"
    moreover have "m_start m = k" using regions_ok_at [OF root_ok_parts(2) [OF r] k] by simp
    ultimately have "lookup_addr dbg addr r = Inr (Some m)" by (simp add: lookup_addr_some [OF r])
    with none show False by simp
  qed
next
  assume none: "\<forall>k m. map_of (root_map r) k = Some m \<longrightarrow> \<not> in_region k (m_len m) addr"
  obtain x where x: "lookup_addr dbg addr r = Inr x" by (rule lookup_addr_total [OF r])
  show "lookup_addr dbg addr r = Inr None"
  proof (cases x)
    case (Some m)
    with x none lookup_addr_some [OF r, of dbg addr m] show ?thesis by blast
  qed (simp add: x)
qed

lemma lookup_overlap_eq:
  assumes r: "root_ok r" and region: "region_ok addr len"
  shows "lookup_overlap dbg addr len r =
    Inr (case bt_last_upto (addr + len - 1) (root_map r) of
           Some (k, m) \<Rightarrow> if overlapping addr len k (m_len m) then Some m else None | None \<Rightarrow> None)"
    and "unat (addr + len - 1) = unat addr + unat len - 1"
proof -
  note stop = region_stop [OF region]
  have "1 \<le> addr + len"
    using stop(2) region by (auto simp: word_le_nat_alt word_less_nat_alt region_ok_def)
  note sub = usize_sub_exact [OF this]
  from sub(2) stop(2) show "unat (addr + len - 1) = unat addr + unat len - 1" by simp
  show "lookup_overlap dbg addr len r =
    Inr (case bt_last_upto (addr + len - 1) (root_map r) of
           Some (k, m) \<Rightarrow> if overlapping addr len k (m_len m) then Some m else None | None \<Rightarrow> None)"
  proof (cases "bt_last_upto (addr + len - 1) (root_map r)")
    case None
    then show ?thesis by (simp add: lookup_overlap_def stop sub)
  next
    case (Some e)
    then obtain k m where e: "bt_last_upto (addr + len - 1) (root_map r) = Some (k, m)" by (cases e) auto
    note m = region_stop [OF root_last(4) [OF r e]]
    show ?thesis
      by (simp add: lookup_overlap_def stop(1) sub(1) m(1) e overlapping_def word_less_nat_alt stop(2) m(2))
  qed
qed

lemma lookup_overlap_some:
  assumes r: "root_ok r" and region: "region_ok addr len"
    and some: "lookup_overlap dbg addr len r = Inr (Some m)"
  shows "map_of (root_map r) (m_start m) = Some m \<and> overlapping addr len (m_start m) (m_len m)"
proof -
  from some obtain k where "bt_last_upto (addr + len - 1) (root_map r) = Some (k, m)" "overlapping addr len k (m_len m)"
    by (auto simp: lookup_overlap_eq(1) [OF r region] split: option.splits if_splits)
  with root_last [OF r this(1)] show ?thesis by simp
qed

lemma lookup_overlap_none:
  assumes r: "root_ok r" and region: "region_ok addr len"
  shows "lookup_overlap dbg addr len r = Inr None \<longleftrightarrow>
    (\<forall>k m. map_of (root_map r) k = Some m \<longrightarrow> \<not> overlapping addr len k (m_len m))"
proof
  assume none: "lookup_overlap dbg addr len r = Inr None"
  show "\<forall>k m. map_of (root_map r) k = Some m \<longrightarrow> \<not> overlapping addr len k (m_len m)"
  proof (intro allI impI notI)
    fix k m assume "map_of (root_map r) k = Some m" "overlapping addr len k (m_len m)"
    note registry.overlap_is_last [OF root_ok_parts [OF r] this region lookup_overlap_eq(2) [OF r region]]
    then obtain j n where "bt_last_upto (addr + len - 1) (root_map r) = Some (j, n)"
      "overlapping addr len j (m_len n)" .
    with none show False by (simp add: lookup_overlap_eq(1) [OF r region])
  qed
next
  assume none: "\<forall>k m. map_of (root_map r) k = Some m \<longrightarrow> \<not> overlapping addr len k (m_len m)"
  obtain x where x: "lookup_overlap dbg addr len r = Inr x" using lookup_overlap_eq(1) [OF r region] by blast
  show "lookup_overlap dbg addr len r = Inr None"
  proof (cases x)
    case (Some m)
    with x none lookup_overlap_some [OF r region, of dbg m] show ?thesis by blast
  qed (simp add: x)
qed

end
