(* ===== verification/Mmap_World.thy ===== *)
theory Mmap_World
  imports Mmap_Root Pipe_Lock
begin

text \<open>
  The operations of \<open>mmapcatch\<close> outside the signal handler (\<open>mmapcatch/src/lib.rs\<close>): the global
  state, \<open>with_root\<close> with its poisoning, \<open>install_signal_handler\<close>, \<open>register_mmap\<close> and the guard.
  The critical sections of \<open>ROOT\<close> are serializable (theory Registry\_Lock), so each of them is one
  transition here; taking the lock has the three outcomes of the abstract lock.
\<close>

section \<open>The global state\<close>

text \<open>A mapping's shared \<open>State\<close>; an \<open>Arc<State>\<close> is an index into the list of all states.\<close>

record state =
  err :: bool
  err_addr :: usize
  fix_addr :: usize
  si_code :: int

definition state_new :: state where
  "state_new = \<lparr>err = False, err_addr = 0, fix_addr = 0, si_code = 0\<rparr>"

datatype once = Incomplete | Complete | OncePoisoned

text \<open>
  \<open>static_root\<close> is \<open>None\<close> until \<open>TryOnce\<close> has completed, \<open>holder\<close> is the owner of its \<open>SignalLock\<close>,
  \<open>handler\<close> the state of \<open>ONCE\<close>, \<open>remaps\<close> the anonymous mappings (address, length and protection)
  that have been put over memory, latest first.
\<close>

record world =
  static_root :: "root option"
  holder :: "tid option"
  states :: "state list"
  handler :: once
  remaps :: "(usize \<times> usize \<times> int) list"
  errno_of :: int

definition initial_world :: world where
  "initial_world =
     \<lparr>static_root = None, holder = None, states = [], handler = Incomplete, remaps = [], errno_of = 0\<rparr>"

text \<open>
  An operation returns, panics, aborts the process, or waits for a lock that another thread holds.
\<close>

datatype sigbus_abort =
  SomeOtherSigbus | RecursiveSigbus | NoPageSize | BadPageSize | NullPage | MmapFailed | MmapMoved

datatype 'a outcome = Ret 'a | Panic panic | Abort sigbus_abort | Blocked

text \<open>Sequencing: anything but a result ends the operation.\<close>

fun then_do :: "'a outcome \<times> world \<Rightarrow> ('a \<Rightarrow> world \<Rightarrow> 'b outcome \<times> world) \<Rightarrow> 'b outcome \<times> world" where
  "then_do (Ret a, w) k = k a w"
| "then_do (Panic p, w) k = (Panic p, w)"
| "then_do (Abort a, w) k = (Abort a, w)"
| "then_do (Blocked, w) k = (Blocked, w)"

section \<open>The lock and the initialization of \<open>ROOT\<close>\<close>

definition root_lock :: "tid \<Rightarrow> world \<Rightarrow> (signal_lock_error + unit) outcome \<times> world" where
  "root_lock t w =
     (case holder w of
        None \<Rightarrow> (Ret (Inr ()), w\<lparr>holder := Some t\<rparr>)
      | Some u \<Rightarrow> if u = t then (Ret (Inl Recursive), w) else (Blocked, w))"

text \<open>
  \<open>StaticRoot::get_or_init\<close> with \<open>TryOnce::try_call\<close>: \<open>created\<close> is the result of
  \<open>SignalLock::new\<close>, which is not called again once it has succeeded.
\<close>

definition get_or_init :: "pipe_new_error option \<Rightarrow> world \<Rightarrow> (pipe_new_error + unit) \<times> world" where
  "get_or_init created w =
     (case static_root w of
        Some r \<Rightarrow> (Inr (), w)
      | None \<Rightarrow>
          (case created of
             Some e \<Rightarrow> (Inl e, w)
           | None \<Rightarrow> (Inr (), w\<lparr>static_root := Some root_new, holder := None\<rparr>)))"

text \<open>
  \<open>with_root\<close>. The closure works on the root and the list of states; when it panics, its changes
  stay, the guard is dropped during unwinding and \<open>cleanly_unlocked\<close> remains false.
\<close>

definition unwrap_lock :: "signal_lock_error + unit \<Rightarrow> world \<Rightarrow> unit outcome \<times> world" where
  "unwrap_lock res w = (case res of Inl e \<Rightarrow> (Panic UnwrapFailed, w) | Inr u \<Rightarrow> (Ret (), w))"

definition with_root ::
    "pipe_new_error option \<Rightarrow> tid \<Rightarrow> (root \<Rightarrow> state list \<Rightarrow> (panic + 'a) \<times> root \<times> state list) \<Rightarrow>
     world \<Rightarrow> (pipe_new_error + 'a) outcome \<times> world" where
  "with_root created t f w =
     (case get_or_init created w of
        (Inl e, w1) \<Rightarrow> (Ret (Inl e), w1)
      | (Inr u, w1) \<Rightarrow>
          then_do (then_do (root_lock t w1) unwrap_lock) (\<lambda>u w2.
            let r = the (static_root w2) in
            if \<not> cleanly_unlocked r then (Panic Poisoned, w2\<lparr>holder := None\<rparr>)
            else
              (case f (r\<lparr>cleanly_unlocked := False\<rparr>) (states w2) of
                 (Inl p, r', sts) \<Rightarrow> (Panic p, w2\<lparr>static_root := Some r', states := sts, holder := None\<rparr>)
               | (Inr res, r', sts) \<Rightarrow>
                   (Ret (Inr res),
                    w2\<lparr>static_root := Some (r'\<lparr>cleanly_unlocked := True\<rparr>), states := sts, holder := None\<rparr>))))"

section \<open>Registering a map\<close>

datatype register_error = Overlap usize usize | RegPipeFailed errno | RegFcntlFailed errno

text \<open>The conversion of errors that the \<open>?\<close> operator applies.\<close>

fun register_error_from :: "pipe_new_error \<Rightarrow> register_error" where
  "register_error_from (PipeFailed e) = RegFcntlFailed e"
| "register_error_from (FcntlFailed e) = RegPipeFailed e"

record guard =
  guard_addr :: usize
  guard_state :: nat

text \<open>
  \<open>install_signal_handler\<close> runs its closure once; \<open>sigfillset\<close> and \<open>sigaction\<close> tell whether the
  calls succeed. A panic in it poisons \<open>ONCE\<close>, and then every later call panics.
\<close>

definition install_signal_handler :: "bool \<Rightarrow> bool \<Rightarrow> world \<Rightarrow> unit outcome \<times> world" where
  "install_signal_handler sigfillset sigaction w =
     (case handler w of
        Complete \<Rightarrow> (Ret (), w)
      | OncePoisoned \<Rightarrow> (Panic Poisoned, w)
      | Incomplete \<Rightarrow>
          if \<not> sigfillset then (Panic AssertFailed, w\<lparr>handler := OncePoisoned\<rparr>)
          else if \<not> sigaction then (Panic ExplicitPanic, w\<lparr>handler := OncePoisoned\<rparr>)
          else (Ret (), w\<lparr>handler := Complete\<rparr>))"

text \<open>The closure that \<open>register_mmap\<close> passes to \<open>with_root\<close>.\<close>

definition register_in_root ::
    "bool \<Rightarrow> usize \<Rightarrow> usize \<Rightarrow> int \<Rightarrow> root \<Rightarrow> state list \<Rightarrow>
     (panic + (register_error + guard)) \<times> root \<times> state list" where
  "register_in_root dbg addr len prot r sts =
     (case lookup_overlap dbg addr len r of
        Inl p \<Rightarrow> (Inl p, r, sts)
      | Inr (Some overlap) \<Rightarrow> (Inr (Inl (Overlap (m_start overlap) (m_len overlap))), r, sts)
      | Inr None \<Rightarrow>
          let state = length sts;
              m = \<lparr>m_start = addr, m_len = len, mmap_prot = prot, m_state = state\<rparr> in
          (Inr (Inr \<lparr>guard_addr = addr, guard_state = state\<rparr>),
           r\<lparr>root_map := bt_insert addr m (root_map r)\<rparr>, sts @ [state_new]))"

text \<open>The results of \<open>sigfillset\<close>, \<open>sigaction\<close> and \<open>SignalLock::new\<close>.\<close>

record setup_results =
  sigfillset_ok :: bool
  sigaction_ok :: bool
  lock_created :: "pipe_new_error option"

definition register_mmap ::
    "bool \<Rightarrow> setup_results \<Rightarrow> tid \<Rightarrow> usize \<Rightarrow> usize \<Rightarrow> int \<Rightarrow> world \<Rightarrow> (register_error + guard) outcome \<times> world" where
  "register_mmap dbg sr t addr len prot w =
     then_do (install_signal_handler (sigfillset_ok sr) (sigaction_ok sr) w) (\<lambda>u w1.
     then_do (with_root (lock_created sr) t (register_in_root dbg addr len prot) w1) (\<lambda>res w2.
       (Ret (case res of Inl e \<Rightarrow> Inl (register_error_from e) | Inr reg \<Rightarrow> reg), w2)))"

section \<open>The guard\<close>

definition is_err :: "guard \<Rightarrow> world \<Rightarrow> bool" where
  "is_err g w = err (states w ! guard_state g)"

definition guard_err_addr :: "guard \<Rightarrow> world \<Rightarrow> usize" where
  "guard_err_addr g w = err_addr (states w ! guard_state g)"

definition guard_fix_addr :: "guard \<Rightarrow> world \<Rightarrow> usize" where
  "guard_fix_addr g w = fix_addr (states w ! guard_state g)"

definition guard_si_code :: "guard \<Rightarrow> world \<Rightarrow> int" where
  "guard_si_code g w = si_code (states w ! guard_state g)"

text \<open>\<open>Drop for Guard\<close>: the closure, and the drop, which ignores an error of \<open>with_root\<close>.\<close>

definition remove_from_root ::
    "guard \<Rightarrow> root \<Rightarrow> state list \<Rightarrow> (panic + mapping) \<times> root \<times> state list" where
  "remove_from_root g r sts =
     (case bt_remove (guard_addr g) (root_map r) of
        (None, m') \<Rightarrow> (Inl ExpectFailed, r\<lparr>root_map := m'\<rparr>, sts)
      | (Some m, m') \<Rightarrow>
          (if m_state m = guard_state g then Inr m else Inl AssertFailed, r\<lparr>root_map := m'\<rparr>, sts))"

definition guard_drop :: "pipe_new_error option \<Rightarrow> tid \<Rightarrow> guard \<Rightarrow> world \<Rightarrow> unit outcome \<times> world" where
  "guard_drop created t g w =
     then_do (with_root created t (remove_from_root g) w) (\<lambda>res w1. (Ret (), w1))"

section \<open>The invariant\<close>

definition current_root :: "world \<Rightarrow> root" where
  "current_root w = (case static_root w of None \<Rightarrow> root_new | Some r \<Rightarrow> r)"

definition registry :: "world \<Rightarrow> usize \<rightharpoonup> mapping" where
  "registry w = map_of (root_map (current_root w))"

text \<open>Every mapping has a state of its own.\<close>

definition own_states :: "(usize \<rightharpoonup> mapping) \<Rightarrow> nat \<Rightarrow> bool" where
  "own_states reg n \<longleftrightarrow>
     (\<forall>k m. reg k = Some m \<longrightarrow> m_state m < n) \<and>
     (\<forall>j k m m'. reg j = Some m \<and> reg k = Some m' \<and> m_state m = m_state m' \<longrightarrow> j = k)"

definition world_ok :: "world \<Rightarrow> bool" where
  "world_ok w \<longleftrightarrow> root_ok (current_root w) \<and> cleanly_unlocked (current_root w) \<and>
     own_states (registry w) (length (states w))"

lemma world_ok_initial: "world_ok initial_world"
  by (simp add: world_ok_def current_root_def initial_world_def root_ok_new registry_def own_states_def)
    (simp add: root_new_def)

lemma own_states_insert:
  assumes "own_states reg n" and "m_state m = n"
  shows "own_states (reg(k \<mapsto> m)) (Suc n)"
proof -
  have "m_state m' < n" if "reg j = Some m'" for j m' using assms(1) that by (simp add: own_states_def)
  with assms show ?thesis
    unfolding own_states_def by (auto simp: less_Suc_eq split: if_splits) (metis less_irrefl)+
qed

lemma own_states_remove: "own_states reg n \<Longrightarrow> own_states (reg(k := None)) n"
  unfolding own_states_def by (auto split: if_splits)

lemma root_ok_clean [simp]: "root_ok (r\<lparr>cleanly_unlocked := b\<rparr>) = root_ok r"
  by (simp add: root_ok_def)

section \<open>\<open>with_root\<close>\<close>

text \<open>The lock is free and the root exists or can be created.\<close>

definition root_available :: "pipe_new_error option \<Rightarrow> world \<Rightarrow> bool" where
  "root_available created w \<longleftrightarrow> holder w = None \<and> (static_root w = None \<longrightarrow> created = None)"

lemma with_root_runs:
  assumes "root_available created w" and "cleanly_unlocked (current_root w)"
  shows "with_root created t f w =
    (case f ((current_root w)\<lparr>cleanly_unlocked := False\<rparr>) (states w) of
       (Inl p, r', sts) \<Rightarrow> (Panic p, w\<lparr>static_root := Some r', states := sts, holder := None\<rparr>)
     | (Inr res, r', sts) \<Rightarrow>
         (Ret (Inr res),
          w\<lparr>static_root := Some (r'\<lparr>cleanly_unlocked := True\<rparr>), states := sts, holder := None\<rparr>))"
  using assms
  by (cases "static_root w")
    (auto simp: with_root_def get_or_init_def root_lock_def unwrap_lock_def current_root_def
      root_available_def root_new_def Let_def split: prod.splits sum.splits)

text \<open>A root that a panic has left poisoned panics in every call, and the lock is released.\<close>

lemma with_root_poisoned:
  assumes "static_root w = Some r" and "\<not> cleanly_unlocked r" and "holder w = None"
  shows "with_root created t f w = (Panic Poisoned, w)"
  using assms
  by (simp add: with_root_def get_or_init_def root_lock_def unwrap_lock_def Let_def)

section \<open>Registering and unregistering\<close>

lemma install_ok:
  assumes "install_signal_handler sf sa w = (Ret u, w1)"
  shows "w1 = w\<lparr>handler := Complete\<rparr>"
  using assms by (auto simp: install_signal_handler_def split: once.splits if_splits)

lemma current_root_update [simp]:
  "current_root (w\<lparr>handler := x\<rparr>) = current_root w" "current_root (w\<lparr>static_root := Some r\<rparr>) = r"
  "current_root (w\<lparr>states := y\<rparr>) = current_root w" "current_root (w\<lparr>holder := z\<rparr>) = current_root w"
  by (simp_all add: current_root_def)

lemma register_run:
  assumes ok: "world_ok w" and avail: "root_available (lock_created sr) w"
    and inst: "install_signal_handler (sigfillset_ok sr) (sigaction_ok sr) w = (Ret (), w1)"
    and region: "region_ok addr len"
  obtains m where "lookup_overlap dbg addr len (current_root w) = Inr (Some m)"
      "register_mmap dbg sr t addr len prot w =
        (Ret (Inl (Overlap (m_start m) (m_len m))),
         w1\<lparr>static_root := Some (current_root w), holder := None\<rparr>)"
  | m where "lookup_overlap dbg addr len (current_root w) = Inr None"
      "m = \<lparr>m_start = addr, m_len = len, mmap_prot = prot, m_state = length (states w)\<rparr>"
      "register_mmap dbg sr t addr len prot w =
        (Ret (Inr \<lparr>guard_addr = addr, guard_state = length (states w)\<rparr>),
         w1\<lparr>static_root := Some ((current_root w)\<lparr>root_map := bt_insert addr m (root_map (current_root w))\<rparr>),
           states := states w @ [state_new], holder := None\<rparr>)"
proof -
  have w1: "w1 = w\<lparr>handler := Complete\<rparr>" by (rule install_ok [OF inst])
  have avail1: "root_available (lock_created sr) (w\<lparr>handler := Complete\<rparr>)"
    and clean1: "cleanly_unlocked (current_root (w\<lparr>handler := Complete\<rparr>))"
    using avail ok by (simp_all add: root_available_def world_ok_def)
  have same: "lookup_overlap dbg addr len ((current_root w)\<lparr>cleanly_unlocked := False\<rparr>) =
      lookup_overlap dbg addr len (current_root w)"
    by (simp add: lookup_overlap_def)
  have clean: "(current_root w)\<lparr>cleanly_unlocked := True\<rparr> = current_root w"
    "(current_root w)\<lparr>root_map := x, cleanly_unlocked := True\<rparr> = (current_root w)\<lparr>root_map := x\<rparr>" for x
    using ok by (simp_all add: world_ok_def)
  have rok: "root_ok (current_root w)" using ok by (simp add: world_ok_def)
  obtain res where res: "lookup_overlap dbg addr len (current_root w) = Inr res"
    using lookup_overlap_eq(1) [OF rok region] by blast
  show thesis
  proof (cases res)
    case None
    with that(2) [OF _ refl] res same clean show ?thesis
      by (simp add: register_mmap_def inst with_root_runs [OF avail1 clean1] register_in_root_def w1 Let_def)
  next
    case (Some m)
    with that(1) [of m] res same clean show ?thesis
      by (simp add: register_mmap_def inst with_root_runs [OF avail1 clean1] register_in_root_def w1)
  qed
qed

lemma world_ok_parts:
  assumes "world_ok w"
  shows "root_ok (current_root w)" and "cleanly_unlocked (current_root w)"
    and "own_states (registry w) (length (states w))" and "bt_invar (root_map (current_root w))"
    and "regions_ok (registry w)"
  using assms by (simp_all add: world_ok_def root_ok_def registry_def)

text \<open>A successful registration adds one mapping, with a new state, and keeps the invariant.\<close>

lemma insert_world_ok:
  assumes m_def: "m = \<lparr>m_start = addr, m_len = len, mmap_prot = prot, m_state = length (states w)\<rparr>"
    and ok: "world_ok w" and region: "region_ok addr len"
    and none: "lookup_overlap dbg addr len (current_root w) = Inr None"
    and w': "current_root w' = (current_root w)\<lparr>root_map := bt_insert addr m (root_map (current_root w))\<rparr>"
    and st: "states w' = states w @ [state_new]"
  shows "registry w' = (registry w)(addr \<mapsto> m)" and "world_ok w'"
proof -
  note parts = world_ok_parts [OF ok]
  show reg: "registry w' = (registry w)(addr \<mapsto> m)"
    by (simp add: registry_def w' bt_insert_lookup [OF parts(4)])
  have "regions_ok ((registry w)(addr \<mapsto> m))"
    using lookup_overlap_none [OF parts(1) region, of dbg] none region
    by (intro regions_ok_insert [OF parts(5)]) (simp_all add: m_def registry_def)
  then show "world_ok w'"
    using own_states_insert [OF parts(3), of m addr] bt_insert_invar [OF parts(4), of addr m] reg parts(2)
    by (simp add: world_ok_def root_ok_def registry_def w' st m_def)
qed

text \<open>The guard's mapping is registered and refers to the guard's state.\<close>

definition guard_ok :: "guard \<Rightarrow> world \<Rightarrow> bool" where
  "guard_ok g w \<longleftrightarrow>
     (\<exists>m. registry w (guard_addr g) = Some m \<and> m_state m = guard_state g)"

text \<open>The two ways in which a registration ends.\<close>

lemma register_cases:
  assumes ok: "world_ok w" and avail: "root_available (lock_created sr) w"
    and inst: "install_signal_handler (sigfillset_ok sr) (sigaction_ok sr) w = (Ret (), w1)"
    and region: "region_ok addr len"
  obtains (refused) m w' where
      "register_mmap dbg sr t addr len prot w = (Ret (Inl (Overlap (m_start m) (m_len m))), w')"
      "registry w (m_start m) = Some m" "overlapping addr len (m_start m) (m_len m)"
      "registry w' = registry w" "states w' = states w"
      "world_ok w'" "holder w' = None" "static_root w' \<noteq> None" "remaps w' = remaps w" "handler w' = Complete"
  | (added) g w' where
      "register_mmap dbg sr t addr len prot w = (Ret (Inr g), w')" "guard_addr g = addr"
      "\<And>k m. registry w k = Some m \<Longrightarrow> \<not> overlapping addr len k (m_len m)"
      "registry w' = (registry w)(addr \<mapsto>
        \<lparr>m_start = addr, m_len = len, mmap_prot = prot, m_state = guard_state g\<rparr>)"
      "states w' = states w @ [state_new]" "guard_state g = length (states w)"
      "world_ok w'" "holder w' = None" "static_root w' \<noteq> None" "remaps w' = remaps w" "handler w' = Complete"
proof -
  note parts = world_ok_parts [OF ok]
  have w1: "w1 = w\<lparr>handler := Complete\<rparr>" by (rule install_ok [OF inst])
  show thesis
  proof (rule register_run [OF ok avail inst region, of dbg t prot])
    fix m
    assume some: "lookup_overlap dbg addr len (current_root w) = Inr (Some m)"
      and run: "register_mmap dbg sr t addr len prot w =
        (Ret (Inl (Overlap (m_start m) (m_len m))), w1\<lparr>static_root := Some (current_root w), holder := None\<rparr>)"
    show thesis
      by (rule refused [OF run])
        (use lookup_overlap_some [OF parts(1) region some] ok in \<open>simp_all add: w1 world_ok_def registry_def\<close>)
  next
    fix m
    assume none: "lookup_overlap dbg addr len (current_root w) = Inr None"
      and m: "m = \<lparr>m_start = addr, m_len = len, mmap_prot = prot, m_state = length (states w)\<rparr>"
      and run: "register_mmap dbg sr t addr len prot w =
        (Ret (Inr \<lparr>guard_addr = addr, guard_state = length (states w)\<rparr>),
         w1\<lparr>static_root := Some ((current_root w)\<lparr>root_map := bt_insert addr m (root_map (current_root w))\<rparr>),
           states := states w @ [state_new], holder := None\<rparr>)" (is "_ = (_, ?w')")
    have "registry ?w' = (registry w)(addr \<mapsto> m)" and "world_ok ?w'"
      by (rule insert_world_ok [OF m ok region none]; simp)+
    moreover have "\<not> overlapping addr len k (m_len n)" if "registry w k = Some n" for k n
      using lookup_overlap_none [OF parts(1) region, of dbg] none that by (simp add: registry_def)
    ultimately show thesis
      by (intro added [OF run]) (simp_all add: w1 m)
  qed
qed

lemma guard_drop_run:
  assumes ok: "world_ok w" and free: "holder w = None" and g: "guard_ok g w"
  obtains w' where "guard_drop created t g w = (Ret (), w')"
    and "registry w' = (registry w)(guard_addr g := None)" and "world_ok w'" and "holder w' = None"
    and "states w' = states w" and "remaps w' = remaps w" and "handler w' = handler w"
proof -
  note parts = world_ok_parts [OF ok]
  from g obtain m where m: "registry w (guard_addr g) = Some m" "m_state m = guard_state g"
    by (auto simp: guard_ok_def)
  then obtain r where r: "static_root w = Some r"
    by (cases "static_root w") (auto simp: registry_def current_root_def root_new_def)
  then have avail: "root_available created w" and cur: "current_root w = r"
    using free by (simp_all add: root_available_def current_root_def)
  obtain rest where rem: "bt_remove (guard_addr g) (root_map r) = (Some m, rest)"
    using bt_remove_fst [of "guard_addr g" "root_map r"] m(1)
    by (cases "bt_remove (guard_addr g) (root_map r)") (simp add: registry_def cur)
  define w' where "w' = w\<lparr>static_root := Some (r\<lparr>root_map := rest, cleanly_unlocked := True\<rparr>), holder := None\<rparr>"
  have drop: "guard_drop created t g w = (Ret (), w')"
    by (simp add: guard_drop_def with_root_runs [OF avail parts(2)] remove_from_root_def cur rem m(2) w'_def)
  have cur': "current_root w' = r\<lparr>root_map := rest, cleanly_unlocked := True\<rparr>"
    by (simp add: w'_def)
  have reg: "registry w' = (registry w)(guard_addr g := None)"
    using bt_remove_lookup [OF parts(4), of "guard_addr g"] by (simp add: registry_def cur' cur rem)
  then have "world_ok w'"
    using own_states_remove [OF parts(3)] regions_ok_remove [OF parts(5)]
      bt_remove_invar [OF parts(4), of "guard_addr g"]
    by (simp add: world_ok_def root_ok_def cur' cur rem registry_def) (simp add: w'_def)
  with that [OF drop reg] show thesis by (simp add: w'_def)
qed

end
