(* ===== verification/Sigbus_Handler.thy ===== *)
theory Sigbus_Handler
  imports Mmap_World
begin

text \<open>
  The SIGBUS handler of \<open>mmapcatch\<close> (\<open>parse_sigbus\<close> and \<open>handle_sigbus\<close> in \<open>mmapcatch/src/lib.rs\<close>): every
  branch in the source's order, with the operating system's answers as parameters.
\<close>

section \<open>Signals and the operating system\<close>

text \<open>The fields of \<open>siginfo_t\<close> that the handler reads.\<close>

record siginfo =
  si_signo :: int
  info_code :: int
  si_addr :: usize

text \<open>
  The platform's constants, the result of \<open>sysconf(_SC_PAGESIZE)\<close>, what \<open>mmap\<close> with the handler's flags
  returns for an address, a length and a protection (\<open>None\<close> is \<open>MAP_FAILED\<close>), and the value that the
  calls leave in \<open>errno\<close>.
\<close>

record os =
  SIGBUS :: int
  BUS_ADRERR :: int
  BUS_OBJERR :: int
  page_size :: int
  mmap_call :: "usize \<Rightarrow> usize \<Rightarrow> int \<Rightarrow> usize option"
  errno_left :: int

record sigbus_info =
  bus_addr :: usize
  bus_code :: int

definition parse_sigbus :: "os \<Rightarrow> siginfo \<Rightarrow> sigbus_info option" where
  "parse_sigbus os info =
     (if si_signo info \<noteq> SIGBUS os \<or> \<not> (info_code info = BUS_ADRERR os \<or> info_code info = BUS_OBJERR os)
      then None
      else if si_addr info = 0 then None
      else Some \<lparr>bus_addr = si_addr info, bus_code = info_code info\<rparr>)"

section \<open>The region to replace\<close>

text \<open>\<open>usize::count_ones\<close>.\<close>

definition count_ones :: "usize \<Rightarrow> nat" where
  "count_ones w = count_of (bit w) [0..<64]"

definition fix_region :: "bool \<Rightarrow> int \<Rightarrow> usize \<Rightarrow> mapping \<Rightarrow> (usize \<times> usize) outcome" where
  "fix_region dbg pagesize addr m =
     (if pagesize = - 1 then Abort NoPageSize
      else
        let system_page_size = word_of_int pagesize in
        if dbg \<and> count_ones system_page_size \<noteq> 1 then Abort BadPageSize
        else
          case usize_sub dbg system_page_size 1 of
            Inl p \<Rightarrow> Panic p
          | Inr low \<Rightarrow>
              let page_mask = NOT low; fix_start = addr AND page_mask in
              if fix_start = 0 then Abort NullPage
              else
                case and_then (usize_sub dbg fix_start (m_start m)) (usize_sub dbg (m_len m)) of
                  Inl p \<Rightarrow> Panic p
                | Inr fix_len \<Rightarrow> Ret (fix_start, fix_len))"

text \<open>The replacement of the region, and the record of it in the mapping's state.\<close>

definition replace_region ::
    "os \<Rightarrow> sigbus_info \<Rightarrow> mapping \<Rightarrow> usize \<times> usize \<Rightarrow> world \<Rightarrow> unit outcome \<times> world" where
  "replace_region os si m = (\<lambda>(fix_start, fix_len) w.
     (case mmap_call os fix_start fix_len (mmap_prot m) of
        None \<Rightarrow> (Abort MmapFailed, w)
      | Some res \<Rightarrow>
          let w1 = w\<lparr>remaps := (res, fix_len, mmap_prot m) # remaps w\<rparr> in
          if res \<noteq> fix_start then (Abort MmapMoved, w1)
          else
            (Ret (),
             w1\<lparr>states := (states w)[m_state m :=
               \<lparr>err = True, err_addr = bus_addr si, fix_addr = fix_start, si_code = bus_code si\<rparr>]\<rparr>)))"

text \<open>
  \<open>handle_sigbus\<close>. A panic in it ends the process like an abort, because the function is \<open>extern "C"\<close>.
  When it returns, the guard of the root and \<open>SaveRestoreErrno\<close> are dropped, in this order.
\<close>

definition locked_or_abort :: "signal_lock_error + unit \<Rightarrow> world \<Rightarrow> unit outcome \<times> world" where
  "locked_or_abort res w = (case res of Inl e \<Rightarrow> (Abort RecursiveSigbus, w) | Inr u \<Rightarrow> (Ret (), w))"

definition save_errno :: "world \<Rightarrow> int" where
  "save_errno w = errno_of w"

definition restore_errno :: "int \<Rightarrow> world \<Rightarrow> world" where
  "restore_errno e w = w\<lparr>errno_of := e\<rparr>"

definition handle_sigbus :: "os \<Rightarrow> bool \<Rightarrow> tid \<Rightarrow> siginfo \<Rightarrow> world \<Rightarrow> unit outcome \<times> world" where
  "handle_sigbus os dbg t info w =
     (let saved = save_errno w in
      case parse_sigbus os info of
        None \<Rightarrow> (Abort SomeOtherSigbus, w)
      | Some si \<Rightarrow>
          case static_root w of
            None \<Rightarrow> (Abort SomeOtherSigbus, w)
          | Some r \<Rightarrow>
              then_do (then_do (root_lock t w) locked_or_abort) (\<lambda>u w1.
                case lookup_addr dbg (bus_addr si) r of
                  Inl p \<Rightarrow> (Panic p, w1)
                | Inr None \<Rightarrow> (Abort SomeOtherSigbus, w1)
                | Inr (Some mapping) \<Rightarrow>
                    then_do (fix_region dbg (page_size os) (bus_addr si) mapping, w1) (\<lambda>region w2.
                    then_do (replace_region os si mapping region (w2\<lparr>errno_of := errno_left os\<rparr>)) (\<lambda>u w3.
                      (Ret (), restore_errno saved (w3\<lparr>holder := None\<rparr>))))))"

section \<open>Page arithmetic\<close>

text \<open>The start of the page of \<open>2 ^ k\<close> bytes that includes an address.\<close>

definition page_start :: "nat \<Rightarrow> usize \<Rightarrow> usize" where
  "page_start k a = push_bit k (drop_bit k a)"

lemma page_start_mask: "a AND NOT (2 ^ k - 1) = page_start k a"
proof -
  have "(2 :: usize) ^ k - 1 = mask k" by (simp add: mask_eq_exp_minus_1)
  then show ?thesis
    by (auto simp: page_start_def bit_simps intro!: bit_word_eqI)
qed

lemma unat_page_start: "unat (page_start k a) = unat a div 2 ^ k * 2 ^ k"
proof -
  have "unat a < 2 ^ LENGTH(64)" by (rule unsigned_less)
  then have below: "unat a < 2 ^ 64" by simp
  then have low: "take_bit 64 (unat a) = unat a" by (rule take_bit_nat_eq_self)
  have "unat a div 2 ^ k * 2 ^ k \<le> unat a" by simp
  also note below
  finally show ?thesis
    unfolding page_start_def unsigned_push_bit_eq unsigned_drop_bit_eq
    by (simp add: push_bit_eq_mult drop_bit_eq_div low take_bit_nat_eq_self)
qed

lemma page_start_bounds:
  "unat (page_start k a) \<le> unat a" "unat a < unat (page_start k a) + 2 ^ k" "2 ^ k dvd unat (page_start k a)"
  using dividend_less_div_times [of "2 ^ k" "unat a"] by (simp_all add: unat_page_start add.commute)

text \<open>No multiple of the page size lies between the page's start and the address.\<close>

lemma page_start_greatest:
  assumes "2 ^ k dvd unat s" and "unat s \<le> unat a"
  shows "unat s \<le> unat (page_start k a)"
  using assms div_le_mono [OF assms(2), of "2 ^ k"] by (auto simp: unat_page_start elim!: dvdE)

lemma count_ones_power:
  assumes "k < 64"
  shows "count_ones (2 ^ k) = 1"
proof -
  have "{n. n < 64 \<and> bit (2 ^ k :: usize) ([0..<64] ! n)} = {k}"
    using assms by (auto simp: bit_simps)
  then show ?thesis
    by (simp add: count_ones_def count_of_filter length_filter_conv_card)
qed

section \<open>The handler repairs registered memory\<close>

text \<open>The documented behaviour of the operating system: pages of \<open>2 ^ k\<close> bytes, and \<open>MAP_FIXED\<close>.\<close>

definition os_ok :: "nat \<Rightarrow> os \<Rightarrow> bool" where
  "os_ok k os \<longleftrightarrow> k < 63 \<and> page_size os = 2 ^ k \<and>
     (\<forall>a l p. mmap_call os a l p = None \<or> mmap_call os a l p = Some a)"

lemma word_page_size: "(word_of_int (2 ^ k) :: usize) = 2 ^ k"
  by simp

lemma page_size_minus_one:
  assumes "k < 64"
  shows "usize_sub dbg (2 ^ k) 1 = Inr (2 ^ k - 1)"
proof (rule usize_sub_exact(1))
  have "(2 :: usize) ^ k \<noteq> 0" using assms by (simp add: exp_eq_zero_iff)
  then show "1 \<le> (2 :: usize) ^ k" by (simp add: word_le_nat_alt Suc_le_eq unat_gt_0)
qed

text \<open>For a mapping that starts on a page boundary, the region is the rest of the mapping.\<close>

lemma fix_region_aligned:
  assumes k: "k < 63" and region: "region_ok (m_start m) (m_len m)" and a: "in_region (m_start m) (m_len m) addr"
    and aligned: "2 ^ k dvd unat (m_start m)" and pos: "0 < m_start m"
  obtains fix_len where "fix_region dbg (2 ^ k) addr m = Ret (page_start k addr, fix_len)"
    and "unat (m_start m) \<le> unat (page_start k addr)"
    and "unat (page_start k addr) + unat fix_len = unat (m_start m) + unat (m_len m)"
proof -
  let ?s = "page_start k addr"
  have le: "unat (m_start m) \<le> unat ?s"
    using a by (intro page_start_greatest [OF aligned]) (simp add: in_region_def)
  have "unat ?s < unat (m_start m) + unat (m_len m)"
    using a page_start_bounds(1) [of k addr] by (simp add: in_region_def)
  with le have off: "usize_sub dbg ?s (m_start m) = Inr (?s - m_start m)"
    and off_nat: "unat (?s - m_start m) = unat ?s - unat (m_start m)"
    using usize_sub_exact(1) [of "m_start m" ?s dbg] usize_sub_exact(2) [of "m_start m" ?s]
    by (simp_all add: word_le_nat_alt)
  from off_nat \<open>unat ?s < _\<close> le have "?s - m_start m \<le> m_len m" by (simp add: word_le_nat_alt)
  note len = usize_sub_exact [OF this]
  have "?s \<noteq> 0" using le pos by (auto simp: word_less_nat_alt)
  moreover have "(2 :: int) ^ k \<noteq> - 1" using zero_less_power [of "2 :: int" k] by linarith
  ultimately have "fix_region dbg (2 ^ k) addr m = Ret (?s, m_len m - (?s - m_start m))"
    using k count_ones_power [of k] page_size_minus_one [of k dbg]
    by (simp add: fix_region_def Let_def page_start_mask off len(1))
  with that [OF _ le] len(2) off_nat le \<open>unat ?s < _\<close> show thesis by simp
qed

text \<open>What the handler needs of the world: the lock is free, and it reads a well-formed registry.\<close>

definition handler_ready :: "world \<Rightarrow> bool" where
  "handler_ready w \<longleftrightarrow> static_root w \<noteq> None \<and> holder w = None \<and>
     root_ok (current_root w) \<and> own_states (registry w) (length (states w))"

lemma world_ok_ready: "world_ok w \<Longrightarrow> holder w = None \<Longrightarrow> static_root w \<noteq> None \<Longrightarrow> handler_ready w"
  by (simp add: handler_ready_def world_ok_def)

definition bus_signal :: "os \<Rightarrow> siginfo \<Rightarrow> bool" where
  "bus_signal os info \<longleftrightarrow> si_signo info = SIGBUS os \<and>
     (info_code info = BUS_ADRERR os \<or> info_code info = BUS_OBJERR os) \<and> si_addr info \<noteq> 0"

lemma parse_sigbus_iff:
  "parse_sigbus os info =
     (if bus_signal os info then Some \<lparr>bus_addr = si_addr info, bus_code = info_code info\<rparr> else None)"
  by (simp add: parse_sigbus_def bus_signal_def)

text \<open>The handler once it has parsed the signal and taken the lock.\<close>

lemma handle_sigbus_locked:
  assumes "bus_signal os info" and "static_root w = Some r" and "holder w = None"
  shows "handle_sigbus os dbg t info w =
    (case lookup_addr dbg (si_addr info) r of
       Inl p \<Rightarrow> (Panic p, w\<lparr>holder := Some t\<rparr>)
     | Inr None \<Rightarrow> (Abort SomeOtherSigbus, w\<lparr>holder := Some t\<rparr>)
     | Inr (Some mapping) \<Rightarrow>
         then_do (fix_region dbg (page_size os) (si_addr info) mapping, w\<lparr>holder := Some t\<rparr>) (\<lambda>region w2.
         then_do (replace_region os \<lparr>bus_addr = si_addr info, bus_code = info_code info\<rparr> mapping region
             (w2\<lparr>errno_of := errno_left os\<rparr>)) (\<lambda>u w3.
           (Ret (), restore_errno (errno_of w) (w3\<lparr>holder := None\<rparr>)))))"
  using assms
  by (simp add: handle_sigbus_def parse_sigbus_iff root_lock_def locked_or_abort_def save_errno_def
      split: sum.split option.split)

lemma lookup_registered:
  assumes ready: "handler_ready w" and r: "static_root w = Some r"
    and m: "registry w (m_start m) = Some m" and a: "in_region (m_start m) (m_len m) addr"
  shows "lookup_addr dbg addr r = Inr (Some m)"
  using assms lookup_addr_some [of r dbg addr m]
  by (simp add: handler_ready_def registry_def current_root_def)

text \<open>The repaired world: a new anonymous mapping, the state of the mapping, and nothing else.\<close>

definition repaired :: "nat \<Rightarrow> siginfo \<Rightarrow> mapping \<Rightarrow> usize \<Rightarrow> world \<Rightarrow> world" where
  "repaired k info m fix_len w =
     w\<lparr>remaps := (page_start k (si_addr info), fix_len, mmap_prot m) # remaps w,
       states := (states w)[m_state m :=
         \<lparr>err = True, err_addr = si_addr info, fix_addr = page_start k (si_addr info), si_code = info_code info\<rparr>]\<rparr>"

lemma handle_sigbus_registered:
  assumes os: "os_ok k os" and sig: "bus_signal os info" and ready: "handler_ready w"
    and m: "registry w (m_start m) = Some m" and a: "in_region (m_start m) (m_len m) (si_addr info)"
    and aligned: "2 ^ k dvd unat (m_start m)" and pos: "0 < m_start m"
  obtains fix_len where "handle_sigbus os dbg t info w =
      (if mmap_call os (page_start k (si_addr info)) fix_len (mmap_prot m) = None
       then (Abort MmapFailed, w\<lparr>holder := Some t, errno_of := errno_left os\<rparr>)
       else (Ret (), repaired k info m fix_len w))"
    and "unat (m_start m) \<le> unat (page_start k (si_addr info))"
    and "unat (page_start k (si_addr info)) + unat fix_len = unat (m_start m) + unat (m_len m)"
proof -
  obtain r where r: "static_root w = Some r" and free: "holder w = None"
    using ready by (auto simp: handler_ready_def)
  have ok: "root_ok (current_root w)" using ready by (simp add: handler_ready_def)
  have region: "region_ok (m_start m) (m_len m)"
    using regions_ok_at [OF root_ok_parts(2) [OF ok], of "m_start m" m] m by (simp add: registry_def)
  have k: "k < 63" and size: "page_size os = 2 ^ k" using os by (simp_all add: os_ok_def)
  show thesis
  proof (rule fix_region_aligned [OF k region a aligned pos, of dbg])
    fix fix_len
    assume fix_len: "fix_region dbg (2 ^ k) (si_addr info) m = Ret (page_start k (si_addr info), fix_len)"
      and le: "unat (m_start m) \<le> unat (page_start k (si_addr info))"
      and stop: "unat (page_start k (si_addr info)) + unat fix_len = unat (m_start m) + unat (m_len m)"
    have "\<forall>a l p. mmap_call os a l p = None \<or> mmap_call os a l p = Some a" using os by (simp add: os_ok_def)
    then have call: "mmap_call os (page_start k (si_addr info)) fix_len (mmap_prot m) = None \<or>
      mmap_call os (page_start k (si_addr info)) fix_len (mmap_prot m) = Some (page_start k (si_addr info))"
      by blast
    then have "handle_sigbus os dbg t info w =
      (if mmap_call os (page_start k (si_addr info)) fix_len (mmap_prot m) = None
       then (Abort MmapFailed, w\<lparr>holder := Some t, errno_of := errno_left os\<rparr>)
       else (Ret (), repaired k info m fix_len w))"
      unfolding handle_sigbus_locked [OF sig r free] lookup_registered [OF ready r m a] size
      by (elim disjE) (simp_all add: fix_len replace_region_def Let_def restore_errno_def repaired_def free)
    with le stop that show thesis by blast
  qed
qed

lemma handle_sigbus_repairs:
  assumes "os_ok k os" and "bus_signal os info" and "handler_ready w"
    and "registry w (m_start m) = Some m" and "in_region (m_start m) (m_len m) (si_addr info)"
    and "2 ^ k dvd unat (m_start m)" and "0 < m_start m"
    and mapped: "\<And>fix_len. mmap_call os (page_start k (si_addr info)) fix_len (mmap_prot m) \<noteq> None"
  obtains fix_len where "handle_sigbus os dbg t info w = (Ret (), repaired k info m fix_len w)"
    and "unat (m_start m) \<le> unat (page_start k (si_addr info))"
    and "unat (page_start k (si_addr info)) + unat fix_len = unat (m_start m) + unat (m_len m)"
proof (rule handle_sigbus_registered [OF assms(1-7), of dbg t])
  fix fix_len
  assume "handle_sigbus os dbg t info w =
      (if mmap_call os (page_start k (si_addr info)) fix_len (mmap_prot m) = None
       then (Abort MmapFailed, w\<lparr>holder := Some t, errno_of := errno_left os\<rparr>)
       else (Ret (), repaired k info m fix_len w))"
    and "unat (m_start m) \<le> unat (page_start k (si_addr info))"
    and "unat (page_start k (si_addr info)) + unat fix_len = unat (m_start m) + unat (m_len m)"
  with mapped that show thesis by simp
qed

text \<open>Everything else: the signals and addresses that the handler refuses.\<close>

lemma handle_sigbus_foreign:
  "\<not> bus_signal os info \<or> static_root w = None \<Longrightarrow> handle_sigbus os dbg t info w = (Abort SomeOtherSigbus, w)"
  by (auto simp: handle_sigbus_def parse_sigbus_iff Let_def)

lemma handle_sigbus_held:
  "bus_signal os info \<Longrightarrow> static_root w \<noteq> None \<Longrightarrow> holder w = Some u \<Longrightarrow>
    handle_sigbus os dbg t info w = (if u = t then Abort RecursiveSigbus else Blocked, w)"
  by (auto simp: handle_sigbus_def parse_sigbus_iff root_lock_def locked_or_abort_def Let_def)

lemma handle_sigbus_unregistered:
  assumes sig: "bus_signal os info" and ready: "handler_ready w"
    and none: "\<forall>k m. registry w k = Some m \<longrightarrow> \<not> in_region k (m_len m) (si_addr info)"
  shows "handle_sigbus os dbg t info w = (Abort SomeOtherSigbus, w\<lparr>holder := Some t\<rparr>)"
proof -
  obtain r where r: "static_root w = Some r" "holder w = None" "root_ok r"
    using ready by (auto simp: handler_ready_def current_root_def)
  then have "lookup_addr dbg (si_addr info) r = Inr None"
    using none by (simp add: lookup_addr_none registry_def current_root_def)
  with sig r show ?thesis by (simp add: handle_sigbus_locked)
qed

lemma repaired_simps [simp]:
  "static_root (repaired k info m l w) = static_root w" "holder (repaired k info m l w) = holder w"
  "registry (repaired k info m l w) = registry w" "current_root (repaired k info m l w) = current_root w"
  "length (states (repaired k info m l w)) = length (states w)" "errno_of (repaired k info m l w) = errno_of w"
  "handler (repaired k info m l w) = handler w"
  by (simp_all add: repaired_def registry_def current_root_def)

lemma repaired_ready: "handler_ready w \<Longrightarrow> handler_ready (repaired k info m l w)"
  by (simp add: handler_ready_def)

lemma repaired_world_ok: "world_ok w \<Longrightarrow> world_ok (repaired k info m l w)"
  by (simp add: world_ok_def)

section \<open>The handler aborts on everything else\<close>

text \<open>
  When the handler returns, the signal was a memory fault in a registered map, which has then been
  replaced and reported.
\<close>

lemma then_do_ret:
  assumes "then_do x k = (Ret b, w')"
  obtains a w where "x = (Ret a, w)" and "k a w = (Ret b, w')"
  using assms by (cases "(x, k)" rule: then_do.cases) auto

lemma handle_sigbus_returns:
  assumes ready: "handler_ready w" and ret: "handle_sigbus os dbg t info w = (Ret u, w')"
  shows "bus_signal os info"
    and "\<exists>m. registry w (m_start m) = Some m \<and> in_region (m_start m) (m_len m) (si_addr info) \<and>
      err (states w' ! m_state m) \<and> err_addr (states w' ! m_state m) = si_addr info"
proof -
  obtain r where r: "static_root w = Some r" and free: "holder w = None"
    using ready by (auto simp: handler_ready_def)
  show sig: "bus_signal os info"
    using ret by (auto simp: handle_sigbus_def parse_sigbus_iff Let_def split: if_splits)
  have rok: "root_ok r" using ready r by (simp add: handler_ready_def current_root_def)
  obtain m where m: "lookup_addr dbg (si_addr info) r = Inr (Some m)"
    using ret unfolding handle_sigbus_locked [OF sig r free]
    by (auto split: sum.splits option.splits)
  then have reg: "registry w (m_start m) = Some m" "in_region (m_start m) (m_len m) (si_addr info)"
    using lookup_addr_some [OF rok, of dbg "si_addr info" m] r by (simp_all add: registry_def current_root_def)
  then have st: "m_state m < length (states w)"
    using ready unfolding handler_ready_def own_states_def by blast
  from ret obtain region where
    "then_do (replace_region os \<lparr>bus_addr = si_addr info, bus_code = info_code info\<rparr> m region
      (w\<lparr>holder := Some t, errno_of := errno_left os\<rparr>))
      (\<lambda>u w3. (Ret (), restore_errno (errno_of w) (w3\<lparr>holder := None\<rparr>))) = (Ret u, w')"
    unfolding handle_sigbus_locked [OF sig r free] m sum.case option.case
    by (rule then_do_ret) (metis prod.inject that)
  with st reg show "\<exists>m. registry w (m_start m) = Some m \<and> in_region (m_start m) (m_len m) (si_addr info) \<and>
      err (states w' ! m_state m) \<and> err_addr (states w' ! m_state m) = si_addr info"
    by (intro exI [of _ m])
      (auto elim!: then_do_ret simp: replace_region_def restore_errno_def Let_def
        split: option.splits if_splits prod.splits)
qed

section \<open>Repeated faults\<close>

definition replaced :: "world \<Rightarrow> usize \<Rightarrow> bool" where
  "replaced w a \<longleftrightarrow> list_ex (\<lambda>(s, l, p). in_region s l a) (remaps w)"

text \<open>Signals handled one after the other.\<close>

fun handle_all :: "os \<Rightarrow> bool \<Rightarrow> tid \<Rightarrow> siginfo list \<Rightarrow> world \<Rightarrow> unit outcome \<times> world" where
  "handle_all os dbg t [] w = (Ret (), w)"
| "handle_all os dbg t (i # is) w =
     then_do (handle_sigbus os dbg t i w) (\<lambda>u w'. handle_all os dbg t is w')"

text \<open>Faults of a map, none of them in memory that has been replaced already.\<close>

fun genuine_faults :: "os \<Rightarrow> bool \<Rightarrow> tid \<Rightarrow> mapping \<Rightarrow> siginfo list \<Rightarrow> world \<Rightarrow> bool" where
  "genuine_faults os dbg t m [] w = True"
| "genuine_faults os dbg t m (i # is) w =
     (bus_signal os i \<and> in_region (m_start m) (m_len m) (si_addr i) \<and> \<not> replaced w (si_addr i) \<and>
      genuine_faults os dbg t m is (snd (handle_sigbus os dbg t i w)))"

lemma aligned_less:
  assumes "(d :: nat) dvd a" and "d dvd b" and "a < b"
  shows "a + d \<le> b"
  using dvd_imp_le [OF dvd_diff_nat [OF assms(2,1)]] assms(3) by simp

lemma faults_below_limit:
  assumes os: "os_ok k os" and mapped: "\<And>a l. mmap_call os a l (mmap_prot m) \<noteq> None"
    and aligned: "2 ^ k dvd unat (m_start m)" and pos: "0 < m_start m"
    and "handler_ready w" and "registry w (m_start m) = Some m" and "genuine_faults os dbg t m infos w"
    and "2 ^ k dvd limit" and "unat (m_start m) \<le> limit"
    and "\<And>b. in_region (m_start m) (m_len m) b \<Longrightarrow> limit \<le> unat b \<Longrightarrow> replaced w b"
  shows "(\<exists>w'. handle_all os dbg t infos w = (Ret (), w')) \<and> length infos * 2 ^ k + unat (m_start m) \<le> limit"
  using assms(5-)
proof (induction infos arbitrary: w limit)
  case (Cons i infos)
  let ?s = "page_start k (si_addr i)"
  from Cons.prems(3) have i: "bus_signal os i" "in_region (m_start m) (m_len m) (si_addr i)" "\<not> replaced w (si_addr i)"
    and rest: "genuine_faults os dbg t m infos (snd (handle_sigbus os dbg t i w))"
    by simp_all
  obtain fix_len where run: "handle_sigbus os dbg t i w = (Ret (), repaired k i m fix_len w)"
    and le: "unat (m_start m) \<le> unat ?s" and stop: "unat ?s + unat fix_len = unat (m_start m) + unat (m_len m)"
    using handle_sigbus_repairs [OF os i(1) Cons.prems(1,2) i(2) aligned pos mapped] by blast
  have "replaced (repaired k i m fix_len w) b"
    if "in_region (m_start m) (m_len m) b" "unat ?s \<le> unat b" for b
    using that stop by (simp add: replaced_def repaired_def in_region_def)
  with Cons.IH [of "repaired k i m fix_len w" "unat ?s"] Cons.prems(1,2) rest run le page_start_bounds(3)
  have ih: "\<exists>w'. handle_all os dbg t infos (repaired k i m fix_len w) = (Ret (), w')"
    and bound: "length infos * 2 ^ k + unat (m_start m) \<le> unat ?s"
    by (simp_all add: repaired_ready)
  have "unat ?s < limit"
    using Cons.prems(6) i(2,3) page_start_bounds(1) [of k "si_addr i"] by (meson not_le_imp_less order.strict_trans1)
  then have "unat ?s + 2 ^ k \<le> limit"
    using aligned_less [OF page_start_bounds(3) Cons.prems(4)] by simp
  with bound ih run show ?case by simp
qed simp

end
