(* ===== verification/Registry_Sections.thy ===== *)
theory Registry_Sections
  imports Sigbus_Handler Lock_Serial
begin

text \<open>
  The critical sections of \<open>ROOT\<close> step by step. Theories Mmap\_World and Sigbus\_Handler treat what
  \<open>mmapcatch\<close> does under the lock as one transition of the world. Here every access inside the lock
  is a step of its own, for the closures of \<open>register_mmap\<close> and \<open>Drop for Guard\<close> inside
  \<open>with_root\<close> and for \<open>handle_sigbus\<close>; run under \<open>FutexLock\<close> or \<open>PipeLock\<close>, the steps have the effect
  of those transitions, and the readers outside the lock see the stores of the handler in order.
\<close>

section \<open>Program points\<close>

text \<open>
  What the thread that gets the lock is about to do. The requests are listed in the order in which
  their threads take the lock, which is arbitrary; \<open>served\<close> are those that have begun.
\<close>

datatype request = Register usize usize int | Unregister guard | Fault siginfo

record registry_item =
  reg_world :: world
  served :: "request list"
  requests :: "request list"

text \<open>
  The points of \<open>with_root\<close> and of the two closures, and those of the handler from the search on;
  \<open>Leave\<close> drops the lock's guard, \<open>Crashed\<close> is the aborted process, in which nothing releases the
  lock any more.
\<close>

datatype section_pc =
    Fetch
  | CheckClean request
  | MarkUnclean request
  | SearchOverlap usize usize int
  | CreateState usize usize int
  | InsertMapping usize usize int nat
  | RemoveMapping guard
  | CompareState guard mapping
  | MarkClean
  | SearchAddr sigbus_info
  | ReplacePages sigbus_info mapping
  | StoreSiCode sigbus_info nat usize
  | StoreFixAddr sigbus_info nat usize
  | StoreErrAddr sigbus_info nat
  | StoreErr nat
  | Leave
  | Crashed

fun enter_section :: "os \<Rightarrow> request \<Rightarrow> section_pc" where
  "enter_section os (Fault info) =
     (case parse_sigbus os info of None \<Rightarrow> Crashed | Some si \<Rightarrow> SearchAddr si)"
| "enter_section os r = CheckClean r"

fun enter_closure :: "request \<Rightarrow> section_pc" where
  "enter_closure (Register addr len prot) = SearchOverlap addr len prot"
| "enter_closure (Unregister g) = RemoveMapping g"
| "enter_closure (Fault info) = Leave"

definition set_root :: "root \<Rightarrow> world \<Rightarrow> world" where
  "set_root r w = w\<lparr>static_root := Some r\<rparr>"

section \<open>The steps of \<open>with_root\<close> and of the closures\<close>

definition check_clean :: "request \<Rightarrow> world \<Rightarrow> section_pc \<times> world" where
  "check_clean r w = (if \<not> cleanly_unlocked (current_root w) then Leave else MarkUnclean r, w)"

definition mark_unclean :: "request \<Rightarrow> world \<Rightarrow> section_pc \<times> world" where
  "mark_unclean r w = (enter_closure r, set_root ((current_root w)\<lparr>cleanly_unlocked := False\<rparr>) w)"

definition mark_clean :: "world \<Rightarrow> section_pc \<times> world" where
  "mark_clean w = (Leave, set_root ((current_root w)\<lparr>cleanly_unlocked := True\<rparr>) w)"

text \<open>The closure of \<open>register_mmap\<close>: a panic unwinds out of the section.\<close>

definition search_overlap :: "bool \<Rightarrow> usize \<Rightarrow> usize \<Rightarrow> int \<Rightarrow> world \<Rightarrow> section_pc \<times> world" where
  "search_overlap dbg addr len prot w =
     (case lookup_overlap dbg addr len (current_root w) of
        Inl p \<Rightarrow> Leave
      | Inr (Some overlap) \<Rightarrow> MarkClean
      | Inr None \<Rightarrow> CreateState addr len prot, w)"

definition create_state :: "usize \<Rightarrow> usize \<Rightarrow> int \<Rightarrow> world \<Rightarrow> section_pc \<times> world" where
  "create_state addr len prot w =
     (InsertMapping addr len prot (length (states w)), w\<lparr>states := states w @ [state_new]\<rparr>)"

definition insert_mapping :: "usize \<Rightarrow> usize \<Rightarrow> int \<Rightarrow> nat \<Rightarrow> world \<Rightarrow> section_pc \<times> world" where
  "insert_mapping addr len prot i w =
     (let r = current_root w;
          m = \<lparr>m_start = addr, m_len = len, mmap_prot = prot, m_state = i\<rparr> in
      (MarkClean, set_root (r\<lparr>root_map := bt_insert addr m (root_map r)\<rparr>) w))"

text \<open>The closure of \<open>Drop for Guard\<close>.\<close>

definition remove_mapping :: "guard \<Rightarrow> world \<Rightarrow> section_pc \<times> world" where
  "remove_mapping g w =
     (let r = current_root w in
      case bt_remove (guard_addr g) (root_map r) of
        (None, m') \<Rightarrow> (Leave, set_root (r\<lparr>root_map := m'\<rparr>) w)
      | (Some m, m') \<Rightarrow> (CompareState g m, set_root (r\<lparr>root_map := m'\<rparr>) w))"

definition compare_state :: "guard \<Rightarrow> mapping \<Rightarrow> world \<Rightarrow> section_pc \<times> world" where
  "compare_state g m w = (if m_state m = guard_state g then MarkClean else Leave, w)"

section \<open>The steps of the handler\<close>

definition search_addr :: "bool \<Rightarrow> sigbus_info \<Rightarrow> world \<Rightarrow> section_pc \<times> world" where
  "search_addr dbg si w =
     (case lookup_addr dbg (bus_addr si) (current_root w) of
        Inl p \<Rightarrow> Crashed
      | Inr None \<Rightarrow> Crashed
      | Inr (Some mapping) \<Rightarrow> ReplacePages si mapping, w)"

definition replace_pages :: "os \<Rightarrow> bool \<Rightarrow> sigbus_info \<Rightarrow> mapping \<Rightarrow> world \<Rightarrow> section_pc \<times> world" where
  "replace_pages os dbg si m w =
     (case fix_region dbg (page_size os) (bus_addr si) m of
        Ret (fix_start, fix_len) \<Rightarrow>
          (case mmap_call os fix_start fix_len (mmap_prot m) of
             None \<Rightarrow> (Crashed, w)
           | Some res \<Rightarrow>
               (if res \<noteq> fix_start then Crashed else StoreSiCode si (m_state m) fix_start,
                w\<lparr>remaps := (res, fix_len, mmap_prot m) # remaps w\<rparr>))
      | _ \<Rightarrow> (Crashed, w))"

text \<open>The four stores into the mapping's \<open>State\<close>, each of which a \<open>Guard\<close> may read at any time.\<close>

definition update_state :: "nat \<Rightarrow> (state \<Rightarrow> state) \<Rightarrow> world \<Rightarrow> world" where
  "update_state i f w = w\<lparr>states := (states w)[i := f (states w ! i)]\<rparr>"

definition store_si_code :: "sigbus_info \<Rightarrow> nat \<Rightarrow> usize \<Rightarrow> world \<Rightarrow> section_pc \<times> world" where
  "store_si_code si i fix_start w =
     (StoreFixAddr si i fix_start, update_state i (\<lambda>st. st\<lparr>si_code := bus_code si\<rparr>) w)"

definition store_fix_addr :: "sigbus_info \<Rightarrow> nat \<Rightarrow> usize \<Rightarrow> world \<Rightarrow> section_pc \<times> world" where
  "store_fix_addr si i fix_start w =
     (StoreErrAddr si i, update_state i (\<lambda>st. st\<lparr>fix_addr := fix_start\<rparr>) w)"

definition store_err_addr :: "sigbus_info \<Rightarrow> nat \<Rightarrow> world \<Rightarrow> section_pc \<times> world" where
  "store_err_addr si i w = (StoreErr i, update_state i (\<lambda>st. st\<lparr>err_addr := bus_addr si\<rparr>) w)"

definition store_err :: "nat \<Rightarrow> world \<Rightarrow> section_pc \<times> world" where
  "store_err i w = (Leave, update_state i (\<lambda>st. st\<lparr>err := True\<rparr>) w)"

section \<open>The code inside the lock\<close>

fun section_act :: "os \<Rightarrow> bool \<Rightarrow> section_pc \<Rightarrow> world \<Rightarrow> (section_pc \<times> world) option" where
  "section_act os dbg (CheckClean r) w = Some (check_clean r w)"
| "section_act os dbg (MarkUnclean r) w = Some (mark_unclean r w)"
| "section_act os dbg (SearchOverlap addr len prot) w = Some (search_overlap dbg addr len prot w)"
| "section_act os dbg (CreateState addr len prot) w = Some (create_state addr len prot w)"
| "section_act os dbg (InsertMapping addr len prot i) w = Some (insert_mapping addr len prot i w)"
| "section_act os dbg (RemoveMapping g) w = Some (remove_mapping g w)"
| "section_act os dbg (CompareState g m) w = Some (compare_state g m w)"
| "section_act os dbg MarkClean w = Some (mark_clean w)"
| "section_act os dbg (SearchAddr si) w = Some (search_addr dbg si w)"
| "section_act os dbg (ReplacePages si m) w = Some (replace_pages os dbg si m w)"
| "section_act os dbg (StoreSiCode si i a) w = Some (store_si_code si i a w)"
| "section_act os dbg (StoreFixAddr si i a) w = Some (store_fix_addr si i a w)"
| "section_act os dbg (StoreErrAddr si i) w = Some (store_err_addr si i w)"
| "section_act os dbg (StoreErr i) w = Some (store_err i w)"
| "section_act os dbg Crashed w = Some (Crashed, w)"
| "section_act os dbg Leave w = None"
| "section_act os dbg Fetch w = None"

fun registry_body ::
    "os \<Rightarrow> bool \<Rightarrow> section_pc \<Rightarrow> registry_item \<Rightarrow> (section_pc \<times> registry_item) option" where
  "registry_body os dbg Fetch x =
     (case requests x of
        [] \<Rightarrow> None
      | r # rs \<Rightarrow> Some (enter_section os r, x\<lparr>served := served x @ [r], requests := rs\<rparr>))"
| "registry_body os dbg l x =
     (case section_act os dbg l (reg_world x) of
        None \<Rightarrow> None
      | Some (l', w') \<Rightarrow> Some (l', x\<lparr>reg_world := w'\<rparr>))"

lemmas section_defs =
  check_clean_def mark_unclean_def mark_clean_def search_overlap_def create_state_def
  insert_mapping_def remove_mapping_def compare_state_def search_addr_def replace_pages_def
  store_si_code_def store_fix_addr_def store_err_addr_def store_err_def update_state_def set_root_def

section \<open>A section that runs alone is one transition of the world\<close>

text \<open>The transitions of the theories Mmap\_World and Sigbus\_Handler.\<close>

fun serve :: "os \<Rightarrow> bool \<Rightarrow> tid \<Rightarrow> request \<Rightarrow> world \<Rightarrow> world" where
  "serve os dbg t (Register addr len prot) w = snd (with_root None t (register_in_root dbg addr len prot) w)"
| "serve os dbg t (Unregister g) w = snd (with_root None t (remove_from_root g) w)"
| "serve os dbg t (Fault info) w = snd (handle_sigbus os dbg t info w)"

text \<open>The root exists and its lock, which \<open>FutexLock\<close> or \<open>PipeLock\<close> now models, is not in the world.\<close>

definition root_ready :: "world \<Rightarrow> bool" where
  "root_ready w \<longleftrightarrow> static_root w \<noteq> None \<and> holder w = None"

lemma crashed_never_ends: "\<not> section_from (registry_body os dbg) Crashed x y"
proof
  assume "section_from (registry_body os dbg) Crashed x y"
  then show False
    by (induction "Crashed" x y rule: section_from.induct) simp_all
qed

lemma body_section:
  "l \<noteq> Fetch \<Longrightarrow> registry_body os dbg l x =
     (case section_act os dbg l (reg_world x) of
        None \<Rightarrow> None
      | Some (l', w') \<Rightarrow> Some (l', x\<lparr>reg_world := w'\<rparr>))"
  by (cases l) simp_all

text \<open>The rewrite rules that evaluate a section from a program point.\<close>

abbreviation "runs_section os dbg \<equiv> section_from (registry_body os dbg)"

lemma section_eval:
  "l \<noteq> Fetch \<Longrightarrow> l \<noteq> Crashed \<Longrightarrow> runs_section os dbg l x y \<longleftrightarrow>
     (case section_act os dbg l (reg_world x) of
        None \<Rightarrow> y = x
      | Some (l', w') \<Rightarrow> runs_section os dbg l' (x\<lparr>reg_world := w'\<rparr>) y)"
  by (subst section_from_unfold) (simp add: body_section split: option.split prod.split)

lemma fetch_eval:
  "runs_section os dbg Fetch x y \<longleftrightarrow>
     (case requests x of
        [] \<Rightarrow> y = x
      | r # rs \<Rightarrow> runs_section os dbg (enter_section os r) (x\<lparr>served := served x @ [r], requests := rs\<rparr>) y)"
  by (subst section_from_unfold) (simp split: list.split)

text \<open>The lock of the world stays free, so that giving it back changes nothing.\<close>

lemma world_eq:
  "holder w = None \<Longrightarrow> w\<lparr>static_root := r, holder := None\<rparr> = w\<lparr>static_root := r\<rparr>"
  "holder w = None \<Longrightarrow> w\<lparr>static_root := r, states := sts, holder := None\<rparr> = w\<lparr>static_root := r, states := sts\<rparr>"
  by (cases w; simp)+

lemma item_eqI: "x\<lparr>reg_world := reg_world x\<rparr> = x"
  by simp

lemma client_section_poisoned:
  assumes "runs_section os dbg (CheckClean r) x y" and "\<not> cleanly_unlocked (current_root (reg_world x))"
  shows "y = x"
  using assms by (simp add: section_eval check_clean_def)

text \<open>The section of \<open>register_mmap\<close>.\<close>

lemma register_section:
  assumes run: "runs_section os dbg (CheckClean (Register addr len prot)) x y" and ready: "root_ready (reg_world x)"
  shows "y = x\<lparr>reg_world := serve os dbg t (Register addr len prot) (reg_world x)\<rparr>"
proof -
  obtain r where r: "static_root (reg_world x) = Some r" "holder (reg_world x) = None"
    using ready by (auto simp: root_ready_def)
  show ?thesis
  proof (cases "cleanly_unlocked r")
    case False
    then have "serve os dbg t (Register addr len prot) (reg_world x) = reg_world x"
      by (simp add: with_root_poisoned [OF r(1) False r(2)])
    with False client_section_poisoned [OF run] r show ?thesis by (simp add: current_root_def)
  next
    case True
    have "root_available None (reg_world x)" "cleanly_unlocked (current_root (reg_world x))"
      using r True by (simp_all add: root_available_def current_root_def)
    note eval = with_root_runs [OF this]
    have same: "lookup_overlap dbg addr len (r\<lparr>cleanly_unlocked := False\<rparr>) = lookup_overlap dbg addr len r"
      by (simp add: lookup_overlap_def)
    consider (panics) p where "lookup_overlap dbg addr len r = Inl p"
      | (refused) m where "lookup_overlap dbg addr len r = Inr (Some m)"
      | (added) "lookup_overlap dbg addr len r = Inr None"
      by (metis old.sum.exhaust option.exhaust)
    then show ?thesis
      by cases
        (use run r True same in \<open>simp add: section_eval section_defs eval register_in_root_def
          current_root_def Let_def world_eq\<close>)+
  qed
qed

text \<open>The section of \<open>Drop for Guard\<close>.\<close>

lemma unregister_section:
  assumes run: "runs_section os dbg (CheckClean (Unregister g)) x y" and ready: "root_ready (reg_world x)"
  shows "y = x\<lparr>reg_world := serve os dbg t (Unregister g) (reg_world x)\<rparr>"
proof -
  obtain r where r: "static_root (reg_world x) = Some r" "holder (reg_world x) = None"
    using ready by (auto simp: root_ready_def)
  show ?thesis
  proof (cases "cleanly_unlocked r")
    case False
    then have "serve os dbg t (Unregister g) (reg_world x) = reg_world x"
      by (simp add: with_root_poisoned [OF r(1) False r(2)])
    with False client_section_poisoned [OF run] r show ?thesis by (simp add: current_root_def)
  next
    case True
    have "root_available None (reg_world x)" "cleanly_unlocked (current_root (reg_world x))"
      using r True by (simp_all add: root_available_def current_root_def)
    note eval = with_root_runs [OF this]
    obtain res rest where rem: "bt_remove (guard_addr g) (root_map r) = (res, rest)" by fastforce
    show ?thesis
    proof (cases res)
      case None
      with run r True rem show ?thesis
        by (simp add: section_eval section_defs eval remove_from_root_def current_root_def Let_def world_eq)
    next
      case (Some m)
      with run r True rem show ?thesis
        by (cases "m_state m = guard_state g")
          (simp_all add: section_eval section_defs eval remove_from_root_def current_root_def Let_def world_eq)
    qed
  qed
qed

text \<open>The section of \<open>handle_sigbus\<close>: one that ends has found the mapping and repaired the memory.\<close>

lemma search_section:
  assumes run: "runs_section os dbg (SearchAddr si) x y" and r: "static_root (reg_world x) = Some r"
  shows "\<exists>m. lookup_addr dbg (bus_addr si) r = Inr (Some m) \<and> runs_section os dbg (ReplacePages si m) x y"
proof (cases "lookup_addr dbg (bus_addr si) r")
  case (Inl p)
  with run r crashed_never_ends show ?thesis
    by (simp add: section_eval [of "SearchAddr si"] search_addr_def current_root_def)
next
  case (Inr res)
  show ?thesis
  proof (cases res)
    case None
    with run r Inr crashed_never_ends show ?thesis
      by (simp add: section_eval [of "SearchAddr si"] search_addr_def current_root_def)
  next
    case (Some m)
    with run r Inr show ?thesis
      by (simp add: section_eval [of "SearchAddr si"] search_addr_def current_root_def)
  qed
qed

lemma replace_section:
  assumes run: "runs_section os dbg (ReplacePages si m) x y"
  shows "\<exists>a l. fix_region dbg (page_size os) (bus_addr si) m = Ret (a, l) \<and>
    mmap_call os a l (mmap_prot m) = Some a \<and>
    runs_section os dbg (StoreSiCode si (m_state m) a)
      (x\<lparr>reg_world := (reg_world x)\<lparr>remaps := (a, l, mmap_prot m) # remaps (reg_world x)\<rparr>\<rparr>) y"
proof (cases "replace_pages os dbg si m (reg_world x)")
  case (Pair l' w')
  then have "runs_section os dbg l' (x\<lparr>reg_world := w'\<rparr>) y"
    using run by (simp add: section_eval)
  moreover from this have "l' \<noteq> Crashed" using crashed_never_ends by blast
  ultimately show ?thesis
    using Pair unfolding replace_pages_def by (auto split: outcome.splits option.splits if_splits)
qed

lemma stored_state:
  "st\<lparr>si_code := c, fix_addr := a, err_addr := b, err := True\<rparr> =
     \<lparr>err = True, err_addr = b, fix_addr = a, si_code = c\<rparr>"
  by (cases st) simp

lemma stores_section:
  assumes "runs_section os dbg (StoreSiCode si i a) x y"
  shows "y = x\<lparr>reg_world := (reg_world x)\<lparr>states := (states (reg_world x))[i :=
    \<lparr>err = True, err_addr = bus_addr si, fix_addr = a, si_code = bus_code si\<rparr>]\<rparr>\<rparr>"
  using assms
  by (cases "i < length (states (reg_world x))")
    (simp_all add: section_eval section_defs list_update_beyond stored_state)

lemma fault_section:
  assumes run: "runs_section os dbg (enter_section os (Fault info)) x y" and ready: "root_ready (reg_world x)"
  shows "y = x\<lparr>reg_world := serve os dbg t (Fault info) (reg_world x)\<rparr>"
proof -
  obtain r where r: "static_root (reg_world x) = Some r" "holder (reg_world x) = None"
    using ready by (auto simp: root_ready_def)
  have signal: "bus_signal os info"
    using run crashed_never_ends by (auto simp: parse_sigbus_iff split: if_splits)
  let ?si = "\<lparr>bus_addr = si_addr info, bus_code = info_code info\<rparr>"
  from run signal have "runs_section os dbg (SearchAddr ?si) x y" by (simp add: parse_sigbus_iff)
  from search_section [OF this r(1)] obtain m where m: "lookup_addr dbg (si_addr info) r = Inr (Some m)"
      and run1: "runs_section os dbg (ReplacePages ?si m) x y"
    by auto
  from replace_section [OF run1] obtain a l
    where region: "fix_region dbg (page_size os) (si_addr info) m = Ret (a, l)"
      and mm: "mmap_call os a l (mmap_prot m) = Some a"
      and run2: "runs_section os dbg (StoreSiCode ?si (m_state m) a)
        (x\<lparr>reg_world := (reg_world x)\<lparr>remaps := (a, l, mmap_prot m) # remaps (reg_world x)\<rparr>\<rparr>) y"
    by auto
  show ?thesis
    using stores_section [OF run2] r
    by (simp add: handle_sigbus_locked [OF signal r] m region mm replace_region_def restore_errno_def)
qed

section \<open>Histories of sections\<close>

lemma section_act_ready:
  assumes "section_act os dbg l w = Some (l', w')" and "root_ready w"
  shows "root_ready w'"
  using assms
  by (cases l)
    (auto simp: section_defs root_ready_def Let_def
      split: if_splits outcome.splits option.splits prod.splits)

lemma section_ready:
  assumes "runs_section os dbg l x y" and "root_ready (reg_world x)"
  shows "root_ready (reg_world y)"
  using assms
proof (induction l x y rule: section_from.induct)
  case (section_goes l x l' x' y)
  have "root_ready (reg_world x')"
  proof (cases "l = Fetch")
    case True
    with section_goes show ?thesis by (auto split: list.splits)
  next
    case False
    with section_goes section_act_ready show ?thesis
      by (auto simp: body_section split: option.splits)
  qed
  then show ?case by (rule section_goes.IH)
qed

text \<open>A section serves the next request, with the effect of its transition.\<close>

lemma section_serves:
  assumes run: "runs_section os dbg Fetch x y" and ready: "root_ready (reg_world x)"
  shows "y = x \<and> requests x = [] \<or>
    (\<exists>r rs. requests x = r # rs \<and>
      y = \<lparr>reg_world = serve os dbg t r (reg_world x), served = served x @ [r], requests = rs\<rparr>)"
proof (cases "requests x")
  case Nil
  with run show ?thesis by (simp add: fetch_eval)
next
  case (Cons r rs)
  let ?x = "x\<lparr>served := served x @ [r], requests := rs\<rparr>"
  have "runs_section os dbg (enter_section os r) ?x y" using run Cons by (simp add: fetch_eval)
  moreover have "root_ready (reg_world ?x)" using ready by simp
  ultimately have "y = ?x\<lparr>reg_world := serve os dbg t r (reg_world ?x)\<rparr>"
    using register_section [of os dbg _ _ _ ?x y t] unregister_section [of os dbg _ ?x y t]
      fault_section [of os dbg _ ?x y t] by (cases r) auto
  with Cons show ?thesis by (cases x) simp
qed

definition serve_all :: "os \<Rightarrow> bool \<Rightarrow> tid \<Rightarrow> request list \<Rightarrow> world \<Rightarrow> world" where
  "serve_all os dbg t rs w = fold (serve os dbg t) rs w"

definition registry_start :: "world \<Rightarrow> request list \<Rightarrow> registry_item" where
  "registry_start w rs = \<lparr>reg_world = w, served = [], requests = rs\<rparr>"

text \<open>
  Sections one after the other serve the requests in order, and the world they leave is the one the
  transitions produce.
\<close>

lemma sections_serve:
  assumes "(runs_section os dbg Fetch)\<^sup>*\<^sup>* (registry_start w rs) x" and "root_ready w"
  shows "served x @ requests x = rs \<and> reg_world x = serve_all os dbg t (served x) w \<and> root_ready (reg_world x)"
  using assms(1)
proof (induction x rule: rtranclp_induct)
  case base
  show ?case using assms(2) by (simp add: registry_start_def serve_all_def)
next
  case (step y z)
  have ready: "root_ready (reg_world y)" using step.IH by blast
  have ready': "root_ready (reg_world z)" by (rule section_ready [OF step.hyps(2) ready])
  from section_serves [OF step.hyps(2) ready, of t] step.IH ready' show ?case
    by (auto simp: serve_all_def)
qed

end
