(* ===== verification/State_Publication.thy ===== *)
theory State_Publication
  imports Registry_Sections
begin

text \<open>
  What a reader outside the lock sees of a mapping's \<open>State\<close>. \<open>Guard::is_err\<close>, \<open>err_addr\<close>,
  \<open>fix_addr\<close> and \<open>si_code\<close> load the four atomics one by one while the handler stores to them one by
  one; the handler stores \<open>err\<close> last, so that a reader that has seen it finds the other fields set.
\<close>

section \<open>Faults and repairs\<close>

definition faults :: "registry_item \<Rightarrow> siginfo set" where
  "faults x = {info. Fault info \<in> set (served x)}"

definition fault_codes :: "registry_item \<Rightarrow> int set" where
  "fault_codes x = info_code ` faults x"

definition fault_addrs :: "registry_item \<Rightarrow> usize set" where
  "fault_addrs x = si_addr ` faults x"

definition repaired_addrs :: "registry_item \<Rightarrow> usize set" where
  "repaired_addrs x = fst ` set (remaps (reg_world x))"

lemmas fault_sets = faults_def fault_codes_def fault_addrs_def repaired_addrs_def

text \<open>A state that reports an error has all its fields from faults and repairs.\<close>

definition reported :: "registry_item \<Rightarrow> state \<Rightarrow> bool" where
  "reported x st \<longleftrightarrow> err st \<longrightarrow>
     si_code st \<in> fault_codes x \<and> fix_addr st \<in> repaired_addrs x \<and> err_addr st \<in> fault_addrs x"

definition all_reported :: "registry_item \<Rightarrow> bool" where
  "all_reported x \<longleftrightarrow> (\<forall>st \<in> set (states (reg_world x)). reported x st)"

section \<open>The invariant of the handler's stores\<close>

definition known_info :: "registry_item \<Rightarrow> sigbus_info \<Rightarrow> bool" where
  "known_info x si \<longleftrightarrow> bus_code si \<in> fault_codes x \<and> bus_addr si \<in> fault_addrs x"

text \<open>What has been stored before each point of the handler.\<close>

definition stored_field :: "registry_item \<Rightarrow> nat \<Rightarrow> (state \<Rightarrow> bool) \<Rightarrow> bool" where
  "stored_field x i P \<longleftrightarrow> i < length (states (reg_world x)) \<longrightarrow> P (states (reg_world x) ! i)"

fun handler_knows :: "section_pc \<Rightarrow> registry_item \<Rightarrow> bool" where
  "handler_knows (SearchAddr si) x = known_info x si"
| "handler_knows (ReplacePages si m) x = known_info x si"
| "handler_knows (StoreSiCode si i a) x = (known_info x si \<and> a \<in> repaired_addrs x)"
| "handler_knows (StoreFixAddr si i a) x =
     (known_info x si \<and> a \<in> repaired_addrs x \<and> stored_field x i (\<lambda>st. si_code st \<in> fault_codes x))"
| "handler_knows (StoreErrAddr si i) x =
     (known_info x si \<and>
      stored_field x i (\<lambda>st. si_code st \<in> fault_codes x \<and> fix_addr st \<in> repaired_addrs x))"
| "handler_knows (StoreErr i) x =
     stored_field x i (\<lambda>st. si_code st \<in> fault_codes x \<and> fix_addr st \<in> repaired_addrs x \<and>
       err_addr st \<in> fault_addrs x)"
| "handler_knows l x = True"

definition publishing :: "section_pc \<Rightarrow> registry_item \<Rightarrow> bool" where
  "publishing l x \<longleftrightarrow> all_reported x \<and> handler_knows l x"

lemma reported_mono:
  assumes "reported x st" and "faults x \<subseteq> faults y" and "repaired_addrs x \<subseteq> repaired_addrs y"
  shows "reported y st"
  using assms unfolding reported_def fault_codes_def fault_addrs_def by blast

text \<open>The steps that store nothing: the states, but for new ones, and the sets of faults stay or grow.\<close>

lemma all_reported_grow:
  assumes "all_reported x" and "faults x \<subseteq> faults y" and "repaired_addrs x \<subseteq> repaired_addrs y"
    and "set (states (reg_world y)) \<subseteq> insert state_new (set (states (reg_world x)))"
  shows "all_reported y"
  unfolding all_reported_def
proof
  fix st
  assume "st \<in> set (states (reg_world y))"
  with assms(4) consider "st = state_new" | "st \<in> set (states (reg_world x))" by blast
  then show "reported y st"
  proof cases
    case 1
    then show ?thesis by (simp add: reported_def state_new_def)
  next
    case 2
    with assms(1) have "reported x st" by (simp add: all_reported_def)
    then show ?thesis by (rule reported_mono [OF _ assms(2,3)])
  qed
qed

text \<open>A store replaces one state.\<close>

lemma all_reported_update:
  assumes all: "all_reported x"
    and st: "i < length (states (reg_world x)) \<Longrightarrow> reported x (f (states (reg_world x) ! i))"
  shows "all_reported (x\<lparr>reg_world := update_state i f (reg_world x)\<rparr>)"
proof -
  have "reported x st" if "st \<in> set ((states (reg_world x))[i := f (states (reg_world x) ! i)])" for st
  proof (cases "i < length (states (reg_world x))")
    case True
    with that set_update_subset_insert [of "states (reg_world x)" i "f (states (reg_world x) ! i)"] all st
    show ?thesis by (auto simp: all_reported_def)
  next
    case False
    with that all show ?thesis by (simp add: all_reported_def list_update_beyond)
  qed
  then show ?thesis
    by (simp add: all_reported_def update_state_def reported_def fault_sets)
qed

lemma reported_nth:
  "all_reported x \<Longrightarrow> i < length (states (reg_world x)) \<Longrightarrow> reported x (states (reg_world x) ! i)"
  by (simp add: all_reported_def)

lemma update_sets [simp]:
  "faults (x\<lparr>reg_world := w\<rparr>) = faults x" "fault_codes (x\<lparr>reg_world := w\<rparr>) = fault_codes x"
  "fault_addrs (x\<lparr>reg_world := w\<rparr>) = fault_addrs x"
  "repaired_addrs (x\<lparr>reg_world := update_state i f (reg_world x)\<rparr>) = repaired_addrs x"
  "repaired_addrs (x\<lparr>reg_world := (reg_world x)\<lparr>states := sts\<rparr>\<rparr>) = repaired_addrs x"
  by (simp_all add: fault_sets update_state_def)

lemma publishing_store_si_code:
  assumes "publishing (StoreSiCode si i a) x" and "store_si_code si i a (reg_world x) = (l', w')"
  shows "publishing l' (x\<lparr>reg_world := w'\<rparr>)"
proof -
  have "all_reported (x\<lparr>reg_world := update_state i (\<lambda>st. st\<lparr>si_code := bus_code si\<rparr>) (reg_world x)\<rparr>)"
    using assms(1) reported_nth [of x i]
    by (intro all_reported_update) (auto simp: publishing_def reported_def known_info_def)
  with assms show ?thesis
    by (auto simp: publishing_def store_si_code_def known_info_def stored_field_def update_state_def)
qed

lemma publishing_store_fix_addr:
  assumes "publishing (StoreFixAddr si i a) x" and "store_fix_addr si i a (reg_world x) = (l', w')"
  shows "publishing l' (x\<lparr>reg_world := w'\<rparr>)"
proof -
  have "all_reported (x\<lparr>reg_world := update_state i (\<lambda>st. st\<lparr>fix_addr := a\<rparr>) (reg_world x)\<rparr>)"
    using assms(1) reported_nth [of x i]
    by (intro all_reported_update) (auto simp: publishing_def reported_def known_info_def)
  with assms show ?thesis
    by (auto simp: publishing_def store_fix_addr_def known_info_def stored_field_def update_state_def)
qed

lemma publishing_store_err_addr:
  assumes "publishing (StoreErrAddr si i) x" and "store_err_addr si i (reg_world x) = (l', w')"
  shows "publishing l' (x\<lparr>reg_world := w'\<rparr>)"
proof -
  have "all_reported (x\<lparr>reg_world := update_state i (\<lambda>st. st\<lparr>err_addr := bus_addr si\<rparr>) (reg_world x)\<rparr>)"
    using assms(1) reported_nth [of x i]
    by (intro all_reported_update) (auto simp: publishing_def reported_def known_info_def)
  with assms show ?thesis
    by (auto simp: publishing_def store_err_addr_def known_info_def stored_field_def update_state_def)
qed

lemma publishing_store_err:
  assumes "publishing (StoreErr i) x" and "store_err i (reg_world x) = (l', w')"
  shows "publishing l' (x\<lparr>reg_world := w'\<rparr>)"
proof -
  have "all_reported (x\<lparr>reg_world := update_state i (\<lambda>st. st\<lparr>err := True\<rparr>) (reg_world x)\<rparr>)"
    using assms(1) reported_nth [of x i]
    by (intro all_reported_update) (auto simp: publishing_def reported_def stored_field_def)
  with assms show ?thesis by (auto simp: publishing_def store_err_def)
qed

lemmas publishing_stores = publishing_store_si_code publishing_store_fix_addr
  publishing_store_err_addr publishing_store_err

section \<open>The invariant of the whole section\<close>

text \<open>The repair puts its address among the repaired ones.\<close>

lemma publishing_replace:
  assumes pub: "publishing (ReplacePages si m) x" and step: "replace_pages os dbg si m (reg_world x) = (l', w')"
  shows "publishing l' (x\<lparr>reg_world := w'\<rparr>)"
proof -
  have known: "known_info x si" and all: "all_reported x" using pub by (simp_all add: publishing_def)
  consider (same) "l' = Crashed" "w' = reg_world x"
    | (mapped) res l p where "w' = (reg_world x)\<lparr>remaps := (res, l, p) # remaps (reg_world x)\<rparr>"
        "l' = Crashed \<or> l' = StoreSiCode si (m_state m) res"
    using step by (auto simp: replace_pages_def split: outcome.splits option.splits if_splits)
  then show ?thesis
  proof cases
    case same
    with all show ?thesis by (simp add: publishing_def item_eqI)
  next
    case mapped
    have "all_reported (x\<lparr>reg_world := w'\<rparr>)"
      by (rule all_reported_grow [OF all]) (auto simp: mapped(1) repaired_addrs_def)
    with mapped known show ?thesis
      by (auto simp: publishing_def known_info_def repaired_addrs_def)
  qed
qed

lemma closure_knows [simp]: "handler_knows (enter_closure r) x"
  by (cases r) simp_all

text \<open>The steps of \<open>with_root\<close> only add new states.\<close>

fun client_pc :: "section_pc \<Rightarrow> bool" where
  "client_pc (ReplacePages si m) = False"
| "client_pc (StoreSiCode si i a) = False"
| "client_pc (StoreFixAddr si i a) = False"
| "client_pc (StoreErrAddr si i) = False"
| "client_pc (StoreErr i) = False"
| "client_pc l = True"

lemma client_knows:
  assumes "section_act os dbg l w = Some (l', w')" and "client_pc l"
  shows "(\<exists>si m. l = SearchAddr si \<and> l' = ReplacePages si m) \<or> (\<forall>y. handler_knows l' y)"
proof (cases l)
  case (SearchAddr si)
  with assms show ?thesis by (auto simp: search_addr_def split: sum.splits option.splits)
next
  case (SearchOverlap addr len prot)
  with assms show ?thesis by (auto simp: search_overlap_def split: sum.splits option.splits)
next
  case (RemoveMapping g)
  with assms show ?thesis by (auto simp: remove_mapping_def Let_def split: option.splits prod.splits)
next
  case (CompareState g m)
  with assms show ?thesis by (auto simp: compare_state_def)
next
  case (CheckClean r)
  with assms show ?thesis by (auto simp: check_clean_def)
qed (use assms in \<open>auto simp: mark_unclean_def mark_clean_def create_state_def insert_mapping_def Let_def\<close>)

lemma client_grows:
  assumes "section_act os dbg l w = Some (l', w')" and "client_pc l"
  shows "remaps w' = remaps w" and "\<exists>sts. states w' = states w @ sts \<and> set sts \<subseteq> {state_new}"
  using assms
  by (cases l; auto simp: section_defs Let_def split: if_splits sum.splits option.splits prod.splits)+

lemma publishing_client:
  assumes pub: "publishing l x" and step: "section_act os dbg l (reg_world x) = Some (l', w')" and l: "client_pc l"
  shows "publishing l' (x\<lparr>reg_world := w'\<rparr>)"
proof -
  obtain sts where sts: "states w' = states (reg_world x) @ sts" "set sts \<subseteq> {state_new}"
    using client_grows(2) [OF step l] by blast
  have "all_reported x" using pub by (simp add: publishing_def)
  then have "all_reported (x\<lparr>reg_world := w'\<rparr>)"
    using sts client_grows(1) [OF step l] by (elim all_reported_grow) (auto simp: repaired_addrs_def)
  moreover have "handler_knows l' (x\<lparr>reg_world := w'\<rparr>)"
    using client_knows [OF step l] pub by (auto simp: publishing_def known_info_def)
  ultimately show ?thesis by (simp add: publishing_def)
qed

lemma publishing_section:
  assumes "publishing l x" and "section_act os dbg l (reg_world x) = Some (l', w')"
  shows "publishing l' (x\<lparr>reg_world := w'\<rparr>)"
proof (cases "client_pc l")
  case True
  with assms show ?thesis by (rule publishing_client)
next
  case False
  then show ?thesis
    using assms publishing_stores publishing_replace by (cases l) auto
qed

lemma publishing_fetch:
  assumes "all_reported x" and "requests x = r # rs"
  shows "publishing (enter_section os r) (x\<lparr>served := served x @ [r], requests := rs\<rparr>)" (is "publishing _ ?x")
proof -
  have "all_reported ?x"
    by (rule all_reported_grow [OF assms(1)]) (auto simp: faults_def repaired_addrs_def)
  moreover have "handler_knows (enter_section os r) ?x"
    by (cases r) (auto simp: parse_sigbus_def known_info_def fault_sets split: option.splits)
  ultimately show ?thesis by (simp add: publishing_def)
qed

lemma publishing_body:
  assumes "publishing l x" and "registry_body os dbg l x = Some (l', x')"
  shows "publishing l' x'"
proof (cases "l = Fetch")
  case True
  with assms publishing_fetch show ?thesis
    by (auto simp: publishing_def split: list.splits)
next
  case False
  with assms publishing_section show ?thesis
    by (auto simp: body_section split: option.splits)
qed

section \<open>What stays reported\<close>

text \<open>Later items have the same states and more, and an error stays reported.\<close>

definition later :: "registry_item \<Rightarrow> registry_item \<Rightarrow> bool" where
  "later x y \<longleftrightarrow> length (states (reg_world x)) \<le> length (states (reg_world y)) \<and>
     (\<forall>i < length (states (reg_world x)). err (states (reg_world x) ! i) \<longrightarrow> err (states (reg_world y) ! i))"

lemma later_refl: "later x x"
  by (simp add: later_def)

lemma later_trans: "later x y \<Longrightarrow> later y z \<Longrightarrow> later x z"
  by (auto simp: later_def)

lemma later_update:
  assumes "\<And>st. err st \<Longrightarrow> err (f st)"
  shows "later x (x\<lparr>reg_world := update_state i f (reg_world x)\<rparr>)"
proof -
  have "err ((states w)[i := f (states w ! i)] ! j)" if "err (states w ! j)" "j < length (states w)" for j w
    using that assms by (cases "i = j") auto
  then show ?thesis by (auto simp: later_def update_state_def)
qed

lemma later_append:
  "states w' = states (reg_world x) @ sts \<Longrightarrow> later x (x\<lparr>reg_world := w'\<rparr>)"
  by (simp add: later_def nth_append)

lemma client_states:
  assumes "section_act os dbg l w = Some (l', w')" and "client_pc l \<or> (\<exists>si m. l = ReplacePages si m)"
  shows "\<exists>sts. states w' = states w @ sts"
  using assms
  by (cases l)
    (auto simp: section_defs Let_def split: if_splits sum.splits option.splits prod.splits outcome.splits)

lemma later_section:
  assumes "section_act os dbg l (reg_world x) = Some (l', w')"
  shows "later x (x\<lparr>reg_world := w'\<rparr>)"
proof (cases "client_pc l \<or> (\<exists>si m. l = ReplacePages si m)")
  case True
  with client_states [OF assms] later_append show ?thesis by blast
next
  case False
  then show ?thesis
    using assms
    by (cases l)
      (auto simp: store_si_code_def store_fix_addr_def store_err_addr_def store_err_def intro: later_update)
qed

lemma later_body:
  assumes "registry_body os dbg l x = Some (l', x')"
  shows "later x x'"
proof (cases "l = Fetch")
  case True
  with assms show ?thesis by (auto simp: later_def split: list.splits)
next
  case False
  with assms later_section show ?thesis by (auto simp: body_section split: option.splits)
qed

end
