(* ===== verification/State_Ownership.thy ===== *)
theory State_Ownership
  imports State_Publication
begin

text \<open>
  The states belong to the right maps. Whatever sections have run and however far the current one has
  got, the registry is well-formed, every mapping has a state of its own, and an error that a state
  reports is a fault at an address of its mapping.
\<close>

section \<open>The invariant of the world\<close>

definition own_errors :: "world \<Rightarrow> bool" where
  "own_errors w \<longleftrightarrow>
     (\<forall>k m. registry w k = Some m \<longrightarrow> err (states w ! m_state m) \<longrightarrow>
        in_region k (m_len m) (err_addr (states w ! m_state m)))"

definition world_fine :: "world \<Rightarrow> bool" where
  "world_fine w \<longleftrightarrow> root_ok (current_root w) \<and> own_states (registry w) (length (states w)) \<and> own_errors w"

lemma world_ok_fine:
  assumes "world_ok w" and "\<forall>st \<in> set (states w). \<not> err st"
  shows "world_fine w"
proof -
  have "\<not> err (states w ! m_state m)" if "registry w k = Some m" for k m
    using world_ok_parts(3) [OF assms(1)] that assms(2) by (simp add: own_states_def)
  with assms(1) show ?thesis by (simp add: world_fine_def own_errors_def world_ok_def)
qed

definition free_region :: "usize \<Rightarrow> usize \<Rightarrow> world \<Rightarrow> bool" where
  "free_region addr len w \<longleftrightarrow> (\<forall>k m. registry w k = Some m \<longrightarrow> \<not> overlapping addr len k (m_len m))"

text \<open>An address of the mapping that has the state \<open>i\<close>.\<close>

definition address_of :: "nat \<Rightarrow> usize \<Rightarrow> world \<Rightarrow> bool" where
  "address_of i a w \<longleftrightarrow> (\<exists>k m. registry w k = Some m \<and> m_state m = i \<and> in_region k (m_len m) a)"

text \<open>Callers register intervals that are not empty and do not reach the end of the address space.\<close>

fun request_ok :: "request \<Rightarrow> bool" where
  "request_ok (Register addr len prot) = region_ok addr len"
| "request_ok (Unregister g) = True"
| "request_ok (Fault info) = True"

fun pc_ok :: "section_pc \<Rightarrow> world \<Rightarrow> bool" where
  "pc_ok (CheckClean r) w = request_ok r"
| "pc_ok (MarkUnclean r) w = request_ok r"
| "pc_ok (SearchOverlap addr len prot) w = region_ok addr len"
| "pc_ok (CreateState addr len prot) w = (region_ok addr len \<and> free_region addr len w)"
| "pc_ok (InsertMapping addr len prot i) w =
     (region_ok addr len \<and> free_region addr len w \<and> i < length (states w) \<and>
      (\<forall>k m. registry w k = Some m \<longrightarrow> m_state m \<noteq> i) \<and> \<not> err (states w ! i))"
| "pc_ok (ReplacePages si m) w = address_of (m_state m) (bus_addr si) w"
| "pc_ok (StoreSiCode si i a) w = address_of i (bus_addr si) w"
| "pc_ok (StoreFixAddr si i a) w = address_of i (bus_addr si) w"
| "pc_ok (StoreErrAddr si i) w = address_of i (bus_addr si) w"
| "pc_ok (StoreErr i) w = (i < length (states w) \<longrightarrow> address_of i (err_addr (states w ! i)) w)"
| "pc_ok l w = True"

lemma enter_closure_ok: "request_ok r \<Longrightarrow> pc_ok (enter_closure r) w"
  by (cases r) simp_all

lemma enter_section_ok: "request_ok r \<Longrightarrow> pc_ok (enter_section os r) w"
  by (cases r) (simp_all split: option.split)

lemma registry_set_root [simp]: "registry (set_root r w) = map_of (root_map r)"
  by (simp add: registry_def set_root_def)

lemma states_set_root [simp]: "states (set_root r w) = states w"
  by (simp add: set_root_def)

lemma current_set_root [simp]: "current_root (set_root r w) = r"
  by (simp add: set_root_def)

lemma registry_other [simp]:
  "registry (w\<lparr>states := sts\<rparr>) = registry w" "registry (w\<lparr>remaps := rs\<rparr>) = registry w"
  "current_root (w\<lparr>remaps := rs\<rparr>) = current_root w"
  "address_of i a (w\<lparr>remaps := rs\<rparr>) = address_of i a w"
  by (simp_all add: registry_def current_root_def address_of_def)

section \<open>The steps of \<open>with_root\<close> and the closures\<close>

text \<open>Marking the root does not touch the map.\<close>

lemma mark_fine:
  "world_fine w \<Longrightarrow> world_fine (set_root ((current_root w)\<lparr>cleanly_unlocked := b\<rparr>) w)"
  by (simp add: world_fine_def own_errors_def registry_def)

lemma own_states_mono: "own_states reg n \<Longrightarrow> n \<le> k \<Longrightarrow> own_states reg k"
  unfolding own_states_def by (meson less_le_trans)

lemma create_fine:
  assumes fine: "world_fine w" and pc: "pc_ok (CreateState addr len prot) w"
    and step: "create_state addr len prot w = (l', w')"
  shows "world_fine w' \<and> pc_ok l' w'"
proof -
  have w': "w' = w\<lparr>states := states w @ [state_new]\<rparr>" "l' = InsertMapping addr len prot (length (states w))"
    using step by (simp_all add: create_state_def)
  have own: "own_states (registry w) (length (states w))" using fine by (simp add: world_fine_def)
  then have less: "m_state m < length (states w)" if "registry w k = Some m" for k m
    using that by (simp add: own_states_def)
  have "own_states (registry w) (Suc (length (states w)))" by (rule own_states_mono [OF own]) simp
  moreover have "own_errors w'"
    using fine less by (simp add: w' world_fine_def own_errors_def nth_append)
  ultimately have "world_fine w'" using fine by (simp add: w' world_fine_def)
  moreover have "m_state m \<noteq> length (states w)" if "registry w k = Some m" for k m
    using less [OF that] by simp
  ultimately show ?thesis
    using pc by (simp add: w' free_region_def state_new_def)
qed

lemma own_states_put:
  assumes "own_states reg n" and "m_state m < n" and "\<And>j m'. reg j = Some m' \<Longrightarrow> m_state m' \<noteq> m_state m"
  shows "own_states (reg(k \<mapsto> m)) n"
  using assms unfolding own_states_def by (auto split: if_splits) metis+

lemma insert_fine:
  assumes fine: "world_fine w" and pc: "pc_ok (InsertMapping addr len prot i) w"
    and step: "insert_mapping addr len prot i w = (l', w')"
  shows "world_fine w' \<and> pc_ok l' w'"
proof -
  let ?r = "current_root w" and ?m = "\<lparr>m_start = addr, m_len = len, mmap_prot = prot, m_state = i\<rparr>"
  have w': "w' = set_root (?r\<lparr>root_map := bt_insert addr ?m (root_map ?r)\<rparr>) w" "l' = MarkClean"
    using step by (simp_all add: insert_mapping_def Let_def)
  have st: "states w' = states w" by (simp add: w')
  have root: "root_ok ?r" and own: "own_states (registry w) (length (states w))"
    and errors: "own_errors w" using fine by (simp_all add: world_fine_def)
  have inv: "bt_invar (root_map ?r)" by (rule root_ok_parts(1) [OF root])
  have reg: "registry w' = (registry w)(addr \<mapsto> ?m)"
    by (simp add: w' bt_insert_lookup [OF inv] registry_def)
  have "regions_ok (registry w')"
    unfolding reg using root_ok_parts(2) [OF root] pc
    by (intro regions_ok_insert) (simp_all add: registry_def free_region_def)
  then have "root_ok (current_root w')"
    using bt_insert_invar [OF inv] by (simp add: root_ok_def w' registry_def)
  moreover have "own_states (registry w') (length (states w'))"
    unfolding reg using pc by (simp add: w' own_states_put [OF own])
  moreover have "own_errors w'"
    unfolding own_errors_def reg st using errors pc by (auto simp: own_errors_def)
  ultimately show ?thesis by (simp add: world_fine_def w')
qed

lemma remove_fine:
  assumes fine: "world_fine w" and step: "remove_mapping g w = (l', w')"
  shows "world_fine w' \<and> pc_ok l' w'"
proof -
  let ?r = "current_root w"
  obtain res rest where rem: "bt_remove (guard_addr g) (root_map ?r) = (res, rest)" by fastforce
  have w': "w' = set_root (?r\<lparr>root_map := rest\<rparr>) w" "l' = Leave \<or> (\<exists>m. l' = CompareState g m)"
    using step by (auto simp: remove_mapping_def rem Let_def split: option.splits)
  have st: "states w' = states w" by (simp add: w')
  have root: "root_ok ?r" and own: "own_states (registry w) (length (states w))"
    and errors: "own_errors w" using fine by (simp_all add: world_fine_def)
  have inv: "bt_invar (root_map ?r)" by (rule root_ok_parts(1) [OF root])
  have reg: "registry w' = (registry w)(guard_addr g := None)"
    using bt_remove_lookup [OF inv, of "guard_addr g"] by (simp add: w' registry_def rem)
  have "root_ok (current_root w')"
    using bt_remove_invar [OF inv, of "guard_addr g"] regions_ok_remove [OF root_ok_parts(2) [OF root]] reg
    by (simp add: root_ok_def w' rem registry_def)
  moreover have "own_states (registry w') (length (states w'))"
    unfolding reg by (simp add: w' own_states_remove [OF own])
  moreover have "own_errors w'"
    unfolding own_errors_def reg st using errors by (simp add: own_errors_def)
  ultimately show ?thesis using w'(2) by (auto simp: world_fine_def)
qed

lemma search_overlap_fine:
  assumes fine: "world_fine w" and pc: "region_ok addr len"
    and step: "search_overlap dbg addr len prot w = (l', w')"
  shows "world_fine w' \<and> pc_ok l' w'"
proof -
  have root: "root_ok (current_root w)" using fine by (simp add: world_fine_def)
  have "free_region addr len w" if "lookup_overlap dbg addr len (current_root w) = Inr None"
    using lookup_overlap_none [OF root pc, of dbg] that by (simp add: free_region_def registry_def)
  then show ?thesis
    using step fine pc by (auto simp: search_overlap_def split: sum.splits option.splits)
qed

section \<open>The steps of the handler\<close>

lemma search_addr_fine:
  assumes fine: "world_fine w" and step: "search_addr dbg si w = (l', w')"
  shows "world_fine w' \<and> pc_ok l' w'"
proof -
  have root: "root_ok (current_root w)" using fine by (simp add: world_fine_def)
  have "address_of (m_state m) (bus_addr si) w"
    if "lookup_addr dbg (bus_addr si) (current_root w) = Inr (Some m)" for m
    using that lookup_addr_some [OF root] unfolding address_of_def registry_def by blast
  then show ?thesis
    using step fine by (auto simp: search_addr_def split: sum.splits option.splits)
qed

lemma replace_pages_fine:
  assumes fine: "world_fine w" and pc: "address_of (m_state m) (bus_addr si) w"
    and step: "replace_pages os dbg si m w = (l', w')"
  shows "world_fine w' \<and> pc_ok l' w'"
proof -
  have "w' = w \<and> l' = Crashed \<or>
      (\<exists>rs a. w' = w\<lparr>remaps := rs\<rparr> \<and> (l' = Crashed \<or> l' = StoreSiCode si (m_state m) a))"
    using step by (auto simp: replace_pages_def split: outcome.splits option.splits if_splits)
  with fine pc show ?thesis
    by (auto simp: world_fine_def own_errors_def)
qed

text \<open>A store changes one state, which at most one mapping has.\<close>

lemma registry_update_state [simp]: "registry (update_state i f w) = registry w"
  by (simp add: update_state_def)

lemma address_update_state [simp]: "address_of j a (update_state i f w) = address_of j a w"
  by (simp add: address_of_def)

lemma update_fine:
  assumes fine: "world_fine w"
    and st: "\<And>k m. registry w k = Some m \<Longrightarrow> m_state m = i \<Longrightarrow> i < length (states w) \<Longrightarrow>
      err (f (states w ! i)) \<Longrightarrow> in_region k (m_len m) (err_addr (f (states w ! i)))"
  shows "world_fine (update_state i f w)"
proof -
  have own: "own_states (registry w) (length (states w))" and errors: "own_errors w"
    using fine by (simp_all add: world_fine_def)
  have "in_region k (m_len m) (err_addr (states (update_state i f w) ! m_state m))"
    if "registry w k = Some m" "err (states (update_state i f w) ! m_state m)" for k m
  proof (cases "m_state m = i")
    case True
    have "i < length (states w)" using own that(1) True by (auto simp: own_states_def)
    with st [OF that(1) True] that(2) True show ?thesis by (simp add: update_state_def)
  next
    case False
    with errors that show ?thesis by (simp add: own_errors_def update_state_def)
  qed
  then have "own_errors (update_state i f w)" by (simp add: own_errors_def)
  moreover have "current_root (update_state i f w) = current_root w"
    and "length (states (update_state i f w)) = length (states w)" by (simp_all add: update_state_def)
  ultimately show ?thesis using fine by (simp add: world_fine_def)
qed

text \<open>The mapping with a state is unique, so that an address of it is in its interval.\<close>

lemma address_of_own:
  assumes fine: "world_fine w" and a: "address_of i a w" and m: "registry w k = Some m" "m_state m = i"
  shows "in_region k (m_len m) a"
proof -
  from a obtain j n where n: "registry w j = Some n" "m_state n = i" "in_region j (m_len n) a"
    by (auto simp: address_of_def)
  have "own_states (registry w) (length (states w))" using fine by (simp add: world_fine_def)
  with n m have "j = k" unfolding own_states_def by metis
  with n m show ?thesis by simp
qed

lemma own_error_at:
  assumes "world_fine w" and "registry w k = Some m" and "err (states w ! m_state m)"
  shows "in_region k (m_len m) (err_addr (states w ! m_state m))"
  using assms by (simp add: world_fine_def own_errors_def)

lemma stores_fine:
  assumes fine: "world_fine w"
  shows "address_of i (bus_addr si) w \<Longrightarrow> store_si_code si i a w = (l', w') \<Longrightarrow> world_fine w' \<and> pc_ok l' w'"
    and "address_of i (bus_addr si) w \<Longrightarrow> store_fix_addr si i a w = (l', w') \<Longrightarrow> world_fine w' \<and> pc_ok l' w'"
    and "address_of i (bus_addr si) w \<Longrightarrow> store_err_addr si i w = (l', w') \<Longrightarrow> world_fine w' \<and> pc_ok l' w'"
    and "i < length (states w) \<longrightarrow> address_of i (err_addr (states w ! i)) w \<Longrightarrow> store_err i w = (l', w') \<Longrightarrow>
      world_fine w' \<and> pc_ok l' w'"
proof -
  assume a: "address_of i (bus_addr si) w"
  note own = own_error_at [OF fine] address_of_own [OF fine a]
  show "world_fine w' \<and> pc_ok l' w'" if "store_si_code si i a w = (l', w')"
    using that a own by (auto simp: store_si_code_def intro!: update_fine [OF fine])
  show "world_fine w' \<and> pc_ok l' w'" if "store_fix_addr si i a w = (l', w')"
    using that a own by (auto simp: store_fix_addr_def intro!: update_fine [OF fine])
  show "world_fine w' \<and> pc_ok l' w'" if "store_err_addr si i w = (l', w')"
  proof -
    have w': "w' = update_state i (\<lambda>st. st\<lparr>err_addr := bus_addr si\<rparr>) w" "l' = StoreErr i"
      using that by (simp_all add: store_err_addr_def)
    have "world_fine w'" unfolding w'(1) by (rule update_fine [OF fine]) (simp add: own(2))
    moreover have "i < length (states w) \<Longrightarrow> err_addr (states w' ! i) = bus_addr si"
      by (simp add: w' update_state_def)
    ultimately show ?thesis using a by (simp add: w') (simp add: update_state_def)
  qed
next
  assume a: "i < length (states w) \<longrightarrow> address_of i (err_addr (states w ! i)) w"
  show "world_fine w' \<and> pc_ok l' w'" if "store_err i w = (l', w')"
    using that a address_of_own [OF fine] by (auto simp: store_err_def intro!: update_fine [OF fine])
qed

section \<open>The whole section\<close>

lemma section_fine:
  assumes fine: "world_fine w" and pc: "pc_ok l w" and step: "section_act os dbg l w = Some (l', w')"
  shows "world_fine w' \<and> pc_ok l' w'"
proof (cases l)
  case (CheckClean r)
  with assms show ?thesis by (auto simp: check_clean_def)
next
  case (MarkUnclean r)
  with assms mark_fine [OF fine] show ?thesis by (auto simp: mark_unclean_def enter_closure_ok)
next
  case (SearchOverlap addr len prot)
  with assms search_overlap_fine [OF fine] show ?thesis by auto
next
  case (CreateState addr len prot)
  with assms create_fine [OF fine] show ?thesis by auto
next
  case (InsertMapping addr len prot i)
  with assms insert_fine [OF fine] show ?thesis by auto
next
  case (RemoveMapping g)
  with assms remove_fine [OF fine] show ?thesis by auto
next
  case (CompareState g m)
  with assms show ?thesis by (auto simp: compare_state_def)
next
  case MarkClean
  with assms mark_fine [OF fine] show ?thesis by (auto simp: mark_clean_def)
next
  case (SearchAddr si)
  with assms search_addr_fine [OF fine] show ?thesis by auto
next
  case (ReplacePages si m)
  with assms replace_pages_fine [OF fine] show ?thesis by auto
qed (use assms stores_fine [OF fine] in auto)

definition section_ok :: "section_pc \<Rightarrow> registry_item \<Rightarrow> bool" where
  "section_ok l x \<longleftrightarrow> world_fine (reg_world x) \<and> pc_ok l (reg_world x) \<and> list_all request_ok (requests x)"

lemma section_ok_body:
  assumes "section_ok l x" and "registry_body os dbg l x = Some (l', x')"
  shows "section_ok l' x'"
proof (cases "l = Fetch")
  case True
  with assms(2) obtain r rs where "requests x = r # rs" "l' = enter_section os r"
      "x' = x\<lparr>served := served x @ [r], requests := rs\<rparr>"
    by (auto split: list.splits)
  with assms(1) enter_section_ok [of r os] show ?thesis by (simp add: section_ok_def)
next
  case False
  with assms(2) obtain w' where step: "section_act os dbg l (reg_world x) = Some (l', w')"
      and x': "x' = x\<lparr>reg_world := w'\<rparr>"
    by (auto simp: body_section split: option.splits)
  have "world_fine (reg_world x)" and "pc_ok l (reg_world x)" using assms(1) by (simp_all add: section_ok_def)
  from section_fine [OF this step] assms(1) show ?thesis by (simp add: section_ok_def x')
qed

end
