(* ===== verification/Registry_Lock.thy ===== *)
theory Registry_Lock
  imports State_Ownership Signal_Lock
begin

text \<open>
  The registry under its lock. \<open>ROOT\<close> is a \<open>SignalLock<Root>\<close>; the sections of theory
  Registry\_Sections run under the lock that \<open>SignalLock::new\<close> makes for the platform, interleaved
  with each other and interrupted by signal handlers in any way.
\<close>

definition registry_code ::
    "platform \<Rightarrow> bool \<Rightarrow> nat \<Rightarrow> os \<Rightarrow> (registry_item signal_lock, section_pc signal_pc) lock_code" where
  "registry_code pl dbg cap os = signal_code pl dbg cap (registry_body os dbg) Fetch"

text \<open>The item of the lock in a state of the machine.\<close>

definition registry_of :: "(registry_item signal_lock, section_pc signal_pc) sys \<Rightarrow> registry_item" where
  "registry_of s = signal_lock_item (mem s)"

definition root_unlocked :: "(registry_item signal_lock, section_pc signal_pc) sys \<Rightarrow> bool" where
  "root_unlocked s \<longleftrightarrow> signal_lock_owner (mem s) = 0"

lemma registry_serial:
  assumes new: "signal_lock_new pl pipe2 fcntl x fds = (Inr l, fds')"
    and r: "reachable (registry_code pl dbg cap os) l s" and "root_unlocked s"
  shows "(runs_section os dbg Fetch)\<^sup>*\<^sup>* x (registry_of s)"
  using signal_serial [OF new r [unfolded registry_code_def]] assms(3)
  by (simp add: registry_of_def root_unlocked_def)

text \<open>What the steps of the sections keep holds at every moment, inside a section as well.\<close>

lemma registry_invariant:
  assumes new: "signal_lock_new pl pipe2 fcntl x fds = (Inr l, fds')"
    and r: "reachable (registry_code pl dbg cap os) l s" and x: "J Fetch x"
    and go: "\<And>k y k' y'. J k y \<Longrightarrow> registry_body os dbg k y = Some (k', y') \<Longrightarrow> J k' y'"
    and exit: "\<And>k y. J k y \<Longrightarrow> J Fetch y"
  shows "J Fetch (registry_of s)"
  using new r [unfolded registry_code_def]
proof (cases rule: signal_lock_cases)
  case (futex s1)
  have "futex_owner (mem s1) = 0 \<and> J Fetch (futex_lock.item (mem s1)) \<or> (\<exists>k. J k (futex_lock.item (mem s1)))"
    by (rule futex_serial.item_invariant [OF futex(2)]) (simp add: x futex_lock_new_def | erule (1) go | erule exit)+
  with exit futex(3) show ?thesis by (auto simp: registry_of_def)
next
  case (pipe s1 ends)
  have "holder_tid (mem s1) = 0 \<and> J Fetch (pipe_lock.item (mem s1)) \<or> (\<exists>k. J k (pipe_lock.item (mem s1)))"
    by (rule pipe_serial.item_invariant [OF pipe(2)]) (simp add: x pipe_lock_init_def | erule (1) go | erule exit)+
  with exit pipe(3) show ?thesis by (auto simp: registry_of_def)
qed

lemma registry_reported:
  assumes "signal_lock_new pl pipe2 fcntl x fds = (Inr l, fds')"
    and "reachable (registry_code pl dbg cap os) l s" and x: "all_reported x"
  shows "all_reported (registry_of s)"
proof -
  have "publishing Fetch (registry_of s)"
    by (rule registry_invariant [OF assms(1,2), where J = publishing])
      (simp add: publishing_def x, erule (1) publishing_body, simp add: publishing_def)
  then show ?thesis by (simp add: publishing_def)
qed

lemma registry_fine:
  assumes "signal_lock_new pl pipe2 fcntl x fds = (Inr l, fds')"
    and "reachable (registry_code pl dbg cap os) l s" and x: "section_ok Fetch x"
  shows "world_fine (reg_world (registry_of s))"
proof -
  have "section_ok Fetch (registry_of s)"
    by (rule registry_invariant [OF assms(1,2), where J = section_ok])
      (rule x, erule (1) section_ok_body, simp add: section_ok_def)
  then show ?thesis by (simp add: section_ok_def)
qed

lemma registry_later:
  assumes new: "signal_lock_new pl pipe2 fcntl x fds = (Inr l, fds')"
    and r: "reachable (registry_code pl dbg cap os) l s"
    and run: "exec_all (registry_code pl dbg cap os) es s = Some s'"
  shows "later (registry_of s) (registry_of s')"
  using new r [unfolded registry_code_def]
proof (cases rule: signal_lock_cases)
  case (futex s1)
  with run obtain s2 where "exec_all (futex_code dbg (registry_body os dbg) Fetch) es s1 = Some s2"
      "s' = lift_sys FutexImp FutexPc s2"
    by (auto simp: registry_code_def signal_linux.exec_all_lift)
  moreover from this(1) have "later (futex_lock.item (mem s1)) (futex_lock.item (mem s2))"
    by (rule futex_serial.item_later [OF futex(2)]) (fact later_refl later_trans later_body)+
  ultimately show ?thesis by (simp add: registry_of_def futex(3))
next
  case (pipe s1 ends)
  with run obtain s2 where "exec_all (pipe_code dbg cap (registry_body os dbg) Fetch) es s1 = Some s2"
      "s' = lift_sys (\<lambda>m. PipeImp m ends) PipePc s2"
    by (auto simp: registry_code_def signal_unix.exec_all_lift)
  moreover from this(1) have "later (pipe_lock.item (mem s1)) (pipe_lock.item (mem s2))"
    by (rule pipe_serial.item_later [OF pipe(2)]) (fact later_refl later_trans later_body)+
  ultimately show ?thesis by (simp add: registry_of_def pipe(3))
qed

end
