(* ===== verification/Mmap_History.thy ===== *)
theory Mmap_History
  imports Sigbus_Handler
begin

text \<open>
  Histories of a process that uses \<open>mmapcatch\<close> as documented: maps are registered, guards are dropped
  once, and memory faults interrupt it, in any order and by any threads. The critical sections are
  serializable (theory Registry\_Lock), so a history is a sequence of complete calls.
\<close>

section \<open>Steps of a process\<close>

text \<open>
  The guards that have not been dropped, and all intervals (with their protection) that have ever been
  registered successfully.
\<close>

record session =
  process :: world
  guards :: "guard list"
  mapped :: "(usize \<times> usize \<times> int) list"

definition session_start :: session where
  "session_start = \<lparr>process = initial_world, guards = [], mapped = []\<rparr>"

text \<open>A real map starts on a page boundary above 0 and is not empty.\<close>

definition legal_map :: "nat \<Rightarrow> usize \<Rightarrow> usize \<Rightarrow> bool" where
  "legal_map k addr len \<longleftrightarrow> region_ok addr len \<and> 2 ^ k dvd unat addr \<and> 0 < addr"

text \<open>The steps after which the process goes on.\<close>

inductive use_step :: "nat \<Rightarrow> os \<Rightarrow> bool \<Rightarrow> setup_results \<Rightarrow> session \<Rightarrow> session \<Rightarrow> bool" for k os dbg sr where
  registered: "legal_map k addr len \<Longrightarrow>
    register_mmap dbg sr t addr len prot (process s) = (Ret (Inr g), w) \<Longrightarrow>
    use_step k os dbg sr s (s\<lparr>process := w, guards := g # guards s, mapped := (addr, len, prot) # mapped s\<rparr>)"
| refused: "legal_map k addr len \<Longrightarrow>
    register_mmap dbg sr t addr len prot (process s) = (Ret (Inl e), w) \<Longrightarrow>
    use_step k os dbg sr s (s\<lparr>process := w\<rparr>)"
| dropped: "g \<in> set (guards s) \<Longrightarrow> guard_drop (lock_created sr) t g (process s) = (Ret (), w) \<Longrightarrow>
    use_step k os dbg sr s (s\<lparr>process := w, guards := remove1 g (guards s)\<rparr>)"
| faulted: "handle_sigbus os dbg t info (process s) = (Ret (), w) \<Longrightarrow>
    use_step k os dbg sr s (s\<lparr>process := w\<rparr>)"

inductive history :: "nat \<Rightarrow> os \<Rightarrow> bool \<Rightarrow> setup_results \<Rightarrow> session \<Rightarrow> bool" for k os dbg sr where
  started: "history k os dbg sr session_start"
| used: "history k os dbg sr s \<Longrightarrow> use_step k os dbg sr s s' \<Longrightarrow> history k os dbg sr s'"

section \<open>The invariant\<close>

text \<open>The replaced interval \<open>(x, l, p)\<close> is the end of a registered one.\<close>

definition within_mapped :: "(usize \<times> usize \<times> int) list \<Rightarrow> usize \<times> usize \<times> int \<Rightarrow> bool" where
  "within_mapped ms = (\<lambda>(x, l, p). list_ex (\<lambda>(a, n, q).
     p = q \<and> unat a \<le> unat x \<and> unat x + unat l = unat a + unat n) ms)"

definition guards_ok :: "guard list \<Rightarrow> world \<Rightarrow> bool" where
  "guards_ok gs w \<longleftrightarrow> distinct (map guard_addr gs) \<and> (\<forall>g \<in> set gs. guard_ok g w) \<and>
     dom (registry w) = guard_addr ` set gs"

definition maps_ok :: "nat \<Rightarrow> (usize \<times> usize \<times> int) list \<Rightarrow> world \<Rightarrow> bool" where
  "maps_ok k ms w \<longleftrightarrow>
     (\<forall>a m. registry w a = Some m \<longrightarrow> legal_map k a (m_len m) \<and> (a, m_len m, mmap_prot m) \<in> set ms) \<and>
     list_all (within_mapped ms) (remaps w)"

definition session_ok :: "nat \<Rightarrow> session \<Rightarrow> bool" where
  "session_ok k s \<longleftrightarrow> world_ok (process s) \<and> holder (process s) = None \<and> handler (process s) \<noteq> OncePoisoned \<and>
     guards_ok (guards s) (process s) \<and> maps_ok k (mapped s) (process s)"

text \<open>The handler can be installed and the lock of the registry created.\<close>

definition setup_fine :: "setup_results \<Rightarrow> bool" where
  "setup_fine sr \<longleftrightarrow> sigfillset_ok sr \<and> sigaction_ok sr \<and> lock_created sr = None"

lemma session_ok_start: "session_ok k session_start"
proof -
  have "registry initial_world = Map.empty"
    by (simp add: registry_def current_root_def initial_world_def root_new_def)
  then show ?thesis
    using world_ok_initial
    by (simp add: session_ok_def session_start_def guards_ok_def maps_ok_def) (simp add: initial_world_def)
qed

text \<open>A registration with legal arguments always returns.\<close>

lemma register_legal:
  assumes s: "session_ok k s" and sr: "setup_fine sr" and legal: "legal_map k addr len"
  shows "\<exists>w1. root_available (lock_created sr) (process s) \<and>
    install_signal_handler (sigfillset_ok sr) (sigaction_ok sr) (process s) = (Ret (), w1)"
  using s sr
  by (cases "handler (process s)") (simp_all add: session_ok_def setup_fine_def root_available_def install_signal_handler_def)

lemma register_session_ok:
  assumes s: "session_ok k s" and sr: "setup_fine sr" and legal: "legal_map k addr len"
  obtains e w where "register_mmap dbg sr t addr len prot (process s) = (Ret (Inl e), w)"
      "session_ok k (s\<lparr>process := w\<rparr>)"
  | g w where "register_mmap dbg sr t addr len prot (process s) = (Ret (Inr g), w)"
      "session_ok k (s\<lparr>process := w, guards := g # guards s, mapped := (addr, len, prot) # mapped s\<rparr>)"
proof -
  obtain w1 where avail: "root_available (lock_created sr) (process s)"
    and inst: "install_signal_handler (sigfillset_ok sr) (sigaction_ok sr) (process s) = (Ret (), w1)"
    using register_legal [OF assms] by blast
  have ok: "world_ok (process s)" and region: "region_ok addr len"
    and guards: "guards_ok (guards s) (process s)" and maps: "maps_ok k (mapped s) (process s)"
    using s legal by (simp_all add: session_ok_def legal_map_def)
  show thesis
  proof (rule register_cases [OF ok avail inst region, of dbg t prot])
    fix m w'
    assume run: "register_mmap dbg sr t addr len prot (process s) = (Ret (Inl (Overlap (m_start m) (m_len m))), w')"
      and w': "registry w' = registry (process s)" "world_ok w'" "holder w' = None" "remaps w' = remaps (process s)"
        "handler w' = Complete"
    show thesis
      by (rule that(1) [OF run])
        (use guards maps w' in \<open>simp add: session_ok_def guards_ok_def maps_ok_def guard_ok_def\<close>)
  next
    fix g w'
    assume run: "register_mmap dbg sr t addr len prot (process s) = (Ret (Inr g), w')" and g: "guard_addr g = addr"
      and free: "\<And>k m. registry (process s) k = Some m \<Longrightarrow> \<not> overlapping addr len k (m_len m)"
      and reg: "registry w' = (registry (process s))(addr \<mapsto>
        \<lparr>m_start = addr, m_len = len, mmap_prot = prot, m_state = guard_state g\<rparr>)"
      and w': "world_ok w'" "holder w' = None" "remaps w' = remaps (process s)" "handler w' = Complete"
    have fresh: "registry (process s) addr = None"
      using free [of addr] regions_ok_at [OF world_ok_parts(5) [OF ok], of addr] region
      by (cases "registry (process s) addr") (auto simp: overlapping_def region_ok_def word_less_nat_alt)
    then have "guards_ok (g # guards s) w'"
      using guards g by (auto simp: guards_ok_def guard_ok_def reg)
    moreover have "maps_ok k ((addr, len, prot) # mapped s) w'"
      using maps legal fresh
      by (auto simp: maps_ok_def reg w'(3) within_mapped_def list_all_iff split: if_splits)
    ultimately show thesis
      using w' by (intro that(2) [OF run]) (simp add: session_ok_def)
  qed
qed

text \<open>The drop of a guard that is in use always returns.\<close>

lemma drop_session_ok:
  assumes s: "session_ok k s" and g: "g \<in> set (guards s)"
  obtains w where "guard_drop created t g (process s) = (Ret (), w)"
    "session_ok k (s\<lparr>process := w, guards := remove1 g (guards s)\<rparr>)"
proof -
  have ok: "world_ok (process s)" "holder (process s) = None" "guard_ok g (process s)"
    and guards: "guards_ok (guards s) (process s)" and maps: "maps_ok k (mapped s) (process s)"
    using s g by (simp_all add: session_ok_def guards_ok_def)
  show thesis
  proof (rule guard_drop_run [OF ok, of created t])
    fix w
    assume run: "guard_drop created t g (process s) = (Ret (), w)"
      and reg: "registry w = (registry (process s))(guard_addr g := None)"
      and w: "world_ok w" "holder w = None" "states w = states (process s)" "remaps w = remaps (process s)"
        "handler w = handler (process s)"
    have inj: "inj_on guard_addr (set (guards s))" and dist: "distinct (guards s)"
      using guards by (simp_all add: guards_ok_def distinct_map)
    have rest: "set (remove1 g (guards s)) = set (guards s) - {g}" by (rule set_remove1_eq [OF dist])
    have "guard_ok h w" if "h \<in> set (guards s) - {g}" for h
    proof -
      have "guard_addr h \<noteq> guard_addr g" using inj that g by (auto dest: inj_onD)
      with guards that show ?thesis by (simp add: guards_ok_def guard_ok_def reg)
    qed
    moreover have "distinct (map guard_addr (remove1 g (guards s)))"
      using dist inj inj_on_subset [OF inj] by (simp add: distinct_map rest)
    moreover have "dom (registry w) = guard_addr ` (set (guards s) - {g})"
      using guards g inj_on_image_set_diff [OF inj, of "set (guards s)" "{g}"] by (simp add: guards_ok_def reg)
    ultimately have "guards_ok (remove1 g (guards s)) w" by (simp add: guards_ok_def rest)
    moreover have "maps_ok k (mapped s) w"
      using maps by (auto simp: maps_ok_def reg w(4))
    ultimately show thesis
      using s w by (intro that [OF run]) (simp add: session_ok_def)
  qed
qed

lemma repaired_session_ok:
  assumes s: "session_ok k s" and reg: "(m_start m, m_len m, mmap_prot m) \<in> set (mapped s)"
    and le: "unat (m_start m) \<le> unat (page_start k (si_addr info))"
    and stop: "unat (page_start k (si_addr info)) + unat fix_len = unat (m_start m) + unat (m_len m)"
  shows "session_ok k (s\<lparr>process := repaired k info m fix_len (process s)\<rparr>)"
proof -
  have guards: "guards_ok (guards s) (process s)" and maps: "maps_ok k (mapped s) (process s)"
    using s by (simp_all add: session_ok_def)
  have "within_mapped (mapped s) (page_start k (si_addr info), fix_len, mmap_prot m)"
    using reg le stop unfolding within_mapped_def list_ex_iff
    by (auto intro!: bexI [of _ "(m_start m, m_len m, mmap_prot m)"])
  then have "maps_ok k (mapped s) (repaired k info m fix_len (process s))"
    using maps by (simp add: maps_ok_def) (simp add: repaired_def)
  moreover have "guards_ok (guards s) (repaired k info m fix_len (process s))"
    using guards by (simp add: guards_ok_def guard_ok_def)
  ultimately show ?thesis
    using s by (simp add: session_ok_def repaired_world_ok)
qed

text \<open>A fault is repaired, or the process aborts; it never panics or waits.\<close>

lemma fault_session_ok:
  assumes s: "session_ok k s" and os: "os_ok k os"
  obtains a w where "handle_sigbus os dbg t info (process s) = (Abort a, w)" "a = SomeOtherSigbus \<or> a = MmapFailed"
  | m fix_len where
      "registry (process s) (m_start m) = Some m" "in_region (m_start m) (m_len m) (si_addr info)"
      "handle_sigbus os dbg t info (process s) = (Ret (), repaired k info m fix_len (process s))"
      "session_ok k (s\<lparr>process := repaired k info m fix_len (process s)\<rparr>)"
proof (cases "bus_signal os info \<and> static_root (process s) \<noteq> None")
  case False
  with handle_sigbus_foreign [of os info "process s" dbg t] that(1) show thesis by blast
next
  case sig: True
  have ok: "world_ok (process s)" and maps: "maps_ok k (mapped s) (process s)"
    using s by (simp_all add: session_ok_def)
  have ready: "handler_ready (process s)"
    using s sig by (intro world_ok_ready) (simp_all add: session_ok_def)
  show thesis
  proof (cases "\<exists>j m. registry (process s) j = Some m \<and> in_region j (m_len m) (si_addr info)")
    case False
    with handle_sigbus_unregistered [of os info "process s" dbg t] sig ready that(1) show thesis by blast
  next
    case True
    then obtain m where m: "registry (process s) (m_start m) = Some m" "in_region (m_start m) (m_len m) (si_addr info)"
      using regions_ok_at [OF world_ok_parts(5) [OF ok]] by blast
    have legal: "legal_map k (m_start m) (m_len m)" and reg: "(m_start m, m_len m, mmap_prot m) \<in> set (mapped s)"
      using maps m(1) unfolding maps_ok_def by blast+
    from legal have aligned: "2 ^ k dvd unat (m_start m)" and pos: "0 < m_start m" by (simp_all add: legal_map_def)
    show thesis
    proof (rule handle_sigbus_registered [OF os _ ready m aligned pos, of dbg t])
      show "bus_signal os info" using sig by simp
      fix fix_len
      assume run: "handle_sigbus os dbg t info (process s) =
          (if mmap_call os (page_start k (si_addr info)) fix_len (mmap_prot m) = None
           then (Abort MmapFailed, (process s)\<lparr>holder := Some t, errno_of := errno_left os\<rparr>)
           else (Ret (), repaired k info m fix_len (process s)))"
        and le: "unat (m_start m) \<le> unat (page_start k (si_addr info))"
        and stop: "unat (page_start k (si_addr info)) + unat fix_len = unat (m_start m) + unat (m_len m)"
      from run m that repaired_session_ok [OF s reg le stop] show thesis by (auto split: if_splits)
    qed
  qed
qed

lemma use_step_ok:
  assumes "use_step k os dbg sr s s'" and s: "session_ok k s" and sr: "setup_fine sr" and os: "os_ok k os"
  shows "session_ok k s'"
  using assms(1)
proof cases
  case (registered addr len t prot g w)
  show ?thesis
    by (rule register_session_ok [OF s sr registered(2), of dbg t prot]) (use registered in auto)
next
  case (refused addr len t prot e w)
  show ?thesis
    by (rule register_session_ok [OF s sr refused(2), of dbg t prot]) (use refused in auto)
next
  case (dropped g t w)
  show ?thesis
    by (rule drop_session_ok [OF s dropped(2), of "lock_created sr" t]) (use dropped in auto)
next
  case (faulted t info w)
  show ?thesis
    by (rule fault_session_ok [OF s os, of dbg t info]) (use faulted in auto)
qed

lemma history_ok:
  assumes "history k os dbg sr s" and "setup_fine sr" and "os_ok k os"
  shows "session_ok k s"
  using assms(1) by induction (use assms(2,3) session_ok_start use_step_ok in blast)+

end
