(* ===== verification/Mmap_Examples.thy ===== *)
theory Mmap_Examples
  imports Mmap_History
begin

text \<open>
  Concrete processes that use \<open>mmapcatch\<close>: a registered map, a fault in it, and the history that leads
  there. The examples beside the properties evaluate them.
\<close>

text \<open>Two registered maps with a gap between them.\<close>

definition two_maps :: root where
  "two_maps = \<lparr>root_map = [(0x1000, \<lparr>m_start = 0x1000, m_len = 0x2000, mmap_prot = 1, m_state = 0\<rparr>),
     (0x8000, \<lparr>m_start = 0x8000, m_len = 0x1000, mmap_prot = 1, m_state = 1\<rparr>)], cleanly_unlocked = True\<rparr>"

lemma two_maps_ok: "root_ok two_maps"
  by (auto simp: two_maps_def root_ok_def regions_ok_def region_ok_def overlapping_def split: if_splits)

text \<open>A process with a free lock in which the handler has been installed and nothing is registered.\<close>

definition ready_world :: world where
  "ready_world = initial_world\<lparr>static_root := Some root_new, handler := Complete\<rparr>"

lemma ready_world_ok: "world_ok ready_world"
  using root_ok_new
  by (simp add: world_ok_def ready_world_def initial_world_def current_root_def registry_def own_states_def)
    (simp add: root_new_def)

definition setup_ok :: setup_results where
  "setup_ok = \<lparr>sigfillset_ok = True, sigaction_ok = True, lock_created = None\<rparr>"

lemma first_call:
  "world_ok initial_world" "root_available (lock_created setup_ok) initial_world"
  "install_signal_handler (sigfillset_ok setup_ok) (sigaction_ok setup_ok) initial_world =
    (Ret (), initial_world\<lparr>handler := Complete\<rparr>)"
  by (rule world_ok_initial) (simp_all add: root_available_def setup_ok_def install_signal_handler_def initial_world_def)

lemma region_ok_example: "region_ok 0x1000 0x2000"
  by (simp add: region_ok_def)

definition registered_guard :: guard where
  "registered_guard = \<lparr>guard_addr = 0x1000, guard_state = 0\<rparr>"

definition registered_world :: world where
  "registered_world =
     ready_world\<lparr>static_root := Some \<lparr>root_map =
         [(0x1000, \<lparr>m_start = 0x1000, m_len = 0x2000, mmap_prot = 3, m_state = 0\<rparr>)], cleanly_unlocked = True\<rparr>,
       states := [state_new]\<rparr>"

lemma register_example:
  "register_mmap True setup_ok 1 0x1000 0x2000 3 initial_world = (Ret (Inr registered_guard), registered_world)"
  by (simp add: register_mmap_def install_signal_handler_def initial_world_def setup_ok_def with_root_def
      get_or_init_def root_lock_def unwrap_lock_def root_new_def register_in_root_def lookup_overlap_def
      usize_add_def usize_sub_def Let_def registered_guard_def registered_world_def ready_world_def)

text \<open>Linux on x86-64, where every \<open>mmap\<close> succeeds.\<close>

definition linux :: os where
  "linux = \<lparr>SIGBUS = 7, BUS_ADRERR = 2, BUS_OBJERR = 3, page_size = 4096, mmap_call = \<lambda>a l p. Some a, errno_left = 22\<rparr>"

definition fault :: siginfo where
  "fault = \<lparr>si_signo = 7, info_code = 2, si_addr = 0x2ABC\<rparr>"

definition registered_map :: mapping where
  "registered_map = \<lparr>m_start = 0x1000, m_len = 0x2000, mmap_prot = 3, m_state = 0\<rparr>"

lemma linux_ok: "os_ok 12 linux"
  by (simp add: os_ok_def linux_def)

lemma linux_maps: "mmap_call linux a l p \<noteq> None"
  by (simp add: linux_def)

lemma registered_world_ready:
  "handler_ready registered_world" "registry registered_world (m_start registered_map) = Some registered_map"
  by (auto simp: handler_ready_def registered_world_def ready_world_def initial_world_def current_root_def
      registry_def root_ok_def regions_ok_def region_ok_def own_states_def registered_map_def split: if_splits)

lemma fault_in_map:
  "bus_signal linux fault" "in_region (m_start registered_map) (m_len registered_map) (si_addr fault)"
  "2 ^ 12 dvd unat (m_start registered_map)" "0 < m_start registered_map"
  by (simp_all add: bus_signal_def linux_def fault_def registered_map_def in_region_def)

lemma count_ones_4096: "count_ones 4096 = 1"
  using count_ones_power [of 12] by simp

lemma fault_handled:
  "handle_sigbus linux True 1 fault registered_world = (Ret (), repaired 12 fault registered_map 0x1000 registered_world)"
  by (simp add: handle_sigbus_def parse_sigbus_def registered_world_def ready_world_def initial_world_def linux_def fault_def
      root_lock_def locked_or_abort_def lookup_addr_def usize_add_def usize_sub_def fix_region_def count_ones_4096
      replace_region_def Let_def restore_errno_def save_errno_def repaired_def registered_map_def page_start_def)

text \<open>A registration and a fault.\<close>

definition used_session :: session where
  "used_session = \<lparr>process = repaired 12 fault registered_map 0x1000 registered_world,
     guards = [registered_guard], mapped = [(0x1000, 0x2000, 3)]\<rparr>"

lemma used_history: "history 12 linux True setup_ok used_session"
proof -
  have legal: "legal_map 12 0x1000 0x2000" by (simp add: legal_map_def region_ok_def)
  let ?s = "\<lparr>process = registered_world, guards = [registered_guard], mapped = [(0x1000, 0x2000, 3)]\<rparr>"
  have "use_step 12 linux True setup_ok session_start ?s"
    using use_step.registered [OF legal, of True setup_ok 1 3 session_start registered_guard registered_world linux] register_example
    by (simp add: session_start_def)
  then have "history 12 linux True setup_ok ?s" by (rule history.used [OF history.started])
  moreover have "use_step 12 linux True setup_ok ?s used_session"
    using use_step.faulted [of linux True 1 fault ?s] fault_handled by (simp add: used_session_def)
  ultimately show ?thesis by (rule history.used)
qed

lemma setup_ok_fine: "setup_fine setup_ok"
  by (simp add: setup_fine_def setup_ok_def)

end
