(* ===== verification/Mapped_Reads.thy ===== *)
theory Mapped_Reads
  imports Mmap_History
begin

text \<open>
  What a program sees that reads a registered map: the memory of the map under truncation of the file
  and under replacement of its pages, and a load that faults, runs \<open>handle_sigbus\<close> and is tried again. The
  contract in the documentation of \<open>register_mmap\<close> and \<open>Guard\<close> is an abstract reader, and the process
  with the handler refines it, whatever other threads do with the registry meanwhile.
\<close>

type_synonym u8 = "8 word"

type_synonym remap = "usize \<times> usize \<times> int"

section \<open>The memory of a map\<close>

text \<open>Offsets in pages of \<open>2 ^ k\<close> bytes, \<open>ftruncate\<close>, and a byte of the file or of the rest of its last page.\<close>

definition page_off :: "nat \<Rightarrow> nat \<Rightarrow> nat" where
  "page_off k i = i div 2 ^ k * 2 ^ k"

definition set_len :: "nat \<Rightarrow> u8 list \<Rightarrow> u8 list" where
  "set_len n contents = take n contents @ replicate (n - length contents) 0"

definition file_byte :: "u8 list \<Rightarrow> nat \<Rightarrow> u8" where
  "file_byte contents i = (if i < length contents then contents ! i else 0)"

text \<open>
  The page of an address lies in memory that has been replaced. Replacements from before the map was
  made do not count; \<open>n\<close> is their number.
\<close>

definition covers :: "nat \<Rightarrow> remap list \<Rightarrow> usize \<Rightarrow> bool" where
  "covers k rs a \<longleftrightarrow> list_ex (\<lambda>(x, l, p). in_region x l (page_start k a)) rs"

definition since :: "nat \<Rightarrow> world \<Rightarrow> remap list" where
  "since n w = take (length (remaps w) - n) (remaps w)"

text \<open>
  What a load from an address does, given the contents of the file and the replacements, is up to the
  operating system. For a readable shared map of a file the documentation of \<open>mmap\<close> says: replaced pages
  read as 0, pages with a byte of the file read as the file, padded with 0, and all others raise SIGBUS.
\<close>

type_synonym load = "u8 list \<Rightarrow> remap list \<Rightarrow> usize \<Rightarrow> siginfo + u8"

definition file_mapped :: "nat \<Rightarrow> os \<Rightarrow> usize \<Rightarrow> usize \<Rightarrow> load \<Rightarrow> bool" where
  "file_mapped k os addr len load \<longleftrightarrow>
     (\<forall>contents rs i. i < unat len \<longrightarrow>
        (if covers k rs (addr + of_nat i) then load contents rs (addr + of_nat i) = Inr 0
         else if page_off k i < length contents
         then load contents rs (addr + of_nat i) = Inr (file_byte contents i)
         else \<exists>info. load contents rs (addr + of_nat i) = Inl info \<and> bus_signal os info \<and>
           si_addr info = addr + of_nat i))"

text \<open>A load instruction of thread \<open>t\<close>. After the handler has returned it is executed again.\<close>

partial_function (option) load_byte ::
    "os \<Rightarrow> bool \<Rightarrow> tid \<Rightarrow> load \<Rightarrow> u8 list \<Rightarrow> nat \<Rightarrow> usize \<Rightarrow> world \<Rightarrow> (u8 outcome \<times> world) option" where
  "load_byte os dbg t load contents n a w =
     (case load contents (since n w) a of
        Inr v \<Rightarrow> Some (Ret v, w)
      | Inl info \<Rightarrow>
          (case handle_sigbus os dbg t info w of
             (Ret u, w') \<Rightarrow> load_byte os dbg t load contents n a w'
           | (Panic p, w') \<Rightarrow> Some (Panic p, w')
           | (Abort b, w') \<Rightarrow> Some (Abort b, w')
           | (Blocked, w') \<Rightarrow> Some (Blocked, w')))"

section \<open>The abstract reader\<close>

text \<open>
  The documented behaviour: from the offset \<open>cut\<close> on, the map reads as 0 for good; \<open>last_fault\<close> is the
  address of the most recent fault, if there was one.
\<close>

record reader =
  contents :: "u8 list"
  cut :: nat
  last_fault :: "usize option"

definition reader_start :: "u8 list \<Rightarrow> nat \<Rightarrow> reader" where
  "reader_start f len = \<lparr>contents = f, cut = len, last_fault = None\<rparr>"

definition reader_fault :: "nat \<Rightarrow> usize \<Rightarrow> nat \<Rightarrow> reader \<Rightarrow> reader" where
  "reader_fault k addr i r = r\<lparr>cut := min (cut r) (page_off k i), last_fault := Some (addr + of_nat i)\<rparr>"

definition reader_read :: "nat \<Rightarrow> usize \<Rightarrow> nat \<Rightarrow> reader \<Rightarrow> u8 \<times> reader" where
  "reader_read k addr i r =
     (if cut r \<le> i then (0, r)
      else if page_off k i < length (contents r) then (file_byte (contents r) i, r)
      else (0, reader_fault k addr i r))"

datatype reader_event = SetLen nat | ReadAt nat u8 | Others

text \<open>
  Other threads can only make the map fault elsewhere, by their own reads, also by ones that had
  faulted before the page was replaced.
\<close>

inductive reader_step :: "nat \<Rightarrow> usize \<Rightarrow> nat \<Rightarrow> reader_event \<Rightarrow> reader \<Rightarrow> reader \<Rightarrow> bool" for k addr len where
  reader_set_len: "reader_step k addr len (SetLen l) r (r\<lparr>contents := set_len l (contents r)\<rparr>)"
| reader_read: "i < len \<Longrightarrow> reader_read k addr i r = (v, r') \<Longrightarrow> reader_step k addr len (ReadAt i v) r r'"
| reader_idle: "reader_step k addr len Others r r"
| reader_other: "i < len \<Longrightarrow> reader_step k addr len Others r (reader_fault k addr i r)"

section \<open>The process\<close>

text \<open>
  The file is truncated or extended, a thread reads a byte of the map \<open>m\<close> of the guard \<open>g\<close>, or any thread
  registers a map, drops another guard or handles a fault, in this map or in another one.
\<close>

inductive map_step ::
    "nat \<Rightarrow> os \<Rightarrow> bool \<Rightarrow> setup_results \<Rightarrow> load \<Rightarrow> nat \<Rightarrow> mapping \<Rightarrow> guard \<Rightarrow> reader_event \<Rightarrow>
     u8 list \<times> session \<Rightarrow> u8 list \<times> session \<Rightarrow> bool"
  for k os dbg sr load n m g where
  map_set_len: "map_step k os dbg sr load n m g (SetLen l) (f, s) (set_len l f, s)"
| map_read: "i < unat (m_len m) \<Longrightarrow>
    load_byte os dbg t load f n (m_start m + of_nat i) (process s) = Some (Ret v, w) \<Longrightarrow>
    map_step k os dbg sr load n m g (ReadAt i v) (f, s) (f, s\<lparr>process := w\<rparr>)"
| map_others: "use_step k os dbg sr s s' \<Longrightarrow> g \<in> set (guards s') \<Longrightarrow>
    map_step k os dbg sr load n m g Others (f, s) (f, s')"

text \<open>Runs of a labelled relation.\<close>

inductive labelled_run :: "('e \<Rightarrow> 's \<Rightarrow> 's \<Rightarrow> bool) \<Rightarrow> 'e list \<Rightarrow> 's \<Rightarrow> 's \<Rightarrow> bool" for step where
  run_nil: "labelled_run step [] s s"
| run_cons: "step e s s1 \<Longrightarrow> labelled_run step es s1 s2 \<Longrightarrow> labelled_run step (e # es) s s2"

inductive_simps labelled_run_simps: "labelled_run step [] s s'" "labelled_run step (e # es) s s'"

section \<open>Addresses and offsets\<close>

lemma page_off_le: "page_off k i \<le> i" "i < page_off k i + 2 ^ k" "2 ^ k dvd page_off k i"
  using dividend_less_div_times [of "2 ^ k" i] by (simp_all add: page_off_def add.commute)

lemma page_off_le_iff: "page_off k j \<le> page_off k i \<longleftrightarrow> page_off k j \<le> i"
proof
  assume "page_off k j \<le> i"
  then have "page_off k j div 2 ^ k \<le> i div 2 ^ k" by (rule div_le_mono)
  then show "page_off k j \<le> page_off k i" by (simp add: page_off_def)
next
  assume "page_off k j \<le> page_off k i"
  with page_off_le(1) [of k i] show "page_off k j \<le> i" by (rule order.trans [rotated])
qed

text \<open>The address at an offset of a legal map, and its page.\<close>

lemma offset_addr:
  assumes "legal_map k addr len" and "i < unat len"
  shows "unat (addr + of_nat i) = unat addr + i" and "in_region addr len (addr + of_nat i)"
    and "unat (page_start k (addr + of_nat i)) = unat addr + page_off k i"
proof -
  have bound: "unat addr + unat len < 2 ^ 64" using assms(1) by (simp add: legal_map_def region_ok_def)
  show sum: "unat (addr + of_nat i) = unat addr + i"
    using assms(2) bound by (simp add: unat_word_ariths unat_of_nat)
  then show "in_region addr len (addr + of_nat i)"
    using assms(2) by (simp add: in_region_def)
  obtain c where "unat addr = 2 ^ k * c"
    using assms(1) by (auto simp: legal_map_def)
  then show "unat (page_start k (addr + of_nat i)) = unat addr + page_off k i"
    by (simp add: unat_page_start sum page_off_def add_mult_distrib)
qed

lemma addr_offset:
  assumes "in_region addr len a"
  obtains i where "i < unat len" and "a = addr + of_nat i"
proof
  show "unat a - unat addr < unat len" using assms by (auto simp: in_region_def)
  show "a = addr + of_nat (unat a - unat addr)"
    using assms by (simp add: in_region_def)
qed

section \<open>The refinement relation\<close>

definition report_ok :: "nat \<Rightarrow> state \<Rightarrow> usize option \<Rightarrow> bool" where
  "report_ok k st rep \<longleftrightarrow>
     (err st \<longleftrightarrow> rep \<noteq> None) \<and> (\<forall>a. rep = Some a \<longrightarrow> err_addr st = a \<and> fix_addr st = page_start k a)"

definition reads_as :: "nat \<Rightarrow> nat \<Rightarrow> mapping \<Rightarrow> guard \<Rightarrow> session \<Rightarrow> reader \<Rightarrow> bool" where
  "reads_as k n m g s r \<longleftrightarrow>
     session_ok k s \<and> g \<in> set (guards s) \<and> guard_addr g = m_start m \<and>
     registry (process s) (m_start m) = Some m \<and> n \<le> length (remaps (process s)) \<and>
     (\<forall>i < unat (m_len m). covers k (since n (process s)) (m_start m + of_nat i) \<longleftrightarrow> cut r \<le> i) \<and>
     report_ok k (states (process s) ! m_state m) (last_fault r)"

lemma reads_asD:
  assumes "reads_as k n m g s r"
  shows "session_ok k s" and "registry (process s) (m_start m) = Some m" and "n \<le> length (remaps (process s))"
    and "legal_map k (m_start m) (m_len m)" and "(m_start m, m_len m, mmap_prot m) \<in> set (mapped s)"
    and "guard_state g = m_state m" and "m_state m < length (states (process s))"
    and "world_ok (process s)" and "handler_ready (process s)"
proof -
  show s: "session_ok k s" and m: "registry (process s) (m_start m) = Some m"
    and "n \<le> length (remaps (process s))"
    using assms by (simp_all add: reads_as_def)
  then show "legal_map k (m_start m) (m_len m)" and "(m_start m, m_len m, mmap_prot m) \<in> set (mapped s)"
    unfolding session_ok_def maps_ok_def by blast+
  show "guard_state g = m_state m"
    using assms m by (auto simp: reads_as_def session_ok_def guards_ok_def guard_ok_def)
  show ok: "world_ok (process s)" using s by (simp add: session_ok_def)
  then show "m_state m < length (states (process s))"
    using m unfolding world_ok_def own_states_def by blast
  have "static_root (process s) \<noteq> None"
    using m by (cases "static_root (process s)") (simp_all add: registry_def current_root_def root_new_def)
  with ok s show "handler_ready (process s)"
    by (intro world_ok_ready) (simp_all add: session_ok_def)
qed

lemma reads_asI:
  assumes "reads_as k n m g s r" and "session_ok k s'" and "g \<in> set (guards s')"
    and "registry (process s') (m_start m) = Some m" and "n \<le> length (remaps (process s'))"
    and "\<And>i. i < unat (m_len m) \<Longrightarrow> covers k (since n (process s')) (m_start m + of_nat i) \<longleftrightarrow> cut r' \<le> i"
    and "report_ok k (states (process s') ! m_state m) (last_fault r')"
  shows "reads_as k n m g s' r'"
  using assms by (simp add: reads_as_def)

lemma reads_as_contents [simp]: "reads_as k n m g s (r\<lparr>contents := f\<rparr>) = reads_as k n m g s r"
  by (simp add: reads_as_def)

text \<open>A change of the world that leaves the replacements and the state of the map as they are.\<close>

lemma reads_as_unchanged:
  assumes "reads_as k n m g s r" and "session_ok k s'" and "g \<in> set (guards s')"
    and "registry (process s') (m_start m) = Some m" and "remaps (process s') = remaps (process s)"
    and "states (process s') ! m_state m = states (process s) ! m_state m"
  shows "reads_as k n m g s' r"
  using assms by (simp add: reads_as_def since_def)

section \<open>Faults\<close>

lemma covers_repaired:
  assumes "n \<le> length (remaps w)"
  shows "covers k (since n (repaired k info m l w)) a \<longleftrightarrow>
    in_region (page_start k (si_addr info)) l (page_start k a) \<or> covers k (since n w) a"
  using assms by (simp add: since_def repaired_def covers_def Suc_diff_le)

lemma repaired_region:
  assumes legal: "legal_map k addr len" and i: "i < unat len" "j < unat len"
    and stop: "unat (page_start k (addr + of_nat j)) + unat l = unat addr + unat len"
  shows "in_region (page_start k (addr + of_nat j)) l (page_start k (addr + of_nat i)) \<longleftrightarrow> page_off k j \<le> i"
proof -
  have "page_off k i < unat len" using page_off_le(1) [of k i] i(1) by simp
  then show ?thesis
    using stop page_off_le_iff [of k j i]
    by (simp add: in_region_def offset_addr(3) [OF legal i(1)] offset_addr(3) [OF legal i(2)])
qed

lemma repaired_own:
  assumes r: "reads_as k n m g s r" and j: "j < unat (m_len m)" "si_addr info = m_start m + of_nat j"
    and le: "unat (m_start m) \<le> unat (page_start k (si_addr info))"
    and stop: "unat (page_start k (si_addr info)) + unat l = unat (m_start m) + unat (m_len m)"
  shows "reads_as k n m g (s\<lparr>process := repaired k info m l (process s)\<rparr>) (reader_fault k (m_start m) j r)"
proof (rule reads_asI [OF r])
  note d = reads_asD [OF r]
  show "session_ok k (s\<lparr>process := repaired k info m l (process s)\<rparr>)"
    by (rule repaired_session_ok [OF d(1,5) le stop])
  show "covers k (since n (process (s\<lparr>process := repaired k info m l (process s)\<rparr>))) (m_start m + of_nat i) \<longleftrightarrow>
      cut (reader_fault k (m_start m) j r) \<le> i" if "i < unat (m_len m)" for i
    using that r repaired_region [OF d(4) that j(1)] stop j(2)
    by (auto simp: covers_repaired [OF d(3)] reader_fault_def reads_as_def)
  show "report_ok k (states (process (s\<lparr>process := repaired k info m l (process s)\<rparr>)) ! m_state m)
      (last_fault (reader_fault k (m_start m) j r))"
    using d(7) j(2) by (simp add: repaired_def report_ok_def reader_fault_def)
qed (use r in \<open>simp_all add: reads_as_def, simp add: repaired_def\<close>)

text \<open>A fault in another map.\<close>

lemma repaired_other:
  assumes r: "reads_as k n m g s r" and m': "registry (process s) (m_start m') = Some m'" "m' \<noteq> m"
    and le: "unat (m_start m') \<le> unat (page_start k (si_addr info))"
    and stop: "unat (page_start k (si_addr info)) + unat l = unat (m_start m') + unat (m_len m')"
  shows "reads_as k n m g (s\<lparr>process := repaired k info m' l (process s)\<rparr>) r"
proof (rule reads_asI [OF r])
  note d = reads_asD [OF r]
  have reg: "(m_start m', m_len m', mmap_prot m') \<in> set (mapped s)"
    using d(1) m'(1) unfolding session_ok_def maps_ok_def by blast
  show "session_ok k (s\<lparr>process := repaired k info m' l (process s)\<rparr>)"
    by (rule repaired_session_ok [OF d(1) reg le stop])
  have ne: "m_start m' \<noteq> m_start m" using m' d(2) by auto
  have own: "own_states (registry (process s)) (length (states (process s)))"
    and regs: "regions_ok (registry (process s))"
    using world_ok_parts [OF d(8)] by simp_all
  have state: "m_state m' \<noteq> m_state m" using own d(2) m'(1) ne unfolding own_states_def by blast
  have disj: "\<not> overlapping (m_start m) (m_len m) (m_start m') (m_len m')"
    using regions_ok_disjoint [OF regs d(2) m'(1)] ne by auto
  show "covers k (since n (process (s\<lparr>process := repaired k info m' l (process s)\<rparr>))) (m_start m + of_nat i) \<longleftrightarrow>
      cut r \<le> i" if "i < unat (m_len m)" for i
  proof -
    have "\<not> in_region (page_start k (si_addr info)) l (page_start k (m_start m + of_nat i))"
      using disj le stop page_off_le(1) [of k i] that
      by (auto simp: in_region_def overlapping_def offset_addr(3) [OF d(4) that])
    with that r show ?thesis by (simp add: covers_repaired [OF d(3)] reads_as_def)
  qed
  show "report_ok k (states (process (s\<lparr>process := repaired k info m' l (process s)\<rparr>)) ! m_state m) (last_fault r)"
    using r state by (simp add: repaired_def reads_as_def)
qed (use r in \<open>simp_all add: reads_as_def, simp add: repaired_def\<close>)

text \<open>A fault that was handled is one in a registered map.\<close>

lemma handled_repaired:
  assumes s: "session_ok k s" and os: "os_ok k os" and run: "handle_sigbus os dbg t info (process s) = (Ret u, w)"
  obtains m l where "registry (process s) (m_start m) = Some m" "in_region (m_start m) (m_len m) (si_addr info)"
    "w = repaired k info m l (process s)" "unat (m_start m) \<le> unat (page_start k (si_addr info))"
    "unat (page_start k (si_addr info)) + unat l = unat (m_start m) + unat (m_len m)"
proof -
  have "static_root (process s) \<noteq> None"
    using run handle_sigbus_foreign [of os info "process s" dbg t] by (cases "static_root (process s)") simp_all
  then have ready: "handler_ready (process s)"
    using s by (intro world_ok_ready) (simp_all add: session_ok_def)
  obtain m where sig: "bus_signal os info" and m: "registry (process s) (m_start m) = Some m"
    "in_region (m_start m) (m_len m) (si_addr info)"
    using handle_sigbus_returns [OF ready run] by blast
  have legal: "legal_map k (m_start m) (m_len m)"
    using s m(1) unfolding session_ok_def maps_ok_def by blast
  show thesis
    by (rule handle_sigbus_registered [OF os sig ready m, of dbg t])
      (use legal run m that in \<open>auto simp: legal_map_def split: if_splits\<close>)
qed

lemma fault_reads_as:
  assumes r: "reads_as k n m g s r" and os: "os_ok k os"
    and run: "handle_sigbus os dbg t info (process s) = (Ret u, w)"
  shows "reads_as k n m g (s\<lparr>process := w\<rparr>) r \<or>
    (\<exists>j < unat (m_len m). reads_as k n m g (s\<lparr>process := w\<rparr>) (reader_fault k (m_start m) j r))"
proof (rule handled_repaired [OF reads_asD(1) [OF r] os run])
  fix m' l
  assume m': "registry (process s) (m_start m') = Some m'" "in_region (m_start m') (m_len m') (si_addr info)"
    and w: "w = repaired k info m' l (process s)"
    and reg: "unat (m_start m') \<le> unat (page_start k (si_addr info))"
      "unat (page_start k (si_addr info)) + unat l = unat (m_start m') + unat (m_len m')"
  show ?thesis
  proof (cases "m' = m")
    case True
    obtain j where "j < unat (m_len m)" "si_addr info = m_start m + of_nat j"
      using addr_offset m'(2) True by blast
    with repaired_own [OF r this] reg w True show ?thesis by blast
  next
    case False
    with repaired_other [OF r m'(1) _ reg] w show ?thesis by simp
  qed
qed

section \<open>Loads\<close>

text \<open>A load returns after at most one run of the handler, with the value of the abstract reader.\<close>

lemma load_byte_value:
  assumes r: "reads_as k n m g s r" and os: "os_ok k os" and mem: "file_mapped k os (m_start m) (m_len m) load"
    and mmap: "\<And>a l. mmap_call os a l (mmap_prot m) \<noteq> None" and i: "i < unat (m_len m)"
    and read: "reader_read k (m_start m) i r = (v, r')"
  obtains w where "load_byte os dbg t load (contents r) n (m_start m + of_nat i) (process s) = Some (Ret v, w)"
    and "reads_as k n m g (s\<lparr>process := w\<rparr>) r'"
proof -
  let ?a = "m_start m + of_nat i"
  note d = reads_asD [OF r]
  have cov: "covers k (since n (process s)) ?a \<longleftrightarrow> cut r \<le> i" using r i by (simp add: reads_as_def)
  note load = mem [unfolded file_mapped_def, rule_format, OF i, of "since n (process s)" "contents r"]
  show thesis
  proof (cases "cut r \<le> i \<or> page_off k i < length (contents r)")
    case True
    with cov load read have "load (contents r) (since n (process s)) ?a = Inr v" and "r' = r"
      by (auto simp: reader_read_def split: if_splits)
    then show thesis
      using r by (intro that [of "process s"]) (simp_all add: load_byte.simps)
  next
    case False
    with cov load obtain info where info: "load (contents r) (since n (process s)) ?a = Inl info"
        "bus_signal os info" "si_addr info = ?a" by auto
    from False read have r': "r' = reader_fault k (m_start m) i r" and v: "v = 0"
      by (auto simp: reader_read_def)
    have region: "in_region (m_start m) (m_len m) (si_addr info)"
      using offset_addr(2) [OF d(4) i] info(3) by simp
    from d(4) have aligned: "2 ^ k dvd unat (m_start m)" and pos: "0 < m_start m"
      by (simp_all add: legal_map_def)
    show thesis
    proof (rule handle_sigbus_repairs [OF os info(2) d(9,2) region aligned pos mmap, of dbg t])
      fix l
      let ?w = "repaired k info m l (process s)"
      assume run: "handle_sigbus os dbg t info (process s) = (Ret (), ?w)"
        and le: "unat (m_start m) \<le> unat (page_start k (si_addr info))"
        and stop: "unat (page_start k (si_addr info)) + unat l = unat (m_start m) + unat (m_len m)"
      have ok: "reads_as k n m g (s\<lparr>process := ?w\<rparr>) r'"
        unfolding r' by (rule repaired_own [OF r i info(3) le stop])
      then have "covers k (since n ?w) ?a" using i page_off_le(1) [of k i]
        by (simp add: reads_as_def r' reader_fault_def)
      with mem i have "load (contents r) (since n ?w) ?a = Inr 0" by (simp add: file_mapped_def)
      then have "load_byte os dbg t load (contents r) n ?a ?w = Some (Ret v, ?w)"
        by (simp add: load_byte.simps v)
      then have "load_byte os dbg t load (contents r) n ?a (process s) = Some (Ret v, ?w)"
        by (subst load_byte.simps) (simp add: info(1) run)
      then show thesis
        using ok by (rule that)
    qed
  qed
qed

section \<open>The refinement\<close>

lemma read_contents:
  assumes "reader_read k addr i r = (v, r')"
  shows "contents r' = contents r"
  using assms by (auto simp: reader_read_def reader_fault_def split: if_splits)

text \<open>What the other operations on the registry leave as it is.\<close>

lemma others_reads_as:
  assumes r: "reads_as k n m g s r" and os: "os_ok k os" and sr: "setup_fine sr"
    and step: "use_step k os dbg sr s s'" and g: "g \<in> set (guards s')"
  shows "\<exists>r'. reader_step k (m_start m) (unat (m_len m)) Others r r' \<and> contents r' = contents r \<and>
    reads_as k n m g s' r'"
proof -
  note d = reads_asD [OF r]
  have idle: ?thesis if "reads_as k n m g s' r" using that reader_idle by blast
  have s': "session_ok k s'" by (rule use_step_ok [OF step d(1) sr os])
  from step show ?thesis
  proof cases
    case (registered addr len t prot h w)
    have region: "region_ok addr len" using registered(2) by (simp add: legal_map_def)
    obtain w1 where avail: "root_available (lock_created sr) (process s)"
      and inst: "install_signal_handler (sigfillset_ok sr) (sigaction_ok sr) (process s) = (Ret (), w1)"
      using register_legal [OF d(1) sr registered(2)] by blast
    show ?thesis
    proof (rule register_cases [OF d(8) avail inst region, of dbg t prot])
      fix h' w'
      assume "register_mmap dbg sr t addr len prot (process s) = (Ret (Inr h'), w')"
        and free: "\<And>j m. registry (process s) j = Some m \<Longrightarrow> \<not> overlapping addr len j (m_len m)"
        and new: "registry w' = (registry (process s))(addr \<mapsto>
            \<lparr>m_start = addr, m_len = len, mmap_prot = prot, m_state = guard_state h'\<rparr>)"
          "states w' = states (process s) @ [state_new]" "remaps w' = remaps (process s)"
      with registered(3) have w: "process s' = w'" by (simp add: registered(1))
      have "addr \<noteq> m_start m"
        using free [OF d(2)] d(4) region by (auto simp: legal_map_def region_ok_def overlapping_def word_less_nat_alt)
      then show ?thesis
        using d(2,7) by (intro idle reads_as_unchanged [OF r s' g]) (simp_all add: w new nth_append)
    qed (use registered(3) in simp)
  next
    case (refused addr len t prot e w)
    have region: "region_ok addr len" using refused(2) by (simp add: legal_map_def)
    obtain w1 where avail: "root_available (lock_created sr) (process s)"
      and inst: "install_signal_handler (sigfillset_ok sr) (sigaction_ok sr) (process s) = (Ret (), w1)"
      using register_legal [OF d(1) sr refused(2)] by blast
    have "registry w = registry (process s)" "states w = states (process s)" "remaps w = remaps (process s)"
      by (rule register_cases [OF d(8) avail inst region, of dbg t prot]; use refused(3) in simp)+
    then show ?thesis
      using d(2) by (intro idle reads_as_unchanged [OF r s' g]) (simp_all add: refused(1))
  next
    case (dropped h t w)
    have ok: "holder (process s) = None" "guard_ok h (process s)"
      and addr: "distinct (map guard_addr (guards s))"
      using d(1) dropped(2) by (simp_all add: session_ok_def guards_ok_def)
    have "h \<noteq> g" using g addr by (auto simp: dropped(1) distinct_map set_remove1_eq)
    moreover have "inj_on guard_addr (set (guards s))" using addr by (simp add: distinct_map)
    ultimately have other: "m_start m \<noteq> guard_addr h"
      using inj_onD [of guard_addr "set (guards s)" h g] dropped(2) r by (auto simp: reads_as_def)
    show ?thesis
    proof (rule guard_drop_run [OF d(8) ok, of "lock_created sr" t])
      fix w'
      assume "guard_drop (lock_created sr) t h (process s) = (Ret (), w')"
        and w': "registry w' = (registry (process s))(guard_addr h := None)" "states w' = states (process s)"
          "remaps w' = remaps (process s)"
      with dropped(3) have w: "process s' = w'" by (simp add: dropped(1))
      show ?thesis
        using d(2) other by (intro idle reads_as_unchanged [OF r s' g]) (simp_all add: w w')
    qed
  next
    case (faulted t info w)
    from fault_reads_as [OF r os faulted(2)] show ?thesis
    proof
      assume "reads_as k n m g (s\<lparr>process := w\<rparr>) r"
      then show ?thesis by (intro idle) (simp add: faulted(1))
    next
      assume "\<exists>j < unat (m_len m). reads_as k n m g (s\<lparr>process := w\<rparr>) (reader_fault k (m_start m) j r)"
      then obtain j where "j < unat (m_len m)" "reads_as k n m g s' (reader_fault k (m_start m) j r)"
        by (auto simp: faulted(1))
      with reader_other [of j "unat (m_len m)" k "m_start m" r] show ?thesis
        by (intro exI [of _ "reader_fault k (m_start m) j r"]) (simp add: reader_fault_def)
    qed
  qed
qed

lemma map_step_refines:
  assumes step: "map_step k os dbg sr load n m g e (f, s) (f', s')"
    and r: "reads_as k n m g s r" and f: "contents r = f"
    and os: "os_ok k os" and sr: "setup_fine sr" and mem: "file_mapped k os (m_start m) (m_len m) load"
    and mmap: "\<And>a l. mmap_call os a l (mmap_prot m) \<noteq> None"
  shows "\<exists>r'. reader_step k (m_start m) (unat (m_len m)) e r r' \<and> contents r' = f' \<and> reads_as k n m g s' r'"
  using step
proof cases
  case (map_set_len l)
  with r f reader_set_len [of k "m_start m" "unat (m_len m)" l r] show ?thesis
    by (intro exI [of _ "r\<lparr>contents := set_len l (contents r)\<rparr>"]) simp
next
  case (map_read i t v w)
  obtain v' r' where read: "reader_read k (m_start m) i r = (v', r')" by fastforce
  obtain w' where "load_byte os dbg t load f n (m_start m + of_nat i) (process s) = Some (Ret v', w')"
    and "reads_as k n m g (s\<lparr>process := w'\<rparr>) r'"
    using load_byte_value [OF r os mem mmap map_read(4) read, of dbg t] f by blast
  with map_read read read_contents [OF read] f reader_step.reader_read [OF map_read(4) read] show ?thesis
    by (intro exI [of _ r']) simp
next
  case map_others
  with others_reads_as [OF r os sr, of dbg s'] f show ?thesis by simp
qed

lemma map_run_refines:
  assumes "labelled_run (map_step k os dbg sr load n m g) es (f, s) (f', s')"
    and "reads_as k n m g s r" and "contents r = f"
    and os: "os_ok k os" and sr: "setup_fine sr" and mem: "file_mapped k os (m_start m) (m_len m) load"
    and mmap: "\<And>a l. mmap_call os a l (mmap_prot m) \<noteq> None"
  shows "\<exists>r'. labelled_run (reader_step k (m_start m) (unat (m_len m))) es r r' \<and> contents r' = f' \<and>
    reads_as k n m g s' r'"
  using assms(1-3)
proof (induction es arbitrary: f s r)
  case Nil
  then show ?case by (auto simp: labelled_run_simps)
next
  case (Cons e es)
  then obtain f1 s1 where step: "map_step k os dbg sr load n m g e (f, s) (f1, s1)"
    and rest: "labelled_run (map_step k os dbg sr load n m g) es (f1, s1) (f', s')"
    by (auto simp: labelled_run_simps)
  obtain r1 where r1: "reader_step k (m_start m) (unat (m_len m)) e r r1" "contents r1 = f1" "reads_as k n m g s1 r1"
    using map_step_refines [OF step Cons.prems(2,3) os sr mem mmap] by blast
  from Cons.IH [OF rest r1(3,2)] r1(1) show ?case unfolding labelled_run_simps by blast
qed

lemma reads_as_start:
  assumes s: "session_ok k s" and g: "g \<in> set (guards s)"
    and m: "registry (process s) (guard_addr g) = Some m" and fine: "\<not> is_err g (process s)"
  shows "reads_as k (length (remaps (process s))) m g s (reader_start f (unat (m_len m)))"
proof -
  have start: "m_start m = guard_addr g"
    using regions_ok_at [OF world_ok_parts(5) m] s by (simp add: session_ok_def)
  have "guard_state g = m_state m"
    using s g m by (auto simp: session_ok_def guards_ok_def guard_ok_def)
  with assms start show ?thesis
    by (simp add: reads_as_def reader_start_def since_def covers_def report_ok_def is_err_def)
qed

text \<open>The abstract reader reports an error exactly when a part of the map has been cut off.\<close>

lemma reader_inv:
  assumes "labelled_run (reader_step k addr len) es r r'" and "cut r \<le> len" and "last_fault r \<noteq> None \<longleftrightarrow> cut r < len"
  shows "cut r' \<le> cut r \<and> (last_fault r' \<noteq> None \<longleftrightarrow> cut r' < len)"
  using assms
proof (induction es arbitrary: r)
  case (Cons e es)
  then obtain r1 where step: "reader_step k addr len e r r1" and rest: "labelled_run (reader_step k addr len) es r1 r'"
    by (auto simp: labelled_run_simps)
  from step Cons.prems(2,3) have "cut r1 \<le> cut r \<and> (last_fault r1 \<noteq> None \<longleftrightarrow> cut r1 < len)"
  proof cases
    case (reader_read i v)
    then show ?thesis
      using Cons.prems(2,3) page_off_le(1) [of k i]
      by (auto simp: reader_read_def reader_fault_def split: if_splits)
  next
    case (reader_other i)
    then show ?thesis using page_off_le(1) [of k i] by (auto simp: reader_fault_def)
  qed auto
  with Cons.IH [OF rest] Cons.prems(2) show ?case by force
qed (auto simp: labelled_run_simps)

text \<open>A process with a map that has not faulted yet behaves as the abstract reader.\<close>

lemma map_reads:
  assumes s: "session_ok k s" and os: "os_ok k os" and sr: "setup_fine sr"
    and g: "g \<in> set (guards s)" and m: "registry (process s) (guard_addr g) = Some m"
    and fine: "\<not> is_err g (process s)" and mem: "file_mapped k os (m_start m) (m_len m) load"
    and mmap: "\<And>a l. mmap_call os a l (mmap_prot m) \<noteq> None"
    and run: "labelled_run (map_step k os dbg sr load n m g) es (f, s) (f', s')"
    and n: "n = length (remaps (process s))"
  obtains r where "labelled_run (reader_step k (m_start m) (unat (m_len m))) es (reader_start f (unat (m_len m))) r"
    and "is_err g (process s') \<longleftrightarrow> cut r < unat (m_len m)"
    and "is_err g (process s') \<Longrightarrow> last_fault r = Some (guard_err_addr g (process s')) \<and>
      guard_fix_addr g (process s') = page_start k (guard_err_addr g (process s'))"
    and "\<And>t i. i < unat (m_len m) \<Longrightarrow>
      \<exists>v w. load_byte os dbg t load f' n (m_start m + of_nat i) (process s') = Some (Ret v, w)"
proof -
  let ?r = "reader_start f (unat (m_len m))"
  have start: "reads_as k n m g s ?r" unfolding n by (rule reads_as_start [OF s g m fine])
  have "contents ?r = f" by (simp add: reader_start_def)
  from map_run_refines [OF run start this os sr mem mmap] obtain r
    where r: "labelled_run (reader_step k (m_start m) (unat (m_len m))) es ?r r" "contents r = f'"
      and end_ok: "reads_as k n m g s' r" by blast
  have "last_fault r \<noteq> None \<longleftrightarrow> cut r < unat (m_len m)"
    using reader_inv [OF r(1)] by (simp add: reader_start_def)
  moreover have "report_ok k (states (process s') ! guard_state g) (last_fault r)"
    using end_ok reads_asD(6) [OF end_ok] by (simp add: reads_as_def)
  moreover have "\<exists>v w. load_byte os dbg t load f' n (m_start m + of_nat i) (process s') = Some (Ret v, w)"
    if i: "i < unat (m_len m)" for t i
    by (rule load_byte_value [OF end_ok os mem mmap i surjective_pairing, of dbg t]) (auto simp: r(2))
  ultimately show thesis
    using that [OF r(1)] by (auto simp: report_ok_def is_err_def guard_err_addr_def guard_fix_addr_def)
qed

end
