(* ===== verification/Mapped_Tests.thy ===== *)
theory Mapped_Tests
  imports Mapped_Reads
begin

text \<open>
  The tests of \<open>mmapcatch\<close> (\<open>mod tests\<close> in \<open>mmapcatch/src/lib.rs\<close>): a map of a file full of ones is
  registered, the file is truncated, and the bytes of the map are summed up. They pass in every process
  that uses \<open>mmapcatch\<close> as documented, when a page has 4096 bytes.
\<close>

section \<open>Building blocks\<close>

text \<open>
  The results of the system calls of the tests: \<open>memfd_create\<close>, \<open>write_all\<close>, \<open>mmap\<close> (None is
  \<open>MAP_FAILED\<close>), \<open>set_len\<close> and \<open>munmap\<close>; the value of \<open>PROT_READ\<close> and the loads from the map.
\<close>

record test_env =
  memfd :: int
  write_ok :: bool
  mapped_at :: "usize option"
  set_len_ok :: bool
  munmap_res :: int
  PROT_READ :: int
  loads :: load

text \<open>\<open>tm_before\<close> is the number of replacements before the map was made.\<close>

record test_mmap =
  tm_file :: "u8 list"
  tm_addr :: usize
  tm_len :: usize
  tm_prot :: int
  tm_before :: nat

fun and_then_do ::
    "('a outcome \<times> world) option \<Rightarrow> ('a \<Rightarrow> world \<Rightarrow> ('b outcome \<times> world) option) \<Rightarrow> ('b outcome \<times> world) option" where
  "and_then_do None k = None"
| "and_then_do (Some (Ret a, w)) k = k a w"
| "and_then_do (Some (Panic p, w)) k = Some (Panic p, w)"
| "and_then_do (Some (Abort a, w)) k = Some (Abort a, w)"
| "and_then_do (Some (Blocked, w)) k = Some (Blocked, w)"

definition assert_that :: "bool \<Rightarrow> world \<Rightarrow> (unit outcome \<times> world) option" where
  "assert_that b w = Some (if b then Ret () else Panic AssertFailed, w)"

definition create_test_mmap :: "test_env \<Rightarrow> usize \<Rightarrow> int \<Rightarrow> world \<Rightarrow> (test_mmap outcome \<times> world) option" where
  "create_test_mmap env len prot w =
     Some (if memfd env = - 1 then Panic ExplicitPanic
       else if \<not> write_ok env then Panic UnwrapFailed
       else
         (case mapped_at env of
            None \<Rightarrow> Panic ExplicitPanic
          | Some addr \<Rightarrow>
              Ret \<lparr>tm_file = replicate (unat len) 1, tm_addr = addr, tm_len = len, tm_prot = prot,
                   tm_before = length (remaps w)\<rparr>), w)"

text \<open>\<open>file.set_len(n).unwrap()\<close>\<close>

definition file_set_len :: "test_env \<Rightarrow> nat \<Rightarrow> test_mmap \<Rightarrow> world \<Rightarrow> (test_mmap outcome \<times> world) option" where
  "file_set_len env n t1 w =
     Some (if set_len_ok env then Ret (t1\<lparr>tm_file := set_len n (tm_file t1)\<rparr>) else Panic UnwrapFailed, w)"

text \<open>\<open>register_mmap(t1.addr as usize, t1.len, t1.prot).unwrap()\<close>\<close>

definition register_test_mmap ::
    "bool \<Rightarrow> setup_results \<Rightarrow> tid \<Rightarrow> test_mmap \<Rightarrow> world \<Rightarrow> (guard outcome \<times> world) option" where
  "register_test_mmap dbg sr t t1 w =
     and_then_do (Some (register_mmap dbg sr t (tm_addr t1) (tm_len t1) (tm_prot t1) w)) (\<lambda>res w1.
       Some (case res of Inl e \<Rightarrow> Panic UnwrapFailed | Inr g \<Rightarrow> Ret g, w1))"

text \<open>\<open>for v in t1.slice() { sum += v.load(..) as u64 }\<close>, over the offsets in the slice.\<close>

fun sum_bytes ::
    "os \<Rightarrow> bool \<Rightarrow> tid \<Rightarrow> test_env \<Rightarrow> test_mmap \<Rightarrow> nat list \<Rightarrow> usize \<Rightarrow> world \<Rightarrow> (usize outcome \<times> world) option" where
  "sum_bytes os dbg t env t1 [] acc w = Some (Ret acc, w)"
| "sum_bytes os dbg t env t1 (i # is) acc w =
     and_then_do (load_byte os dbg t (loads env) (tm_file t1) (tm_before t1) (tm_addr t1 + of_nat i) w) (\<lambda>v w1.
       (case usize_add dbg acc (ucast v) of
          Inl p \<Rightarrow> Some (Panic p, w1)
        | Inr acc' \<Rightarrow> sum_bytes os dbg t env t1 is acc' w1))"

definition sum_slice :: "os \<Rightarrow> bool \<Rightarrow> tid \<Rightarrow> test_env \<Rightarrow> test_mmap \<Rightarrow> world \<Rightarrow> (usize outcome \<times> world) option" where
  "sum_slice os dbg t env t1 w = sum_bytes os dbg t env t1 [0..<unat (tm_len t1)] 0 w"

text \<open>At the end of a test the guard is dropped, and then the map, which is \<open>munmap\<close>.\<close>

definition test_mmap_drop :: "test_env \<Rightarrow> world \<Rightarrow> (unit outcome \<times> world) option" where
  "test_mmap_drop env w = Some (if munmap_res env = - 1 then Panic ExplicitPanic else Ret (), w)"

definition end_of_test :: "setup_results \<Rightarrow> tid \<Rightarrow> test_env \<Rightarrow> guard \<Rightarrow> world \<Rightarrow> (unit outcome \<times> world) option" where
  "end_of_test sr t env g w =
     and_then_do (Some (guard_drop (lock_created sr) t g w)) (\<lambda>u w1. test_mmap_drop env w1)"

section \<open>The tests\<close>

definition partial_truncate ::
    "os \<Rightarrow> bool \<Rightarrow> setup_results \<Rightarrow> tid \<Rightarrow> test_env \<Rightarrow> world \<Rightarrow> (unit outcome \<times> world) option" where
  "partial_truncate os dbg sr t env w =
     and_then_do (create_test_mmap env (2 * 4096) (PROT_READ env) w) (\<lambda>t1 w.
     and_then_do (register_test_mmap dbg sr t t1 w) (\<lambda>guard w.
     and_then_do (file_set_len env 4096 t1 w) (\<lambda>t1 w.
     and_then_do (assert_that (\<not> is_err guard w) w) (\<lambda>u w.
     and_then_do (sum_slice os dbg t env t1 w) (\<lambda>sum w.
     and_then_do (assert_that (4096 = sum) w) (\<lambda>u w.
     and_then_do (assert_that (is_err guard w) w) (\<lambda>u w.
     and_then_do (assert_that (guard_err_addr guard w = tm_addr t1 + 4096) w) (\<lambda>u w.
       end_of_test sr t env guard w))))))))"

fun progressive_rounds ::
    "os \<Rightarrow> bool \<Rightarrow> tid \<Rightarrow> test_env \<Rightarrow> guard \<Rightarrow> nat list \<Rightarrow> test_mmap \<Rightarrow> world \<Rightarrow> (unit outcome \<times> world) option" where
  "progressive_rounds os dbg t env guard [] t1 w = Some (Ret (), w)"
| "progressive_rounds os dbg t env guard (len # lengths) t1 w =
     and_then_do (file_set_len env len t1 w) (\<lambda>t1 w.
     and_then_do (sum_slice os dbg t env t1 w) (\<lambda>sum w.
     and_then_do (assert_that (of_nat len = sum) w) (\<lambda>u w.
     and_then_do (assert_that (is_err guard w) w) (\<lambda>u w.
       progressive_rounds os dbg t env guard lengths t1 w))))"

definition progressive_truncates ::
    "os \<Rightarrow> bool \<Rightarrow> setup_results \<Rightarrow> tid \<Rightarrow> test_env \<Rightarrow> world \<Rightarrow> (unit outcome \<times> world) option" where
  "progressive_truncates os dbg sr t env w =
     and_then_do (create_test_mmap env (3 * 4096) (PROT_READ env) w) (\<lambda>t1 w.
     and_then_do (register_test_mmap dbg sr t t1 w) (\<lambda>guard w.
     and_then_do (progressive_rounds os dbg t env guard [2 * 4096, 4096, 0] t1 w) (\<lambda>u w.
       end_of_test sr t env guard w)))"

definition full_truncate ::
    "os \<Rightarrow> bool \<Rightarrow> setup_results \<Rightarrow> tid \<Rightarrow> test_env \<Rightarrow> world \<Rightarrow> (unit outcome \<times> world) option" where
  "full_truncate os dbg sr t env w =
     and_then_do (create_test_mmap env (2 * 4096) (PROT_READ env) w) (\<lambda>t1 w.
     and_then_do (register_test_mmap dbg sr t t1 w) (\<lambda>guard w.
     and_then_do (file_set_len env 0 t1 w) (\<lambda>t1 w.
     and_then_do (assert_that (\<not> is_err guard w) w) (\<lambda>u w.
     and_then_do (sum_slice os dbg t env t1 w) (\<lambda>sum w.
     and_then_do (assert_that (0 = sum) w) (\<lambda>u w.
     and_then_do (assert_that (is_err guard w) w) (\<lambda>u w.
       end_of_test sr t env guard w)))))))"

section \<open>Reading a truncated file of ones\<close>

text \<open>The bytes that the abstract reader sees one after the other.\<close>

fun reader_reads :: "nat \<Rightarrow> usize \<Rightarrow> nat list \<Rightarrow> reader \<Rightarrow> u8 list \<times> reader" where
  "reader_reads k addr [] r = ([], r)"
| "reader_reads k addr (i # is) r =
     (let (v, r1) = reader_read k addr i r; (vs, r2) = reader_reads k addr is r1 in (v # vs, r2))"

lemma reader_reads_append:
  "reader_reads k addr (is @ js) r =
     (let (vs, r1) = reader_reads k addr is r; (us, r2) = reader_reads k addr js r1 in (vs @ us, r2))"
  by (induction "is" arbitrary: r) (simp_all add: Let_def split: prod.split)

text \<open>Reads that do not fault.\<close>

lemma reader_reads_quiet:
  assumes "\<And>i. i \<in> set is \<Longrightarrow> reader_read k addr i r = (f i, r)"
  shows "reader_reads k addr is r = (map f is, r)"
  using assms by (induction "is") simp_all

lemma reader_reads_ones:
  assumes ones: "contents r = replicate l 1" and page: "2 ^ k dvd l" and l: "l \<le> cut r" "cut r \<le> len"
  shows "reader_reads k addr [0..<len] r =
    (replicate l 1 @ replicate (len - l) 0, if l < cut r then reader_fault k addr l r else r)"
proof -
  have zeros: "reader_reads k addr [j..<len] r1 = (replicate (len - j) 0, r1)" if "cut r1 \<le> j" for j r1
    using that reader_reads_quiet [of "[j..<len]" k addr r1 "\<lambda>_. 0"]
    by (simp add: reader_read_def map_replicate_const)
  have "reader_read k addr i r = (1, r)" if "i < l" for i
    using that ones l page_off_le(1) [of k i] by (simp add: reader_read_def file_byte_def)
  then have first: "reader_reads k addr [0..<l] r = (replicate l 1, r)"
    using reader_reads_quiet [of "[0..<l]" k addr r "\<lambda>_. 1"] by (simp add: map_replicate_const)
  have "[0..<len] = [0..<l] @ [l..<len]"
    using l upt_add_eq_append [of 0 l "len - l"] by simp
  then have split: "reader_reads k addr [0..<len] r =
      (let (us, r2) = reader_reads k addr [l..<len] r in (replicate l 1 @ us, r2))"
    by (simp add: reader_reads_append first)
  show ?thesis
  proof (cases "l < cut r")
    case False
    with l zeros [of r l] show ?thesis by (simp add: split)
  next
    case True
    then have rest: "[l..<len] = l # [Suc l..<len]" "replicate (len - l) (0 :: u8) = 0 # replicate (len - Suc l) 0"
      using l by (simp_all add: upt_conv_Cons Suc_diff_Suc flip: replicate_Suc)
    have off: "page_off k l = l" using page by (simp add: page_off_def)
    have "reader_read k addr l r = (0, reader_fault k addr l r)"
      using True ones off by (simp add: reader_read_def)
    moreover have "cut (reader_fault k addr l r) \<le> Suc l" using off by (simp add: reader_fault_def)
    ultimately show ?thesis
      using True zeros [of "reader_fault k addr l r" "Suc l"] by (simp add: split rest)
  qed
qed

lemma unat_of_u8: "unat (ucast (v :: u8) :: usize) = unat v"
proof -
  have "unat v < 2 ^ LENGTH(8)" by (rule unsigned_less)
  then have "unat v < 2 ^ 64" by simp
  then show ?thesis by (simp add: unsigned_ucast_eq take_bit_nat_eq_self)
qed

text \<open>The sum over a slice is the sum of what the abstract reader sees.\<close>

lemma sum_bytes_reads:
  assumes os: "os_ok k os" and mem: "file_mapped k os (m_start m) (m_len m) (loads env)"
    and mmap: "\<And>a l. mmap_call os a l (mmap_prot m) \<noteq> None"
    and t1: "tm_addr t1 = m_start m" "tm_before t1 = n"
    and "reads_as k n m g s r" and "contents r = tm_file t1" and "set is \<subseteq> {..<unat (m_len m)}"
    and "reader_reads k (m_start m) is r = (vs, r')" and "unat acc + sum_list (map unat vs) < 2 ^ 64"
  obtains w where
    "sum_bytes os dbg t env t1 is acc (process s) = Some (Ret (acc + of_nat (sum_list (map unat vs))), w)"
    and "reads_as k n m g (s\<lparr>process := w\<rparr>) r'"
  using assms(6-)
proof (induction "is" arbitrary: s r vs acc thesis)
  case Nil
  then show ?case by simp
next
  case (Cons i "is")
  obtain v r1 where read: "reader_read k (m_start m) i r = (v, r1)" by fastforce
  obtain us where us: "reader_reads k (m_start m) is r1 = (us, r')" "vs = v # us"
    using Cons.prems(5) by (auto simp: read split: prod.splits)
  have i: "i < unat (m_len m)" using Cons.prems(4) by simp
  obtain w1 where w1: "load_byte os dbg t (loads env) (contents r) n (m_start m + of_nat i) (process s) = Some (Ret v, w1)"
    and r1: "reads_as k n m g (s\<lparr>process := w1\<rparr>) r1"
    by (rule load_byte_value [OF Cons.prems(2) os mem mmap i read, of dbg t])
  note v = unat_of_u8 [of v]
  have "unat acc + unat (ucast v :: usize) < 2 ^ 64" using Cons.prems(6) us(2) v by simp
  note add = usize_add_exact(1) [OF this, of dbg] usize_add_exact(2) [OF this]
  have c: "contents r1 = tm_file t1" using Cons.prems(3) read_contents [OF read] by simp
  have sub: "set is \<subseteq> {..<unat (m_len m)}" using Cons.prems(4) by simp
  have bound: "unat (acc + ucast v) + sum_list (map unat us) < 2 ^ 64"
    using Cons.prems(6) add(2) us(2) v by simp
  obtain w where w: "sum_bytes os dbg t env t1 is (acc + ucast v) (process (s\<lparr>process := w1\<rparr>)) =
      Some (Ret (acc + ucast v + of_nat (sum_list (map unat us))), w)"
    and r': "reads_as k n m g (s\<lparr>process := w1, process := w\<rparr>) r'"
    by (rule Cons.IH [OF _ r1 c sub us(1) bound])
  have total: "(of_nat (sum_list (map unat vs)) :: usize) = ucast v + of_nat (sum_list (map unat us))"
    by (simp add: us(2))
  show ?case
  proof (rule Cons.prems(1))
    show "sum_bytes os dbg t env t1 (i # is) acc (process s) =
        Some (Ret (acc + of_nat (sum_list (map unat vs))), w)"
      using w w1 add(1) Cons.prems(3) by (simp add: t1 total add.assoc)
    show "reads_as k n m g (s\<lparr>process := w\<rparr>) r'" using r' by simp
  qed
qed

lemma sum_slice_ones:
  assumes os: "os_ok k os" and mem: "file_mapped k os (m_start m) (m_len m) (loads env)"
    and mmap: "\<And>a l. mmap_call os a l (mmap_prot m) \<noteq> None"
    and t1: "tm_addr t1 = m_start m" "tm_len t1 = m_len m" "tm_before t1 = n" "tm_file t1 = replicate l 1"
    and r: "reads_as k n m g s r" "contents r = replicate l 1"
    and l: "2 ^ k dvd l" "l \<le> cut r" "cut r \<le> unat (m_len m)"
  obtains w where "sum_slice os dbg t env t1 (process s) = Some (Ret (of_nat l), w)"
    and "reads_as k n m g (s\<lparr>process := w\<rparr>) (if l < cut r then reader_fault k (m_start m) l r else r)"
proof -
  note reads = reader_reads_ones [OF r(2) l, of "m_start m"]
  have total: "sum_list (map unat (replicate l (1 :: u8) @ replicate (unat (m_len m) - l) 0)) = l"
    by (simp add: sum_list_replicate)
  have "l < 2 ^ 64" using l(2,3) unsigned_less [of "m_len m", where ?'a = nat] by simp
  then have bound: "unat (0 :: usize) +
      sum_list (map unat (replicate l (1 :: u8) @ replicate (unat (m_len m) - l) 0)) < 2 ^ 64"
    unfolding total by simp
  have offs: "set [0..<unat (m_len m)] \<subseteq> {..<unat (m_len m)}" by auto
  have same: "contents r = tm_file t1" by (simp add: r(2) t1(4))
  show thesis
  proof (rule sum_bytes_reads [OF os mem mmap t1(1,3) r(1) same offs reads bound, of dbg t])
    fix w
    assume "sum_bytes os dbg t env t1 [0..<unat (m_len m)] 0 (process s) =
        Some (Ret (0 + of_nat (sum_list (map unat (replicate l (1 :: u8) @ replicate (unat (m_len m) - l) 0)))), w)"
      and "reads_as k n m g (s\<lparr>process := w\<rparr>) (if l < cut r then reader_fault k (m_start m) l r else r)"
    with that show thesis unfolding total sum_slice_def t1(2) by simp
  qed
qed

section \<open>The tests pass\<close>

text \<open>The system calls succeed, and the map is readable, starts on a page boundary and overlaps no registered one.\<close>

definition env_ok :: "nat \<Rightarrow> os \<Rightarrow> usize \<Rightarrow> world \<Rightarrow> test_env \<Rightarrow> bool" where
  "env_ok k os len w env \<longleftrightarrow>
     memfd env \<noteq> - 1 \<and> write_ok env \<and> set_len_ok env \<and> munmap_res env \<noteq> - 1 \<and>
     (\<forall>a l. mmap_call os a l (PROT_READ env) \<noteq> None) \<and>
     (\<exists>addr. mapped_at env = Some addr \<and> legal_map k addr len \<and> file_mapped k os addr len (loads env) \<and>
        (\<forall>j m. registry w j = Some m \<longrightarrow> \<not> overlapping addr len j (m_len m)))"

lemma env_ok_less:
  assumes "env_ok k os len w env" and "len' \<le> len" and "0 < len'"
  shows "env_ok k os len' w env"
proof -
  have le: "unat len' \<le> unat len" using assms(2) by (simp add: word_le_nat_alt)
  obtain addr where addr: "mapped_at env = Some addr" "legal_map k addr len" "file_mapped k os addr len (loads env)"
    and fresh: "\<And>j m. registry w j = Some m \<Longrightarrow> \<not> overlapping addr len j (m_len m)"
    using assms(1) by (auto simp: env_ok_def)
  have "legal_map k addr len'" using addr(2) le assms(3) by (auto simp: legal_map_def region_ok_def)
  moreover have "file_mapped k os addr len' (loads env)"
    using addr(3) le unfolding file_mapped_def by (meson less_le_trans)
  moreover have "\<not> overlapping addr len' j (m_len m)" if "registry w j = Some m" for j m
    using fresh [OF that] le by (auto simp: overlapping_def)
  ultimately show ?thesis using assms(1) addr(1) by (simp add: env_ok_def)
qed

text \<open>The map of a test, before and after its registration.\<close>

definition new_test_mmap :: "test_env \<Rightarrow> usize \<Rightarrow> world \<Rightarrow> test_mmap" where
  "new_test_mmap env len w =
     \<lparr>tm_file = replicate (unat len) 1, tm_addr = the (mapped_at env), tm_len = len, tm_prot = PROT_READ env,
      tm_before = length (remaps w)\<rparr>"

lemma create_test_mmap_ok:
  "env_ok k os len w env \<Longrightarrow> create_test_mmap env len (PROT_READ env) w = Some (Ret (new_test_mmap env len w), w)"
  by (auto simp: env_ok_def create_test_mmap_def new_test_mmap_def)

definition test_mapping :: "test_env \<Rightarrow> usize \<Rightarrow> guard \<Rightarrow> mapping" where
  "test_mapping env len g =
     \<lparr>m_start = the (mapped_at env), m_len = len, mmap_prot = PROT_READ env, m_state = guard_state g\<rparr>"

lemma env_ok_map:
  assumes "env_ok k os len w env"
  shows "file_mapped k os (m_start (test_mapping env len g)) (m_len (test_mapping env len g)) (loads env)"
    and "mmap_call os a l (mmap_prot (test_mapping env len g)) \<noteq> None"
  using assms unfolding env_ok_def test_mapping_def by fastforce+

lemma register_test_mmap_ok:
  assumes s: "session_ok k s" and sr: "setup_fine sr" and env: "env_ok k os len (process s) env"
  obtains g s1 where "register_test_mmap dbg sr t (new_test_mmap env len (process s)) (process s) = Some (Ret g, process s1)"
    and "guards s1 = g # guards s"
    and "reads_as k (length (remaps (process s))) (test_mapping env len g) g s1
      (reader_start (replicate (unat len) 1) (unat len))"
proof -
  let ?addr = "the (mapped_at env)"
  have legal: "legal_map k ?addr len" and fresh: "\<And>j m. registry (process s) j = Some m \<Longrightarrow> \<not> overlapping ?addr len j (m_len m)"
    using env by (auto simp: env_ok_def)
  have region: "region_ok ?addr len" using legal by (simp add: legal_map_def)
  have ok: "world_ok (process s)" using s by (simp add: session_ok_def)
  obtain w1 where avail: "root_available (lock_created sr) (process s)"
    and inst: "install_signal_handler (sigfillset_ok sr) (sigaction_ok sr) (process s) = (Ret (), w1)"
    using register_legal [OF s sr legal] by blast
  show thesis
  proof (rule register_cases [OF ok avail inst region, of dbg t "PROT_READ env"])
    fix m w'
    assume "registry (process s) (m_start m) = Some m" "overlapping ?addr len (m_start m) (m_len m)"
    with fresh show thesis by blast
  next
    fix g w
    assume run: "register_mmap dbg sr t ?addr len (PROT_READ env) (process s) = (Ret (Inr g), w)"
      and g: "guard_addr g = ?addr" "guard_state g = length (states (process s))"
      and w: "registry w = (registry (process s))(?addr \<mapsto>
          \<lparr>m_start = ?addr, m_len = len, mmap_prot = PROT_READ env, m_state = guard_state g\<rparr>)"
        "states w = states (process s) @ [state_new]" "remaps w = remaps (process s)"
    let ?s = "s\<lparr>process := w, guards := g # guards s, mapped := (?addr, len, PROT_READ env) # mapped s\<rparr>"
    have s1: "session_ok k ?s"
      by (rule register_session_ok [OF s sr legal, of dbg t "PROT_READ env"]) (use run in auto)
    have "registry (process ?s) (guard_addr g) = Some (test_mapping env len g)"
      by (simp add: w(1) g(1) test_mapping_def)
    from reads_as_start [OF s1 _ this, of "replicate (unat len) 1"]
    have "reads_as k (length (remaps (process s))) (test_mapping env len g) g ?s
        (reader_start (replicate (unat len) 1) (unat len))"
      by (simp add: w(3) is_err_def w(2) g(2) state_new_def) (simp add: test_mapping_def)
    with run show thesis by (intro that [of g ?s]) (simp_all add: register_test_mmap_def new_test_mmap_def)
  qed
qed

lemma end_of_test_ok:
  assumes r: "reads_as k n m g s1 r" and env: "env_ok k os len w0 env" and gs: "guards s1 = g # gs"
  obtains s' where "end_of_test sr t env g (process s1) = Some (Ret (), process s')"
    and "session_ok k s'" and "guards s' = gs"
proof -
  have g: "g \<in> set (guards s1)" by (simp add: gs)
  show thesis
  proof (rule drop_session_ok [OF reads_asD(1) [OF r] g, of "lock_created sr" t])
    fix w'
    assume "guard_drop (lock_created sr) t g (process s1) = (Ret (), w')"
      and "session_ok k (s1\<lparr>process := w', guards := remove1 g (guards s1)\<rparr>)"
    with env show thesis
      by (intro that [of "s1\<lparr>process := w', guards := remove1 g (guards s1)\<rparr>"])
        (simp_all add: end_of_test_def test_mmap_drop_def env_ok_def gs)
  qed
qed

text \<open>One round of truncating, summing and comparing.\<close>

lemma set_len_ones: "l \<le> n \<Longrightarrow> set_len l (replicate n v) = replicate l v"
  by (simp add: set_len_def min_def)

lemma file_set_len_ok:
  "env_ok k os len w0 env \<Longrightarrow> file_set_len env l t1 w = Some (Ret (t1\<lparr>tm_file := set_len l (tm_file t1)\<rparr>), w)"
  by (simp add: file_set_len_def env_ok_def)

lemma reads_as_err:
  assumes "reads_as k n m g s r"
  shows "is_err g (process s) \<longleftrightarrow> last_fault r \<noteq> None"
    and "last_fault r = Some a \<Longrightarrow> guard_err_addr g (process s) = a"
  using assms reads_asD(6) [OF assms] by (auto simp: reads_as_def report_ok_def is_err_def guard_err_addr_def)

text \<open>The state of a test between its rounds: the file has \<open>l\<close> bytes, and \<open>r\<close> is what the map reads as.\<close>

definition test_state ::
    "nat \<Rightarrow> test_env \<Rightarrow> usize \<Rightarrow> world \<Rightarrow> guard \<Rightarrow> test_mmap \<Rightarrow> nat \<Rightarrow> session \<Rightarrow> reader \<Rightarrow> bool" where
  "test_state k env len w0 g t1 l s r \<longleftrightarrow>
     t1 = (new_test_mmap env len w0)\<lparr>tm_file := replicate l 1\<rparr> \<and> contents r = replicate l 1 \<and>
     cut r \<le> unat len \<and> reads_as k (length (remaps w0)) (test_mapping env len g) g s r"

lemma test_state_start:
  assumes "reads_as k (length (remaps w0)) (test_mapping env len g) g s (reader_start (replicate (unat len) 1) (unat len))"
  shows "test_state k env len w0 g (new_test_mmap env len w0) (unat len) s (reader_start (replicate (unat len) 1) (unat len))"
  using assms by (simp add: test_state_def new_test_mmap_def reader_start_def)

lemma test_state_set_len:
  assumes "test_state k env len w0 g t1 l s r" and "l' \<le> l"
  shows "test_state k env len w0 g (t1\<lparr>tm_file := set_len l' (tm_file t1)\<rparr>) l' s (r\<lparr>contents := replicate l' 1\<rparr>)"
  using assms by (simp add: test_state_def set_len_ones)

lemma test_state_sum:
  assumes os: "os_ok k os" and env: "env_ok k os len w0 env" and st: "test_state k env len w0 g t1 l s r"
    and l: "2 ^ k dvd l" "l \<le> cut r"
  obtains w where "sum_slice os dbg t env t1 (process s) = Some (Ret (of_nat l), w)"
    and "test_state k env len w0 g t1 l (s\<lparr>process := w\<rparr>) (if l < cut r then reader_fault k (the (mapped_at env)) l r else r)"
proof -
  have t1: "tm_addr t1 = m_start (test_mapping env len g)" "tm_len t1 = m_len (test_mapping env len g)"
    "tm_before t1 = length (remaps w0)" "tm_file t1 = replicate l 1"
    and c: "contents r = replicate l 1" and cut: "cut r \<le> unat (m_len (test_mapping env len g))"
    and r: "reads_as k (length (remaps w0)) (test_mapping env len g) g s r"
    using st by (simp_all add: test_state_def test_mapping_def new_test_mmap_def)
  show thesis
    by (rule sum_slice_ones [OF os env_ok_map [OF env] t1 r c l cut, of dbg t])
      (use st in \<open>intro that, auto simp: test_state_def reader_fault_def test_mapping_def\<close>)
qed

lemma assert_ok: "b \<Longrightarrow> assert_that b w = Some (Ret (), w)"
  by (simp add: assert_that_def)

lemmas test_steps = and_then_do.simps create_test_mmap_ok file_set_len_ok assert_ok

lemma test_begins:
  assumes s: "session_ok k s" and sr: "setup_fine sr" and env: "env_ok k os len (process s) env"
  obtains g s1 r where "register_test_mmap dbg sr t (new_test_mmap env len (process s)) (process s) = Some (Ret g, process s1)"
    and "guards s1 = g # guards s" and "cut r = unat len" and "last_fault r = None"
    and "test_state k env len (process s) g (new_test_mmap env len (process s)) (unat len) s1 r"
  using register_test_mmap_ok [OF s sr env, of dbg t] test_state_start
  by (metis reader.select_convs(2,3) reader_start_def)

lemma test_not_err:
  assumes "test_state k env len w0 g t1 l s r" and "last_fault r = None"
  shows "\<not> is_err g (process s)"
  using assms reads_as_err(1) unfolding test_state_def by blast

text \<open>A round that truncates the file to fewer pages than have been replaced so far.\<close>

lemma test_round:
  assumes os: "os_ok k os" and env: "env_ok k os len w0 env" and st: "test_state k env len w0 g t1 l s r"
    and l: "2 ^ k dvd l'" "l' \<le> l" "l' < cut r"
  obtains w r' where "sum_slice os dbg t env (t1\<lparr>tm_file := set_len l' (tm_file t1)\<rparr>) (process s) = Some (Ret (of_nat l'), w)"
    and "test_state k env len w0 g (t1\<lparr>tm_file := set_len l' (tm_file t1)\<rparr>) l' (s\<lparr>process := w\<rparr>) r'" and "cut r' = l'"
    and "is_err g w" and "guard_err_addr g w = tm_addr t1 + of_nat l'"
proof -
  let ?t = "t1\<lparr>tm_file := set_len l' (tm_file t1)\<rparr>" and ?r = "r\<lparr>contents := replicate l' 1\<rparr>"
  let ?r' = "reader_fault k (the (mapped_at env)) l' ?r"
  have le: "l' \<le> cut ?r" and lt: "l' < cut ?r" using l(3) by simp_all
  obtain w where w: "sum_slice os dbg t env ?t (process s) = Some (Ret (of_nat l'), w)"
    and st': "test_state k env len w0 g ?t l' (s\<lparr>process := w\<rparr>) ?r'"
    using test_state_sum [OF os env test_state_set_len [OF st l(2)] l(1) le, of dbg t] lt by auto
  have "page_off k l' = l'" using l(1) by (simp add: page_off_def)
  then have "cut ?r' = l'" using l(3) by (simp add: reader_fault_def)
  moreover have r': "reads_as k (length (remaps w0)) (test_mapping env len g) g (s\<lparr>process := w\<rparr>) ?r'"
    using st' by (simp add: test_state_def)
  have "is_err g w" and "guard_err_addr g w = the (mapped_at env) + of_nat l'"
    using reads_as_err [OF r'] by (simp_all add: reader_fault_def)
  moreover have "tm_addr t1 = the (mapped_at env)"
    using st by (simp add: test_state_def new_test_mmap_def)
  ultimately show thesis using that [OF w st'] by simp
qed

lemma test_ends:
  assumes "test_state k env len w0 g t1 l s1 r" and "env_ok k os len w0 env" and "guards s1 = g # gs"
  obtains s' where "end_of_test sr t env g (process s1) = Some (Ret (), process s')"
    and "session_ok k s'" and "guards s' = gs"
proof -
  have "reads_as k (length (remaps w0)) (test_mapping env len g) g s1 r"
    using assms(1) by (simp add: test_state_def)
  from end_of_test_ok [OF this assms(2,3)] that show thesis by blast
qed

lemma partial_truncate_passes:
  assumes s: "session_ok 12 s" and sr: "setup_fine sr" and os: "os_ok 12 os"
    and env: "env_ok 12 os (2 * 4096) (process s) env"
  shows "\<exists>s'. partial_truncate os dbg sr t env (process s) = Some (Ret (), process s') \<and>
    session_ok 12 s' \<and> guards s' = guards s"
proof -
  let ?t1 = "new_test_mmap env (2 * 4096) (process s)"
  let ?t = "?t1\<lparr>tm_file := set_len 4096 (tm_file ?t1)\<rparr>"
  obtain g s1 r where reg: "register_test_mmap dbg sr t ?t1 (process s) = Some (Ret g, process s1)"
    and gs: "guards s1 = g # guards s" and r: "cut r = unat (2 * 4096 :: usize)" "last_fault r = None"
    and st: "test_state 12 env (2 * 4096) (process s) g ?t1 (unat (2 * 4096 :: usize)) s1 r"
    by (rule test_begins [OF s sr env, of dbg t])
  obtain w r' where total: "sum_slice os dbg t env ?t (process s1) = Some (Ret (of_nat 4096), w)"
    and st': "test_state 12 env (2 * 4096) (process s) g ?t 4096 (s1\<lparr>process := w\<rparr>) r'"
    and err: "is_err g w" "guard_err_addr g w = tm_addr ?t1 + of_nat 4096"
    by (rule test_round [OF os env st, of 4096 dbg t]) (simp_all add: r(1))
  have addr: "guard_err_addr g w = tm_addr ?t + 4096" using err(2) by simp
  have same: "4096 = (of_nat 4096 :: usize)" by simp
  obtain s' where "end_of_test sr t env g w = Some (Ret (), process s')" "session_ok 12 s'" "guards s' = guards s"
    using test_ends [OF st' env, of "guards s" sr t] gs by auto
  then show ?thesis
    unfolding partial_truncate_def test_steps(1-5) create_test_mmap_ok [OF env] reg file_set_len_ok [OF env]
      assert_ok [OF test_not_err [OF st r(2)]] total assert_ok [OF same] assert_ok [OF err(1)] assert_ok [OF addr] by blast
qed

lemma full_truncate_passes:
  assumes s: "session_ok 12 s" and sr: "setup_fine sr" and os: "os_ok 12 os"
    and env: "env_ok 12 os (2 * 4096) (process s) env"
  shows "\<exists>s'. full_truncate os dbg sr t env (process s) = Some (Ret (), process s') \<and>
    session_ok 12 s' \<and> guards s' = guards s"
proof -
  let ?t1 = "new_test_mmap env (2 * 4096) (process s)"
  let ?t = "?t1\<lparr>tm_file := set_len 0 (tm_file ?t1)\<rparr>"
  obtain g s1 r where reg: "register_test_mmap dbg sr t ?t1 (process s) = Some (Ret g, process s1)"
    and gs: "guards s1 = g # guards s" and r: "cut r = unat (2 * 4096 :: usize)" "last_fault r = None"
    and st: "test_state 12 env (2 * 4096) (process s) g ?t1 (unat (2 * 4096 :: usize)) s1 r"
    by (rule test_begins [OF s sr env, of dbg t])
  obtain w r' where total: "sum_slice os dbg t env ?t (process s1) = Some (Ret (of_nat 0), w)"
    and st': "test_state 12 env (2 * 4096) (process s) g ?t 0 (s1\<lparr>process := w\<rparr>) r'"
    and err: "is_err g w"
    by (rule test_round [OF os env st, of 0 dbg t]) (simp_all add: r(1))
  have same: "0 = (of_nat 0 :: usize)" by simp
  obtain s' where "end_of_test sr t env g w = Some (Ret (), process s')" "session_ok 12 s'" "guards s' = guards s"
    using test_ends [OF st' env, of "guards s" sr t] gs by auto
  then show ?thesis
    unfolding full_truncate_def test_steps(1-5) create_test_mmap_ok [OF env] reg file_set_len_ok [OF env]
      assert_ok [OF test_not_err [OF st r(2)]] total assert_ok [OF same] assert_ok [OF err] by blast
qed

text \<open>Each round of the loop truncates the file further.\<close>

lemma progressive_rounds_pass:
  assumes os: "os_ok k os" and env: "env_ok k os len w0 env"
    and "test_state k env len w0 g t1 l s r" and "cut r = l"
    and "sorted_wrt (>) (l # lengths)" and "\<forall>n \<in> set lengths. 2 ^ k dvd n"
  shows "\<exists>s' t2 l2 r2. progressive_rounds os dbg t env g lengths t1 (process s) = Some (Ret (), process s') \<and>
    guards s' = guards s \<and> test_state k env len w0 g t2 l2 s' r2"
  using assms(3-)
proof (induction lengths arbitrary: t1 l s r)
  case Nil
  then show ?case by (auto intro!: exI)
next
  case (Cons n lengths)
  let ?t = "t1\<lparr>tm_file := set_len n (tm_file t1)\<rparr>"
  have n: "2 ^ k dvd n" "n \<le> l" "n < cut r" using Cons.prems by simp_all
  obtain w r' where total: "sum_slice os dbg t env ?t (process s) = Some (Ret (of_nat n), w)"
    and st: "test_state k env len w0 g ?t n (s\<lparr>process := w\<rparr>) r'" and r': "cut r' = n" and err: "is_err g w"
    by (rule test_round [OF os env Cons.prems(1) n, of dbg t])
  have rest: "sorted_wrt (>) (n # lengths)" "\<forall>n \<in> set lengths. 2 ^ k dvd n" using Cons.prems(3,4) by simp_all
  have "progressive_rounds os dbg t env g (n # lengths) t1 (process s) = progressive_rounds os dbg t env g lengths ?t w"
    unfolding progressive_rounds.simps test_steps(2) file_set_len_ok [OF env] total assert_ok [OF refl] assert_ok [OF err]
    by (rule refl)
  with Cons.IH [OF st r' rest] show ?case by simp
qed

lemma progressive_truncates_passes:
  assumes s: "session_ok 12 s" and sr: "setup_fine sr" and os: "os_ok 12 os"
    and env: "env_ok 12 os (3 * 4096) (process s) env"
  shows "\<exists>s'. progressive_truncates os dbg sr t env (process s) = Some (Ret (), process s') \<and>
    session_ok 12 s' \<and> guards s' = guards s"
proof -
  let ?t1 = "new_test_mmap env (3 * 4096) (process s)"
  obtain g s1 r where reg: "register_test_mmap dbg sr t ?t1 (process s) = Some (Ret g, process s1)"
    and gs: "guards s1 = g # guards s" and r: "cut r = unat (3 * 4096 :: usize)"
    and st: "test_state 12 env (3 * 4096) (process s) g ?t1 (unat (3 * 4096 :: usize)) s1 r"
    by (rule test_begins [OF s sr env, of dbg t])
  have lengths: "sorted_wrt (>) [unat (3 * 4096 :: usize), 2 * 4096, 4096, 0]"
    "\<forall>n \<in> set [2 * 4096, 4096, 0 :: nat]. 2 ^ 12 dvd n" by simp_all
  obtain s2 t2 l2 r2 where rounds: "progressive_rounds os dbg t env g [2 * 4096, 4096, 0] ?t1 (process s1) = Some (Ret (), process s2)"
    and gs2: "guards s2 = guards s1" and st2: "test_state 12 env (3 * 4096) (process s) g t2 l2 s2 r2"
    using progressive_rounds_pass [OF os env st r lengths, of dbg t] by blast
  obtain s' where "end_of_test sr t env g (process s2) = Some (Ret (), process s')" "session_ok 12 s'" "guards s' = guards s"
    using test_ends [OF st2 env, of "guards s" sr t] gs gs2 by auto
  then show ?thesis
    unfolding progressive_truncates_def test_steps(1-5) create_test_mmap_ok [OF env] reg rounds by blast
qed

section \<open>Larger pages\<close>

text \<open>
  With pages of more than 4096 bytes, the truncation to 4096 bytes in \<open>partial_truncate\<close> leaves the map
  without a fault, and the assertion of an error fails.
\<close>

lemma reader_reads_same_page:
  assumes ones: "contents r = replicate l 1" and "0 < l" and l: "l \<le> len" and "len \<le> 2 ^ k" and "len \<le> cut r"
  shows "reader_reads k addr [0..<len] r = (replicate l 1 @ replicate (len - l) 0, r)"
proof -
  have "reader_read k addr i r = (if i < l then 1 else 0, r)" if "i < len" for i
    using that assms by (simp add: reader_read_def file_byte_def page_off_def)
  then have "reader_reads k addr [0..<len] r = (map (\<lambda>i. if i < l then 1 else 0) [0..<len], r)"
    by (intro reader_reads_quiet) simp
  moreover have "map (\<lambda>i. if i < l then 1 else 0) [0..<len] = replicate l (1 :: u8) @ replicate (len - l) 0"
    using l by (intro nth_equalityI) (simp_all add: nth_append)
  ultimately show ?thesis by simp
qed

lemma partial_truncate_large_pages:
  assumes s: "session_ok k s" and sr: "setup_fine sr" and os: "os_ok k os" and k: "13 \<le> k"
    and env: "env_ok k os (2 * 4096) (process s) env"
  shows "\<exists>w. partial_truncate os dbg sr t env (process s) = Some (Panic AssertFailed, w)"
proof -
  let ?t1 = "new_test_mmap env (2 * 4096) (process s)"
  let ?t = "?t1\<lparr>tm_file := set_len 4096 (tm_file ?t1)\<rparr>"
  obtain g s1 r where reg: "register_test_mmap dbg sr t ?t1 (process s) = Some (Ret g, process s1)"
    and r: "cut r = unat (2 * 4096 :: usize)" "last_fault r = None"
    and st: "test_state k env (2 * 4096) (process s) g ?t1 (unat (2 * 4096 :: usize)) s1 r"
    by (rule test_begins [OF s sr env, of dbg t])
  let ?r = "r\<lparr>contents := replicate 4096 1\<rparr>" and ?m = "test_mapping env (2 * 4096) g"
  have st': "test_state k env (2 * 4096) (process s) g ?t 4096 s1 ?r"
    by (rule test_state_set_len [OF st]) simp
  then have t1: "tm_addr ?t = m_start ?m" "tm_before ?t = length (remaps (process s))" "contents ?r = tm_file ?t"
    and reads: "reads_as k (length (remaps (process s))) ?m g s1 ?r"
    by (simp_all add: test_state_def new_test_mmap_def test_mapping_def)
  have total: "sum_list (map unat (replicate 4096 (1 :: u8) @ replicate 4096 0)) = 4096"
    by (simp add: sum_list_replicate)
  have seen: "reader_reads k (m_start ?m) [0..<8192] ?r = (replicate 4096 1 @ replicate 4096 0, ?r)"
    using reader_reads_same_page [of ?r 4096 8192 k "m_start ?m"] power_increasing [OF k, of "2 :: nat"]
    by (simp add: r(1))
  have offs: "set [0..<8192] \<subseteq> {..<unat (m_len ?m)}" by (auto simp: test_mapping_def)
  have bound: "unat (0 :: usize) + sum_list (map unat (replicate 4096 (1 :: u8) @ replicate 4096 0)) < 2 ^ 64"
    unfolding total by simp
  obtain w where "sum_bytes os dbg t env ?t [0..<8192] 0 (process s1) =
      Some (Ret (0 + of_nat (sum_list (map unat (replicate 4096 (1 :: u8) @ replicate 4096 0)))), w)"
    and r2: "reads_as k (length (remaps (process s))) ?m g (s1\<lparr>process := w\<rparr>) ?r"
    by (rule sum_bytes_reads [OF os env_ok_map [OF env] t1(1,2) reads t1(3) offs seen bound, of dbg t])
  then have w: "sum_slice os dbg t env ?t (process s1) = Some (Ret (of_nat 4096), w)"
    unfolding total sum_slice_def by (simp add: new_test_mmap_def)
  have same: "4096 = (of_nat 4096 :: usize)" by simp
  have "assert_that (is_err g w) w = Some (Panic AssertFailed, w)"
    using reads_as_err(1) [OF r2] r(2) by (simp add: assert_that_def)
  then show ?thesis
    unfolding partial_truncate_def test_steps(1-5) create_test_mmap_ok [OF env] reg file_set_len_ok [OF env]
      assert_ok [OF test_not_err [OF st r(2)]] w assert_ok [OF same] by simp
qed

end
