(* ===== verification/Mapped_Examples.thy ===== *)
theory Mapped_Examples
  imports Mapped_Tests Mmap_Examples
begin

text \<open>
  The loads of a map of a file under Linux, with pages of 4096 bytes, and short runs on them.
\<close>

definition linux_load :: "usize \<Rightarrow> load" where
  "linux_load addr f rs a =
     (if covers 12 rs a then Inr 0
      else if page_off 12 (unat (a - addr)) < length f then Inr (file_byte f (unat (a - addr)))
      else Inl \<lparr>si_signo = 7, info_code = 2, si_addr = a\<rparr>)"

lemma linux_file_mapped:
  assumes "legal_map k addr len"
  shows "file_mapped 12 linux addr len (linux_load addr)"
proof -
  have "unat (of_nat i :: usize) = i" if "i < unat len" for i
    using that unsigned_less [of len, where ?'a = nat] by (simp add: unat_of_nat)
  moreover have "addr + of_nat i \<noteq> 0" if "i < unat len" for i
  proof -
    have "unat addr \<noteq> 0" using assms by (simp add: legal_map_def word_less_nat_alt)
    then have "unat (addr + of_nat i) \<noteq> 0" using offset_addr(1) [OF assms that] by simp
    then show ?thesis by auto
  qed
  ultimately show ?thesis
    by (simp add: file_mapped_def linux_load_def bus_signal_def linux_def)
qed

text \<open>The process after its first registration, and a truncation that a thread then runs into.\<close>

definition registered_session :: session where
  "registered_session = \<lparr>process = registered_world, guards = [registered_guard], mapped = [(0x1000, 0x2000, 3)]\<rparr>"

lemma legal_example: "legal_map 12 0x1000 0x2000"
  by (simp add: legal_map_def region_ok_def)

lemma registered_history: "history 12 linux True setup_ok registered_session"
proof -
  have "use_step 12 linux True setup_ok session_start registered_session"
    using use_step.registered [OF legal_example, of True setup_ok 1 3 session_start registered_guard registered_world linux]
      register_example
    by (simp add: session_start_def registered_session_def)
  then show ?thesis by (rule history.used [OF history.started])
qed

lemma fault_read:
  "load_byte linux True 1 (linux_load 0x1000) (replicate 0x1000 1) 0 0x2ABC registered_world =
    Some (Ret 0, repaired 12 fault registered_map 0x1000 registered_world)"
proof -
  have "linux_load 0x1000 (replicate 0x1000 1) (since 0 registered_world) 0x2ABC = Inl fault"
    by (simp add: linux_load_def since_def covers_def registered_world_def ready_world_def initial_world_def
        fault_def page_off_def)
  moreover have "linux_load 0x1000 (replicate 0x1000 1)
      (since 0 (repaired 12 fault registered_map 0x1000 registered_world)) 0x2ABC = Inr 0"
    by (simp add: linux_load_def since_def covers_def repaired_def fault_def page_start_def in_region_def)
  ultimately show ?thesis
    by (simp add: load_byte.simps [of _ _ _ _ _ _ _ registered_world] fault_handled)
      (simp add: load_byte.simps)
qed

lemma truncated_run:
  "labelled_run (map_step 12 linux True setup_ok (linux_load 0x1000) 0 registered_map registered_guard)
    [SetLen 0x1000, ReadAt 0x1ABC 0] (replicate 0x2000 1, registered_session)
    (replicate 0x1000 1, registered_session\<lparr>process := repaired 12 fault registered_map 0x1000 registered_world\<rparr>)"
proof -
  let ?step = "map_step 12 linux True setup_ok (linux_load 0x1000) 0 registered_map registered_guard"
  have "?step (SetLen 0x1000) (replicate 0x2000 1, registered_session) (set_len 0x1000 (replicate 0x2000 1), registered_session)"
    by (rule map_set_len)
  then have "?step (SetLen 0x1000) (replicate 0x2000 1, registered_session) (replicate 0x1000 1, registered_session)"
    by (simp add: set_len_ones)
  moreover have "?step (ReadAt 0x1ABC 0) (replicate 0x1000 1, registered_session)
      (replicate 0x1000 1, registered_session\<lparr>process := repaired 12 fault registered_map 0x1000 registered_world\<rparr>)"
    by (rule map_read [where t = 1])
      (use fault_read in \<open>simp_all add: registered_map_def registered_session_def\<close>)
  ultimately show ?thesis unfolding labelled_run_simps by blast
qed

text \<open>An environment for the tests, in the same process.\<close>

definition example_env :: test_env where
  "example_env =
     \<lparr>memfd = 5, write_ok = True, mapped_at = Some 0x10000, set_len_ok = True, munmap_res = 0, PROT_READ = 1,
      loads = linux_load 0x10000\<rparr>"

lemma example_env_ok: "env_ok 12 linux (3 * 4096) (process registered_session) example_env"
proof -
  have legal: "legal_map 12 0x10000 (3 * 4096)" by (simp add: legal_map_def region_ok_def)
  have "\<not> overlapping 0x10000 (3 * 4096) j (m_len m)" if "registry registered_world j = Some m" for j m
    using that by (auto simp: registry_def current_root_def registered_world_def overlapping_def split: if_splits)
  then show ?thesis
    using linux_file_mapped [OF legal] legal linux_maps
    by (auto simp: env_ok_def example_env_def registered_session_def)
qed

end
