(* ===== verification/Try_Once.thy ===== *)
theory Try_Once
  imports Lock_Contract Lock_Sync
begin

text \<open>
  \<open>TryOnce\<close> (\<open>mmapcatch/src/lib.rs\<close>) under concurrent calls: the initialization function may fail and
  be retried, but it succeeds, and writes the cell that it initializes, at most once. The
  interleaving machine is the one of the locks; the standard library's \<open>Mutex\<close> blocks while another
  activation holds it.
\<close>

section \<open>State and program points\<close>

text \<open>\<open>mutex\<close> is the thread that holds the mutex or 0; \<open>writes\<close> counts the writes of the cell.\<close>

record try_once =
  init :: bool
  mutex :: tid
  writes :: nat

definition try_once_new :: try_once where
  "try_once_new = \<lparr>init = False, mutex = 0, writes = 0\<rparr>"

datatype once_pc =
    LoadInit
  | LockMutex
  | CheckInit
  | CallInit
  | StoreInit
  | UnlockMutex "errno + unit"
  | Returned "errno + unit"

section \<open>\<open>try_call\<close>\<close>

text \<open>
  The function \<open>f\<close> of \<open>StaticRoot::init\<close> writes the cell and returns \<open>Ok\<close>, or fails without a write.
  It does not panic, so that the mutex is never poisoned.
\<close>

fun try_call :: "tid \<Rightarrow> env \<Rightarrow> try_once \<Rightarrow> once_pc \<Rightarrow> (try_once \<times> once_pc) option" where
  "try_call t c m LoadInit = Some (m, if init m then Returned (Inr ()) else LockMutex)"
| "try_call t c m LockMutex = (if mutex m = 0 then Some (m\<lparr>mutex := t\<rparr>, CheckInit) else None)"
| "try_call t c m CheckInit = Some (m, if init m then UnlockMutex (Inr ()) else CallInit)"
| "try_call t c m CallInit =
     (case c of
        Fail e \<Rightarrow> Some (m, UnlockMutex (Inl e))
      | _ \<Rightarrow> Some (m\<lparr>writes := Suc (writes m)\<rparr>, StoreInit))"
| "try_call t c m StoreInit = Some (m\<lparr>init := True\<rparr>, UnlockMutex (Inr ()))"
| "try_call t c m (UnlockMutex r) = Some (m\<lparr>mutex := 0\<rparr>, Returned r)"
| "try_call t c m (Returned r) = None"

fun once_allowed :: "once_pc \<Rightarrow> env \<Rightarrow> bool" where
  "once_allowed CallInit c = (case c of Normal \<Rightarrow> True | Fail e \<Rightarrow> True | _ \<Rightarrow> False)"
| "once_allowed p c = (c = Normal)"

fun once_finished :: "once_pc \<Rightarrow> bool" where
  "once_finished (Returned r) = True"
| "once_finished p = False"

fun once_holds :: "once_pc \<Rightarrow> bool" where
  "once_holds CheckInit = True"
| "once_holds CallInit = True"
| "once_holds StoreInit = True"
| "once_holds (UnlockMutex r) = True"
| "once_holds p = False"

definition once_code :: "(try_once, once_pc) lock_code" where
  "once_code =
     \<lparr>start = LoadInit, act = try_call, allowed = once_allowed, finished = once_finished,
      sleeping = (\<lambda>_. False), tid_ok = (\<lambda>t. t \<noteq> 0)\<rparr>"

lemma once_code_simps [simp]:
  "start once_code = LoadInit" "act once_code = try_call" "allowed once_code = once_allowed"
  "finished once_code = once_finished" "sleeping once_code = (\<lambda>_. False)" "tid_ok once_code = (\<lambda>t. t \<noteq> 0)"
  by (simp_all add: once_code_def)

text \<open>The mutex makes it an exclusive lock of the flag and the cell.\<close>

interpretation once: exclusive_lock once_code try_once_new mutex "\<lambda>m. (init m, writes m)" once_holds
proof (unfold_locales, goal_cases)
  case 1
  show ?case by (simp add: try_once_new_def)
next
  case (4 p)
  then show ?case by (cases p) simp_all
next
  case (5 t c m p m' p')
  then show ?case by (cases p) (auto split: if_splits env.splits)
next
  case (6 t c m p m' p')
  then show ?case by (cases p) (auto split: if_splits env.splits)
next
  case (7 t c m p m' p')
  then show ?case by (cases p) (auto split: if_splits env.splits)
next
  case (8 t c m p m' p')
  then show ?case by (cases p) (auto split: if_splits)
qed simp_all

section \<open>The invariant\<close>

fun once_pc_ok :: "try_once \<Rightarrow> once_pc \<Rightarrow> bool" where
  "once_pc_ok m CallInit = (\<not> init m \<and> writes m = 0)"
| "once_pc_ok m StoreInit = (\<not> init m \<and> writes m = 1)"
| "once_pc_ok m (UnlockMutex r) = (r = Inr () \<longrightarrow> init m)"
| "once_pc_ok m (Returned r) = (r = Inr () \<longrightarrow> init m)"
| "once_pc_ok m p = True"

definition storing :: "(tid \<Rightarrow> once_pc list) \<Rightarrow> bool" where
  "storing stk \<longleftrightarrow> (\<exists>t. StoreInit \<in> set (stk t))"

definition once_sound :: "(try_once, once_pc) sys \<Rightarrow> bool" where
  "once_sound s \<longleftrightarrow> (\<forall>t. \<forall>p \<in> set (stacks s t). once_pc_ok (mem s) p) \<and>
     writes (mem s) = (if init (mem s) \<or> storing (stacks s) then 1 else 0)"

lemma once_soundD:
  assumes "once_sound s" and "p \<in> set (stacks s t)"
  shows "once_pc_ok (mem s) p"
  using assms by (auto simp: once_sound_def)

lemma storing_upd:
  assumes "stk t = p # ps" and "p \<noteq> StoreInit" and "xs = ps \<or> (\<exists>p'. xs = p' # ps \<and> p' \<noteq> StoreInit)"
  shows "storing (stk(t := xs)) = storing stk"
proof -
  have "StoreInit \<in> set ((stk(t := xs)) u) \<longleftrightarrow> StoreInit \<in> set (stk u)" for u
    using assms by (cases "u = t") auto
  then show ?thesis by (simp add: storing_def)
qed

text \<open>Only the holder changes the flag and the cell, and it never clears the flag.\<close>

lemma try_call_item:
  assumes "try_call t c m p = Some (m', p')"
  shows "init m \<longrightarrow> init m'" and "\<not> once_holds p \<Longrightarrow> init m' = init m \<and> writes m' = writes m"
  using assms by (cases p; auto split: if_splits env.splits)+

lemma once_pc_ok_other:
  assumes "try_call t c m p = Some (m', p')" and "once_pc_ok m q" and "\<not> once_holds q \<or> \<not> once_holds p"
  shows "once_pc_ok m' q"
  using assms(2,3) try_call_item [OF assms(1)] by (cases q) auto

lemma once_frames_step:
  assumes r: "reachable once_code try_once_new s" and sound: "once_sound s"
    and stk: "stacks s t = p # ps" and act: "try_call t c (mem s) p = Some (m', p')" and p': "once_pc_ok m' p'"
    and q: "q \<in> set (((stacks s)(t := p' # ps)) u)"
  shows "once_pc_ok m' q"
proof (cases "u = t \<and> q = p'")
  case False
  with q stk have q': "q \<in> set (stacks s u)" "u \<noteq> t \<or> q \<in> set ps" by (auto split: if_splits)
  have "\<not> once_holds q \<or> \<not> once_holds p"
    using once.other_not_holds [OF once.reachable_owner_inv [OF r] stk q'] by blast
  then show ?thesis by (rule once_pc_ok_other [OF act once_soundD [OF sound q'(1)]])
qed (use p' in simp)

lemma once_alone:
  assumes "reachable once_code try_once_new s" and "stacks s t = p # ps" and "once_holds p" and "p \<noteq> StoreInit"
  shows "\<not> storing (stacks s)"
  unfolding storing_def
proof
  assume "\<exists>u. StoreInit \<in> set (stacks s u)"
  then obtain u where "StoreInit \<in> set (stacks s u)" by blast
  with once.other_not_holds [OF once.reachable_owner_inv [OF assms(1)] assms(2) this] assms(2-4)
  show False by (cases "u = t") auto
qed

text \<open>What the running activation establishes about its next point and the cell.\<close>

lemma try_call_ok:
  assumes "try_call t c m p = Some (m', p')" and "once_allowed p c" and "once_pc_ok m p"
    and "writes m = (if init m \<or> stored then 1 else 0)" and "once_holds p \<Longrightarrow> p \<noteq> StoreInit \<Longrightarrow> \<not> stored"
    and "p = StoreInit \<Longrightarrow> stored"
  shows "once_pc_ok m' p' \<and>
    (if p = CallInit \<and> p' = StoreInit then \<not> init m' \<and> writes m' = 1
     else if p = StoreInit then init m' \<and> writes m' = 1
     else p' \<noteq> StoreInit \<and> writes m' = writes m \<and> init m' = init m)"
  using assms by (cases p) (auto split: if_splits env.splits)

lemma once_sound_step:
  assumes r: "reachable once_code try_once_new s" and sound: "once_sound s"
    and step: "sys_step once_code e s s'"
  shows "once_sound s'"
  using step
proof cases
  case (call t)
  with sound show ?thesis by (auto simp: once_sound_def storing_def)
next
  case (return t p ps)
  then have "p \<noteq> StoreInit" by auto
  then have "storing (stacks s') = storing (stacks s)"
    using storing_upd [of "stacks s" t p ps ps] return by simp
  moreover have "once_pc_ok (mem s) q" if "q \<in> set (stacks s' u)" for q u
    using once_soundD [OF sound, of q u] that return by (cases "u = t") auto
  ultimately show ?thesis
    using sound return by (simp add: once_sound_def)
next
  case (run t p ps c m' p')
  have act: "try_call t c (mem s) p = Some (m', p')" and al: "once_allowed p c" using run by simp_all
  have p: "once_pc_ok (mem s) p" by (rule once_soundD [OF sound, of _ t]) (simp add: run)
  have w: "writes (mem s) = (if init (mem s) \<or> storing (stacks s) then 1 else 0)"
    using sound by (simp add: once_sound_def)
  have "storing (stacks s)" if "p = StoreInit"
    unfolding storing_def using run(3) that by (intro exI [of _ t]) simp
  note goal = try_call_ok [OF act al p w once_alone [OF r run(3)] this]
  have frames: "\<forall>u. \<forall>q \<in> set (stacks s' u). once_pc_ok (mem s') q"
    using once_frames_step [OF r sound run(3) act] goal run(2) by simp
  have "writes m' = (if init m' \<or> storing (stacks s') then 1 else 0)"
  proof (cases "p = StoreInit \<or> p' = StoreInit")
    case True
    moreover have "storing (stacks s')" if "p' = StoreInit"
      unfolding storing_def using run(2) that by (intro exI [of _ t]) simp
    ultimately show ?thesis using goal by (auto split: if_splits)
  next
    case False
    then have "storing (stacks s') = storing (stacks s)"
      using storing_upd [of "stacks s" t p ps "p' # ps"] run(2,3) by simp
    with False goal w show ?thesis by (auto split: if_splits)
  qed
  with frames run(2) show ?thesis by (simp add: once_sound_def)
qed

lemma once_reachable_sound:
  assumes "reachable once_code try_once_new s"
  shows "once_sound s"
  using assms
proof (rule reachable_invariant)
  show "once_sound (init_sys try_once_new)"
    by (simp add: once_sound_def try_once_new_def storing_def)
qed (rule once_sound_step)

lemma try_once_writes_once:
  assumes "reachable once_code try_once_new s"
  shows "writes (mem s) \<le> 1 \<and>
    (Returned (Inr ()) \<in> set (stacks s t) \<longrightarrow> init (mem s) \<and> writes (mem s) = 1)"
proof -
  have sound: "once_sound s" by (rule once_reachable_sound [OF assms])
  then have "writes (mem s) = (if init (mem s) \<or> storing (stacks s) then 1 else 0)"
    by (simp add: once_sound_def)
  moreover have "init (mem s)" if "Returned (Inr ()) \<in> set (stacks s t)"
    using once_soundD [OF sound that] by simp
  ultimately show ?thesis by simp
qed

text \<open>
  \<open>TryOnce::is_completed\<close>, on which \<open>StaticRoot::get\<close> and \<open>Drop for StaticRoot\<close> decide whether the
  cell may be read and has to be dropped.
\<close>

definition is_completed :: "try_once \<Rightarrow> bool" where
  "is_completed m = init m"

definition static_root_drops :: "try_once \<Rightarrow> bool" where
  "static_root_drops m = is_completed m"

lemma once_drop_exact:
  assumes "reachable once_code try_once_new s" and "stacks s = (\<lambda>_. [])"
  shows "static_root_drops (mem s) \<longleftrightarrow> writes (mem s) = 1"
  using once_reachable_sound [OF assms(1)] assms(2)
  by (simp add: once_sound_def storing_def static_root_drops_def is_completed_def)

section \<open>Publication of the cell\<close>

text \<open>
  The memory orderings of \<open>try_call\<close>. The cell is written with a plain access, under the mutex; a
  caller that finds the flag set outside the mutex reads the cell without taking it.
\<close>

fun once_access :: "tid \<Rightarrow> env \<Rightarrow> try_once \<Rightarrow> once_pc \<Rightarrow> access" where
  "once_access t c m LoadInit = AtomicLoad InitFlag Acquire"
| "once_access t c m LockMutex = AtomicRmw LockWord Acquire"
| "once_access t c m CheckInit = AtomicLoad InitFlag Relaxed"
| "once_access t c m CallInit = (case c of Fail e \<Rightarrow> NoSync | _ \<Rightarrow> ItemAccess)"
| "once_access t c m StoreInit = AtomicStore InitFlag Release"
| "once_access t c m (UnlockMutex r) = AtomicRmw LockWord Release"
| "once_access t c m (Returned r) = NoSync"

interpretation once_sync: synchronizing_lock once_code try_once_new mutex writes once_holds once_access
proof (unfold_locales, goal_cases)
  case 1
  show ?case by (simp add: try_once_new_def)
next
  case (4 p)
  then show ?case by (cases p) simp_all
next
  case (5 t c m p m' p')
  then show ?case by (cases p) (auto split: if_splits env.splits)
next
  case (6 t c m p m' p')
  then show ?case by (cases p) (auto split: if_splits env.splits)
next
  case (7 t c m p m' p')
  then show ?case by (cases p) (auto split: if_splits env.splits)
next
  case (8 t c m p m' p')
  then show ?case by (cases p) (auto split: if_splits)
next
  case (9 t c m p m' p')
  then show ?case by (cases p) (auto split: if_splits env.splits)
next
  case (10 t c m p m' p')
  then show ?case by (cases p) (auto split: if_splits env.splits)
next
  case (11 t c m p o')
  show ?case by (cases p) (auto split: env.splits)
next
  case (12 t c m p m' p')
  then show ?case by (cases p) (auto split: if_splits env.splits)
next
  case (13 t c m p m' p')
  then show ?case by (cases p) (auto split: if_splits env.splits)
qed simp_all

text \<open>The set flag carries the write of the cell, and so has every call seen it that returns \<open>Ok\<close>.\<close>

fun once_ok_pc :: "once_pc \<Rightarrow> bool" where
  "once_ok_pc (UnlockMutex r) = (r = Inr ())"
| "once_ok_pc (Returned r) = (r = Inr ())"
| "once_ok_pc p = False"

definition published :: "(try_once, once_pc) sys \<Rightarrow> views \<Rightarrow> bool" where
  "published s v \<longleftrightarrow>
     (init (mem s) \<longrightarrow> {..<item_accesses v} \<subseteq> carried v InitFlag) \<and>
     (\<forall>t. \<forall>q \<in> set (stacks s t). once_ok_pc q \<longrightarrow> {..<item_accesses v} \<subseteq> seen v t)"

lemma publishedD:
  "published s v \<Longrightarrow> init (mem s) \<Longrightarrow> {..<item_accesses v} \<subseteq> carried v InitFlag"
  "published s v \<Longrightarrow> q \<in> set (stacks s t) \<Longrightarrow> once_ok_pc q \<Longrightarrow> {..<item_accesses v} \<subseteq> seen v t"
  unfolding published_def by blast+

text \<open>The write happens only while the flag is clear, and then no call has returned \<open>Ok\<close>.\<close>

lemma once_no_ok:
  assumes "once_sound s" and "\<not> init (mem s)" and "q \<in> set (stacks s t)"
  shows "\<not> once_ok_pc q"
  using once_soundD [OF assms(1,3)] assms(2) by (cases q) auto

lemma published_write:
  assumes sound: "once_sound s" and stk: "stacks s t = CallInit # ps"
    and act: "try_call t c (mem s) CallInit = Some (m', p')"
  shows "published (s\<lparr>mem := m', stacks := (stacks s)(t := p' # ps)\<rparr>) v" (is "published ?s' v")
proof -
  have init: "\<not> init (mem s)" using once_soundD [OF sound, of CallInit t] stk by simp
  then have "\<not> init m'" and "\<not> once_ok_pc p'" using act by (auto split: env.splits)
  moreover have "\<not> once_ok_pc q" if "q \<in> set (stacks ?s' u)" for q u
    using that once_no_ok [OF sound init, of q u] stk \<open>\<not> once_ok_pc p'\<close> by (cases "u = t") auto
  ultimately show ?thesis by (auto simp: published_def)
qed

lemma published_other:
  assumes pub: "published s v" and stk: "stacks s t = p # ps" and p: "p \<noteq> CallInit"
    and act: "try_call t c (mem s) p = Some (m', p')"
    and held: "once_holds p \<Longrightarrow> {..<item_accesses v} \<subseteq> seen v t"
  shows "published (s\<lparr>mem := m', stacks := (stacks s)(t := p' # ps)\<rparr>) (observe (once_access t c (mem s) p) t v)"
    (is "published ?s' (observe ?a t v)")
proof -
  have "?a \<noteq> ItemAccess" using p by (cases p) auto
  then have n: "item_accesses (observe ?a t v) = item_accesses v" by (cases ?a) (simp_all add: Let_def)
  have grow: "seen v u \<subseteq> seen (observe ?a t v) u" for u
    using \<open>?a \<noteq> ItemAccess\<close> by (cases ?a) (auto simp: acquire_view_def Let_def)
  have flag: "{..<item_accesses v} \<subseteq> carried (observe ?a t v) InitFlag" if "init m'"
    using that act p held publishedD(1) [OF pub]
    by (cases p) (auto simp: acquire_view_def Let_def split: if_splits)
  have top: "{..<item_accesses v} \<subseteq> seen (observe ?a t v) t" if "once_ok_pc p'"
    using that act p held publishedD(1) [OF pub] publishedD(2) [OF pub, of p t] stk
    by (cases p) (auto simp: acquire_view_def Let_def split: if_splits)
  have "{..<item_accesses v} \<subseteq> seen (observe ?a t v) u" if q: "q \<in> set (stacks ?s' u)" "once_ok_pc q" for q u
  proof (cases "u = t \<and> q = p'")
    case True
    with top q show ?thesis by simp
  next
    case False
    then have "q \<in> set (stacks s u)" using q(1) stk by (auto split: if_splits)
    from publishedD(2) [OF pub this q(2)] grow show ?thesis by (rule subset_trans)
  qed
  with flag n show ?thesis by (simp add: published_def)
qed

lemma viewed_published: "viewed once_code once_access try_once_new s v \<Longrightarrow> published s v"
proof (induction rule: viewed.induct)
  case viewed_initial
  show ?case by (simp add: published_def try_once_new_def)
next
  case (viewed_step s v e s')
  have r: "reachable once_code try_once_new s" by (rule viewed_reachable [OF viewed_step.hyps(1)])
  from viewed_step.hyps(2) show ?case
  proof cases
    case (call t)
    with viewed_step.IH show ?thesis by (auto simp: published_def)
  next
    case (run t p ps c m' p')
    have "{..<item_accesses v} \<subseteq> seen v t" if "once_holds p"
      using once_sync.viewed_sync_inv [OF viewed_step.hyps(1)] that run(3)
      by (simp add: once_sync.sync_inv_def)
    with run published_write [OF once_reachable_sound [OF r], of t ps c m' p']
      published_other [OF viewed_step.IH run(3)] show ?thesis
      by (cases "p = CallInit") simp_all
  next
    case (return t p ps)
    with viewed_step.IH show ?thesis by (auto simp: published_def split: if_splits)
  qed
qed

section \<open>An example: a failure, then two racing calls\<close>

definition once_run :: "event list" where
  "once_run = [Call 1, Run 1 Normal, Run 1 Normal, Run 1 Normal, Run 1 (Fail EINTR), Run 1 Normal, Return 1,
     Call 1, Call 2, Run 1 Normal, Run 2 Normal, Run 2 Normal, Run 2 Normal, Run 2 Normal, Run 2 Normal,
     Run 2 Normal, Run 1 Normal, Run 1 Normal, Run 1 Normal]"

definition once_raced :: "(try_once, once_pc) sys" where
  "once_raced = \<lparr>mem = \<lparr>init = True, mutex = 0, writes = 1\<rparr>,
     stacks = (\<lambda>_. [])(2 := [Returned (Inr ())], 1 := [Returned (Inr ())]), live = 2\<rparr>"

lemma once_raced_reachable: "reachable once_code try_once_new once_raced"
  by (rule exec_all_reachable [where es = once_run])
    (simp add: once_run_def once_raced_def try_once_new_def init_sys_def max_live_def fun_upd_def cong: if_cong)

end
