(* ===== verification/Parker.thy ===== *)
theory Parker
  imports Futex_Lock
begin

text \<open>
  \<open>Parker\<close> and the uncontended path of \<open>ParkLock\<close> (\<open>signal_lock/src/park.rs\<close>). One thread, the
  owner of the \<open>Parker\<close>, parks until another thread has unparked it; the word of the futex is a
  token that \<open>unpark\<close> sets and \<open>park\<close> takes. The file is not compiled (it is no module of the
  crate) and \<open>ParkLock::raw_lock_contended\<close> breaks off after the test for recursion; what is written
  of it is modelled.
\<close>

section \<open>The operations\<close>

text \<open>The field \<open>futex\<close> of \<open>Parker\<close>: the word and the kernel's queue of sleepers, without an item.\<close>

type_synonym parker = "unit futex_lock"

datatype park_pc = TakeToken | ParkWait | ParkAsleep | ParkDone | ParkAborted futex_abort

datatype unpark_pc = SetToken | WakeOwner | UnparkDone | UnparkAborted futex_abort

text \<open>\<open>Futex::wait\<close> and \<open>Futex::wake_one\<close> are those of theory Futex\_Lock; where they return to.\<close>

fun wait_returns :: "unit futex_pc \<Rightarrow> park_pc" where
  "wait_returns (FutexWait v) = ParkWait"
| "wait_returns (FutexAsleep v) = ParkAsleep"
| "wait_returns (Aborted a) = ParkAborted a"
| "wait_returns p = TakeToken"

fun wake_returns :: "unit futex_pc \<Rightarrow> unpark_pc" where
  "wake_returns UnlockWake = WakeOwner"
| "wake_returns (Aborted a) = UnparkAborted a"
| "wake_returns p = UnparkDone"

fun park_act :: "tid \<Rightarrow> env \<Rightarrow> parker \<Rightarrow> park_pc \<Rightarrow> (parker \<times> park_pc) option" where
  "park_act t c m TakeToken = Some (m\<lparr>futex := 0\<rparr>, if futex m \<noteq> 0 then ParkDone else ParkWait)"
| "park_act t c m ParkWait = Some (apsnd wait_returns (futex_wait t c 0 m))"
| "park_act t c m ParkAsleep = map_option (apsnd wait_returns) (futex_asleep t c 0 m)"
| "park_act t c m p = None"

fun unpark_act :: "env \<Rightarrow> parker \<Rightarrow> unpark_pc \<Rightarrow> (parker \<times> unpark_pc) option" where
  "unpark_act c m SetToken = Some (m\<lparr>futex := 1\<rparr>, WakeOwner)"
| "unpark_act c m WakeOwner = map_option (apsnd wake_returns) (wake_one c m)"
| "unpark_act c m p = None"

text \<open>The documented answers of the environment are those of the futex calls.\<close>

fun park_allowed :: "park_pc \<Rightarrow> env \<Rightarrow> bool" where
  "park_allowed ParkWait c = futex_allowed (FutexWait 0 :: unit futex_pc) c"
| "park_allowed ParkAsleep c = futex_allowed (FutexAsleep 0 :: unit futex_pc) c"
| "park_allowed p c = (c = Normal)"

fun unpark_allowed :: "unpark_pc \<Rightarrow> env \<Rightarrow> bool" where
  "unpark_allowed WakeOwner c = futex_allowed (UnlockWake :: unit futex_pc) c"
| "unpark_allowed p c = (c = Normal)"

text \<open>
  \<open>ParkLock::raw_lock\<close> on the word of the lock: \<open>Ok\<close>, \<open>Err\<close>, or \<open>None\<close> where the source breaks off.
\<close>

definition park_raw_lock :: "tid \<Rightarrow> env \<Rightarrow> u32 \<Rightarrow> (signal_lock_error + unit) option \<times> u32" where
  "park_raw_lock t c w =
     (case compare_exchange_weak c 0 t w of
        (Inr prev, w') \<Rightarrow> (Some (Inr ()), w')
      | (Inl holder_tid, w') \<Rightarrow> (if t = holder_tid then Some (Inl Recursive) else None, w'))"

section \<open>Parking and unparking threads\<close>

text \<open>The owner's call of \<open>park\<close>, if it is in one, and the calls of \<open>unpark\<close> that have begun.\<close>

record parking =
  parker_of :: parker
  parking_pc :: "park_pc option"
  unparks :: "unpark_pc list"

definition parking_start :: parking where
  "parking_start = \<lparr>parker_of = futex_lock_new (), parking_pc = None, unparks = []\<rparr>"

inductive parking_step :: "tid \<Rightarrow> env \<Rightarrow> parking \<Rightarrow> parking \<Rightarrow> bool" for owner :: tid where
  park_call: "parking_pc s = None \<Longrightarrow>
    parking_step owner Normal s (s\<lparr>parking_pc := Some TakeToken\<rparr>)"
| park_run: "parking_pc s = Some p \<Longrightarrow> park_allowed p c \<Longrightarrow> park_act owner c (parker_of s) p = Some (m', p') \<Longrightarrow>
    parking_step owner c s (s\<lparr>parker_of := m', parking_pc := Some p'\<rparr>)"
| park_return: "parking_pc s = Some ParkDone \<Longrightarrow>
    parking_step owner Normal s (s\<lparr>parking_pc := None\<rparr>)"
| unpark_call: "parking_step owner Normal s (s\<lparr>unparks := unparks s @ [SetToken]\<rparr>)"
| unpark_run: "i < length (unparks s) \<Longrightarrow> unpark_allowed (unparks s ! i) c \<Longrightarrow>
    unpark_act c (parker_of s) (unparks s ! i) = Some (m', p') \<Longrightarrow>
    parking_step owner c s (s\<lparr>parker_of := m', unparks := (unparks s)[i := p']\<rparr>)"

inductive parking_reachable :: "tid \<Rightarrow> parking \<Rightarrow> bool" for owner :: tid where
  parking_initial: "parking_reachable owner parking_start"
| parking_next: "parking_reachable owner s \<Longrightarrow> parking_step owner c s s' \<Longrightarrow> parking_reachable owner s'"

section \<open>No unpark is lost\<close>

text \<open>
  Only the owner sleeps, and only in the wait of its call; if the token is there while it sleeps, an
  \<open>unpark\<close> is about to wake it.
\<close>

definition parking_inv :: "tid \<Rightarrow> parking \<Rightarrow> bool" where
  "parking_inv owner s \<longleftrightarrow>
     sleepers (parker_of s) \<subseteq> {owner} \<and>
     (sleepers (parker_of s) \<noteq> {} \<longrightarrow> parking_pc s = Some ParkAsleep) \<and>
     (sleepers (parker_of s) \<noteq> {} \<longrightarrow> futex (parker_of s) \<noteq> 0 \<longrightarrow> WakeOwner \<in> set (unparks s)) \<and>
     (\<forall>a. parking_pc s \<noteq> Some (ParkAborted a)) \<and> (\<forall>a. UnparkAborted a \<notin> set (unparks s))"

lemma set_update_keeps:
  assumes "x \<in> set xs" and "i < length xs" and "xs ! i \<noteq> x"
  shows "x \<in> set (xs[i := y])"
  using assms by (metis in_set_conv_nth length_list_update nth_list_update_neq)

lemma park_run_inv:
  assumes inv: "parking_inv owner s" and pc: "parking_pc s = Some p" and allowed: "park_allowed p c"
    and act: "park_act owner c (parker_of s) p = Some (m', p')"
  shows "parking_inv owner (s\<lparr>parker_of := m', parking_pc := Some p'\<rparr>)"
  using assms
  by (cases p)
    (auto simp: parking_inv_def futex_wait_def futex_asleep_def wait_failed_def Let_def
      split: if_splits env.splits)

lemma unpark_run_inv:
  assumes inv: "parking_inv owner s" and i: "i < length (unparks s)"
    and allowed: "unpark_allowed (unparks s ! i) c"
    and act: "unpark_act c (parker_of s) (unparks s ! i) = Some (m', p')"
  shows "parking_inv owner (s\<lparr>parker_of := m', unparks := (unparks s)[i := p']\<rparr>)"
proof (cases "unparks s ! i")
  case SetToken
  then show ?thesis
    using assms set_update_subset_insert [of "unparks s" i p'] set_update_memI [OF i, of p']
    by (auto simp: parking_inv_def)
next
  case WakeOwner
  then have "(\<exists>u \<in> sleepers (parker_of s). sleepers m' = sleepers (parker_of s) - {u}) \<or>
      sleepers m' = {} \<or> p' = WakeOwner \<and> m' = parker_of s"
    using allowed act by (cases c) (auto simp: wake_one_def split: if_splits)
  then have "sleepers m' = {} \<or> p' = WakeOwner \<and> m' = parker_of s"
    using inv unfolding parking_inv_def by blast
  moreover have "\<forall>a. p' \<noteq> UnparkAborted a"
    using WakeOwner allowed act by (auto simp: wake_one_def split: if_splits env.splits)
  moreover have "WakeOwner \<in> set ((unparks s)[i := WakeOwner])" using i by (rule set_update_memI)
  ultimately show ?thesis
    using inv set_update_subset_insert [of "unparks s" i p'] by (auto simp: parking_inv_def)
qed (use act in simp_all)

lemma parking_reachable_inv: "parking_reachable owner s \<Longrightarrow> parking_inv owner s"
proof (induction rule: parking_reachable.induct)
  case parking_initial
  show ?case by (simp add: parking_inv_def parking_start_def futex_lock_new_def)
next
  case (parking_next s c s')
  from parking_next.hyps(2) parking_next.IH show ?case
  proof cases
    case (park_run p m' p')
    with park_run_inv [OF parking_next.IH] show ?thesis by simp
  next
    case (unpark_run i m' p')
    with unpark_run_inv [OF parking_next.IH] show ?thesis by simp
  qed (auto simp: parking_inv_def)
qed

lemma unpark_not_lost:
  assumes "parking_reachable owner s" and "futex (parker_of s) \<noteq> 0" and "owner \<in> sleepers (parker_of s)"
  shows "WakeOwner \<in> set (unparks s)"
  using parking_reachable_inv [OF assms(1)] assms(2,3) by (auto simp: parking_inv_def)

section \<open>An unparked thread returns\<close>

definition quiet_parking :: "tid \<Rightarrow> parking \<Rightarrow> parking \<Rightarrow> bool" where
  "quiet_parking owner s s' \<longleftrightarrow> (\<exists>c. quiet c \<and> parking_step owner c s s')"

lemma park_takes_token:
  assumes "parking_pc s = Some TakeToken" and "futex (parker_of s) \<noteq> 0"
  shows "\<exists>s'. (quiet_parking owner)\<^sup>*\<^sup>* s s' \<and> parking_pc s' = Some ParkDone"
proof -
  have "quiet_parking owner s (s\<lparr>parker_of := (parker_of s)\<lparr>futex := 0\<rparr>, parking_pc := Some ParkDone\<rparr>)"
    unfolding quiet_parking_def using assms
    by (intro exI [of _ Normal]) (auto intro!: parking_step.park_run)
  then show ?thesis by (intro exI conjI) (rule r_into_rtranclp, simp, simp)
qed

lemma park_awake_returns:
  assumes "parking_pc s = Some p" and "p = ParkWait \<or> p = ParkAsleep \<and> owner \<notin> sleepers (parker_of s)"
    and "futex (parker_of s) \<noteq> 0"
  shows "\<exists>s'. (quiet_parking owner)\<^sup>*\<^sup>* s s' \<and> parking_pc s' = Some ParkDone"
proof -
  let ?s1 = "s\<lparr>parking_pc := Some TakeToken\<rparr>"
  have "parking_step owner Normal s (s\<lparr>parker_of := parker_of s, parking_pc := Some TakeToken\<rparr>)"
    using assms
    by (intro parking_step.park_run) (auto simp: futex_wait_def futex_asleep_def wait_failed_def Let_def)
  then have "quiet_parking owner s ?s1"
    unfolding quiet_parking_def by (intro exI [of _ Normal]) simp
  moreover obtain s' where "(quiet_parking owner)\<^sup>*\<^sup>* ?s1 s'" "parking_pc s' = Some ParkDone"
    using park_takes_token [of ?s1 owner] assms(3) by auto
  ultimately show ?thesis by (meson converse_rtranclp_into_rtranclp)
qed

lemma park_returns:
  assumes r: "parking_reachable owner s" and pc: "parking_pc s \<noteq> None" and token: "futex (parker_of s) \<noteq> 0"
  shows "\<exists>s'. (quiet_parking owner)\<^sup>*\<^sup>* s s' \<and> parking_pc s' = Some ParkDone"
proof -
  have inv: "parking_inv owner s" by (rule parking_reachable_inv [OF r])
  from pc obtain p where p: "parking_pc s = Some p" by blast
  consider "p = TakeToken" | "p = ParkDone" | "p = ParkWait \<or> p = ParkAsleep \<and> owner \<notin> sleepers (parker_of s)"
    | (asleep) "p = ParkAsleep" "owner \<in> sleepers (parker_of s)"
    using inv p by (cases p) (auto simp: parking_inv_def)
  then show ?thesis
  proof cases
    case asleep
    let ?m = "(parker_of s)\<lparr>sleepers := {}\<rparr>"
    from unpark_not_lost [OF r token asleep(2)] obtain i
      where i: "i < length (unparks s)" "unparks s ! i = WakeOwner" by (auto simp: in_set_conv_nth)
    have single: "sleepers (parker_of s) = {owner}" using inv asleep(2) by (auto simp: parking_inv_def)
    let ?s1 = "s\<lparr>parker_of := ?m, unparks := (unparks s)[i := UnparkDone]\<rparr>"
    have "parking_step owner (Wake owner) s ?s1"
      using i single by (intro parking_step.unpark_run) (auto simp: wake_one_def)
    then have "quiet_parking owner s ?s1"
      unfolding quiet_parking_def by (intro exI [of _ "Wake owner"]) simp
    moreover obtain s' where "(quiet_parking owner)\<^sup>*\<^sup>* ?s1 s'" "parking_pc s' = Some ParkDone"
      using park_awake_returns [of ?s1 p owner] p asleep token by auto
    ultimately show ?thesis by (meson converse_rtranclp_into_rtranclp)
  qed (use p token park_takes_token park_awake_returns in blast)+
qed

section \<open>An example: unparked in its sleep\<close>

text \<open>The owner, thread 1, has gone to sleep, and an \<open>unpark\<close> has set the token but not woken it yet.\<close>

definition parked_unparked :: parking where
  "parked_unparked =
     \<lparr>parker_of = \<lparr>item = (), futex = 1, sleepers = {1}\<rparr>, parking_pc = Some ParkAsleep,
      unparks = [WakeOwner]\<rparr>"

lemma parked_unparked_reachable: "parking_reachable 1 parked_unparked"
proof -
  let ?s = "\<lambda>w q p us. \<lparr>parker_of = \<lparr>item = (), futex = w, sleepers = q\<rparr>, parking_pc = p, unparks = us\<rparr>"
  have start: "parking_start = ?s 0 {} None []" by (simp add: parking_start_def futex_lock_new_def)
  have s1: "parking_step 1 Normal (?s 0 {} None []) (?s 0 {} (Some TakeToken) [])"
    using park_call [of "?s 0 {} None []" 1] by simp
  have s2: "parking_step 1 Normal (?s 0 {} (Some TakeToken) []) (?s 0 {} (Some ParkWait) [])"
    using park_run [of "?s 0 {} (Some TakeToken) []" TakeToken Normal 1] by simp
  have s3: "parking_step 1 Normal (?s 0 {} (Some ParkWait) []) (?s 0 {1} (Some ParkAsleep) [])"
    using park_run [of "?s 0 {} (Some ParkWait) []" ParkWait Normal 1] by (simp add: futex_wait_def)
  have s4: "parking_step 1 Normal (?s 0 {1} (Some ParkAsleep) []) (?s 0 {1} (Some ParkAsleep) [SetToken])"
    using unpark_call [of 1 "?s 0 {1} (Some ParkAsleep) []"] by simp
  have s5: "parking_step 1 Normal (?s 0 {1} (Some ParkAsleep) [SetToken]) parked_unparked"
    using unpark_run [of 0 "?s 0 {1} (Some ParkAsleep) [SetToken]" Normal _ _ 1] by (simp add: parked_unparked_def)
  have "parking_reachable 1 (?s 0 {} None [])" by (rule parking_initial [of 1, unfolded start])
  then show ?thesis by (rule parking_next [OF parking_next [OF parking_next [OF parking_next [OF parking_next
    [OF _ s1] s2] s3] s4] s5])
qed

text \<open>
  An \<open>unpark\<close> is not lost: while the token is set, a sleeping owner has an \<open>unpark\<close> that is about to wake
  it, and a call of \<open>park\<close> comes to its return by quiet steps.
\<close>

theorem park_returns_after_unpark:
  assumes "parking_reachable owner s" and "futex (parker_of s) \<noteq> 0"
  shows "(owner \<in> sleepers (parker_of s) \<longrightarrow> WakeOwner \<in> set (unparks s)) \<and>
    (parking_pc s \<noteq> None \<longrightarrow> (\<exists>s'. (quiet_parking owner)\<^sup>*\<^sup>* s s' \<and> parking_pc s' = Some ParkDone))"
  using unpark_not_lost [OF assms] park_returns [OF assms(1) _ assms(2)] by blast

lemma parked_unparked_returns: "\<exists>s'. (quiet_parking 1)\<^sup>*\<^sup>* parked_unparked s' \<and> parking_pc s' = Some ParkDone"
  using park_returns_after_unpark [OF parked_unparked_reachable] by (simp add: parked_unparked_def)

end
