(* ===== verification/Pipe_Fences.thy ===== *)
theory Pipe_Fences
  imports Prelude
begin

text \<open>
  Why sequential consistency may be assumed for \<open>PipeLock\<close> (the argument in the comment of
  \<open>signal_lock/src/pipe.rs\<close>). The accesses to \<open>waiters\<close> and the locker's failed test of \<open>holder_tid\<close>
  are relaxed; the two \<open>SeqCst\<close> fences have to exclude the execution in which a locker waits for a
  holder that does not see it. An execution is given by what the two reads read and by the order of
  the fences; the rule of C++20 for such fences is a test on it.
\<close>

section \<open>Accesses of one locker and one unlocker\<close>

datatype access =
    IncWaiters | LockFence | TestHolder
  | TakeLock | ReleaseLock | UnlockFence | TestWaiters

text \<open>Program order: the positions of the accesses in the code of the two threads.\<close>

definition locker :: "access list" where
  "locker = [IncWaiters, LockFence, TestHolder]"

definition unlocker :: "access list" where
  "unlocker = [TakeLock, ReleaseLock, UnlockFence, TestWaiters]"

fun precedes :: "'a list \<Rightarrow> 'a \<Rightarrow> 'a \<Rightarrow> bool" where
  "precedes [] a b = False"
| "precedes (x # xs) a b = (x = a \<and> b \<in> set xs \<or> precedes xs a b)"

definition sequenced_before :: "access \<Rightarrow> access \<Rightarrow> bool" where
  "sequenced_before a b \<longleftrightarrow> precedes locker a b \<or> precedes unlocker a b"

text \<open>The modification orders of the two variables; \<open>None\<close> is the initial value 0.\<close>

definition holder_order :: "access option list" where
  "holder_order = [None, Some TakeLock, Some ReleaseLock]"

definition waiters_order :: "access option list" where
  "waiters_order = [None, Some IncWaiters]"

section \<open>Executions\<close>

record execution =
  holder_read :: "access option"
  waiters_read :: "access option"
  lock_fence_first :: bool

definition well_formed :: "execution \<Rightarrow> bool" where
  "well_formed ex \<longleftrightarrow> holder_read ex \<in> set holder_order \<and> waiters_read ex \<in> set waiters_order"

text \<open>A read is coherence-ordered before every write that follows the one it reads from.\<close>

definition coherence_before :: "execution \<Rightarrow> access \<Rightarrow> access \<Rightarrow> bool" where
  "coherence_before ex r w \<longleftrightarrow>
     r = TestHolder \<and> precedes holder_order (holder_read ex) (Some w) \<or>
     r = TestWaiters \<and> precedes waiters_order (waiters_read ex) (Some w)"

text \<open>The total order of the two \<open>SeqCst\<close> fences.\<close>

definition fence_before :: "execution \<Rightarrow> access \<Rightarrow> access \<Rightarrow> bool" where
  "fence_before ex f g \<longleftrightarrow>
     f = LockFence \<and> g = UnlockFence \<and> lock_fence_first ex \<or>
     f = UnlockFence \<and> g = LockFence \<and> \<not> lock_fence_first ex"

definition accesses :: "access list" where
  "accesses = locker @ unlocker"

text \<open>
  C++20: if a \<open>SeqCst\<close> fence happens before an access, that access is coherence-ordered before another
  one, and the latter happens before a \<open>SeqCst\<close> fence, then the first fence precedes the second.
  \<open>fences\<close> are the fences that the code has.
\<close>

definition consistent :: "access list \<Rightarrow> execution \<Rightarrow> bool" where
  "consistent fences ex \<longleftrightarrow> well_formed ex \<and>
     list_all (\<lambda>f. list_all (\<lambda>g. list_all (\<lambda>r. list_all (\<lambda>w.
       sequenced_before f r \<and> coherence_before ex r w \<and> sequenced_before w g \<longrightarrow> fence_before ex f g)
         accesses) accesses) fences) fences"

text \<open>The locker finds the lock held and waits, the unlocker sees no waiter and does not wake.\<close>

definition lost_wakeup :: "execution \<Rightarrow> bool" where
  "lost_wakeup ex \<longleftrightarrow> holder_read ex = Some TakeLock \<and> waiters_read ex = None"

lemmas fence_simps = consistent_def well_formed_def coherence_before_def fence_before_def accesses_def
  sequenced_before_def locker_def unlocker_def holder_order_def waiters_order_def lost_wakeup_def

lemma fences_exclude: "consistent [LockFence, UnlockFence] ex \<Longrightarrow> \<not> lost_wakeup ex"
  by (auto simp: fence_simps)

text \<open>With only one of the fences, the bad execution is consistent.\<close>

lemma fence_needed:
  "consistent [LockFence] \<lparr>holder_read = Some TakeLock, waiters_read = None, lock_fence_first = b\<rparr>"
  "consistent [UnlockFence] \<lparr>holder_read = Some TakeLock, waiters_read = None, lock_fence_first = b\<rparr>"
  by (simp_all add: fence_simps)

end
