(* ===== verification/Thread_Ids.thy ===== *)
theory Thread_Ids
  imports Futex_Lock
begin

text \<open>
  The thread ids that the locks compare (\<open>signal_lock/src/lib.rs\<close>): \<open>gettid\<close> through a faster function of
  the C library if the constructor \<open>make_gettid_faster\<close> has found one, and the counter that replaces it
  under loom and miri.
\<close>

section \<open>Atomic function pointers\<close>

text \<open>
  The macro \<open>atomic_fn\<close>: a function is stored as its address, and the null pointer is none.
\<close>

definition atomic_fn_null :: usize where
  "atomic_fn_null = 0"

definition atomic_fn_load :: "usize \<Rightarrow> usize option" where
  "atomic_fn_load ptr = (if ptr = 0 then None else Some ptr)"

definition atomic_fn_store :: "usize \<Rightarrow> usize \<Rightarrow> usize" where
  "atomic_fn_store f ptr = f"

section \<open>The fast \<open>gettid\<close>\<close>

text \<open>
  \<open>make_gettid_faster\<close>: \<open>ptr\<close> is the address that \<open>dlvsym\<close> finds or 0, \<open>code\<close> what the function at an
  address returns for a pthread handle; \<open>raw\<close> and \<open>self\<close> are the results of \<open>gettid\<close> and
  \<open>pthread_self\<close> in the calling thread, \<open>fn\<close> is the static \<open>PTHREAD_GETTID_NP\<close>.
\<close>

definition make_gettid_faster :: "(usize \<Rightarrow> nat \<Rightarrow> int) \<Rightarrow> usize \<Rightarrow> int \<Rightarrow> nat \<Rightarrow> usize \<Rightarrow> usize" where
  "make_gettid_faster code ptr raw self fn =
     (if ptr \<noteq> 0 then
        let tid = raw; new_tid = code ptr self in
        if tid = new_tid then atomic_fn_store ptr fn else fn
      else fn)"

definition gettid :: "(usize \<Rightarrow> nat \<Rightarrow> int) \<Rightarrow> usize \<Rightarrow> int \<Rightarrow> nat \<Rightarrow> tid" where
  "gettid code fn raw self =
     (case atomic_fn_load fn of
        Some f \<Rightarrow> word_of_int (code f self)
      | None \<Rightarrow> word_of_int raw)"

text \<open>Linux thread ids are positive and fit into the mask of the futex word.\<close>

lemma tid_of_int_inject:
  assumes "0 \<le> i" and "i < 2 ^ 30" and "0 \<le> j" and "j < 2 ^ 30"
  shows "(word_of_int i :: tid) = word_of_int j \<longleftrightarrow> i = j"
  using assms by (simp add: word_of_int_eq_iff take_bit_int_eq_self)

lemma valid_tid_of_int:
  assumes "0 < i" and "i < 2 ^ 30"
  shows "valid_tid (word_of_int i)"
proof -
  have "(word_of_int i :: u32) AND FUTEX_TID_MASK = take_bit 30 (word_of_int i)"
    by (simp add: take_bit_eq_mask FUTEX_TID_MASK_def mask_eq_exp_minus_1)
  also have "\<dots> = word_of_int (take_bit 30 i)" by (rule take_bit_of_int)
  also have "\<dots> = word_of_int i" using assms by (simp add: take_bit_int_eq_self)
  finally show ?thesis
    using assms tid_of_int_inject [of i 0] by (simp add: valid_tid_def)
qed

lemma gettid_choice:
  assumes "\<And>f. ptr = f \<Longrightarrow> f \<noteq> 0 \<Longrightarrow> code f (self t0) = raw t0 \<Longrightarrow> code f (self t) = raw t"
  shows "gettid code (make_gettid_faster code ptr (raw t0) (self t0) atomic_fn_null) (raw t) (self t) =
    word_of_int (raw t)"
  using assms
  by (auto simp: make_gettid_faster_def gettid_def atomic_fn_load_def atomic_fn_store_def atomic_fn_null_def
      Let_def)

text \<open>
  Whether or not a faster function was found and accepted, the locks see the kernel's thread id of the
  calling thread, which is valid for the futex word and differs from every other thread's, provided
  that the function is right for a thread if it was right for the thread that tested it.
\<close>

lemma gettid_correct:
  assumes "\<And>f. ptr = f \<Longrightarrow> f \<noteq> 0 \<Longrightarrow> code f (self t0) = raw t0 \<Longrightarrow> code f (self t) = raw t"
    and "\<And>f. ptr = f \<Longrightarrow> f \<noteq> 0 \<Longrightarrow> code f (self t0) = raw t0 \<Longrightarrow> code f (self u) = raw u"
    and "0 < raw t" and "raw t < 2 ^ 30" and "0 < raw u" and "raw u < 2 ^ 30"
  defines "fn \<equiv> make_gettid_faster code ptr (raw t0) (self t0) atomic_fn_null"
  shows "gettid code fn (raw t) (self t) = word_of_int (raw t) \<and> valid_tid (gettid code fn (raw t) (self t)) \<and>
    (gettid code fn (raw t) (self t) = gettid code fn (raw u) (self u) \<longleftrightarrow> raw t = raw u)"
proof -
  have "gettid code fn (raw t) (self t) = word_of_int (raw t)"
    unfolding fn_def by (rule gettid_choice) (rule assms(1))
  moreover have "gettid code fn (raw u) (self u) = word_of_int (raw u)"
    unfolding fn_def by (rule gettid_choice) (rule assms(2))
  ultimately show ?thesis
    using assms(3-6) valid_tid_of_int tid_of_int_inject by simp
qed

section \<open>Other systems\<close>

text \<open>
  Elsewhere \<open>gettid\<close> is the system's function itself: \<open>gettid\<close> with another C library on Linux,
  \<open>pthread_getthreadid_np\<close> on FreeBSD, both a positive \<open>c_int\<close> that is converted to \<open>u32\<close>. (The variant of
  macOS does not compile.) \<open>PipeLock\<close> compares all 32 bits.
\<close>

definition plain_gettid :: "int \<Rightarrow> tid" where
  "plain_gettid raw = word_of_int raw"

lemma plain_gettid_distinct:
  assumes "0 < i" and "i < 2 ^ 31" and "0 < j" and "j < 2 ^ 31"
  shows "plain_gettid i \<noteq> 0 \<and> (plain_gettid i = plain_gettid j \<longleftrightarrow> i = j)"
proof -
  have inj: "(word_of_int a :: tid) = word_of_int b \<longleftrightarrow> a = b" if "0 \<le> a" "a < 2 ^ 31" "0 \<le> b" "b < 2 ^ 31" for a b
    using that by (simp add: word_of_int_eq_iff take_bit_int_eq_self)
  from inj [of i 0] inj [of i j] assms show ?thesis by (simp add: plain_gettid_def)
qed

lemma plain_gettid_valid: "0 < i \<Longrightarrow> i < 2 ^ 30 \<Longrightarrow> valid_tid (plain_gettid i)"
  unfolding plain_gettid_def by (rule valid_tid_of_int)

section \<open>The thread ids of loom and miri\<close>

text \<open>\<open>NEXT_TID\<close> and the thread-local \<open>TID\<close>, which is initialized at its first use.\<close>

record loom_tids =
  NEXT_TID :: u32
  TID :: "nat \<rightharpoonup> u32"

definition loom_tids_start :: loom_tids where
  "loom_tids_start = \<lparr>NEXT_TID = 1, TID = (\<lambda>_. None)\<rparr>"

definition thread_local_tid :: "nat \<Rightarrow> loom_tids \<Rightarrow> u32 \<times> loom_tids" where
  "thread_local_tid th st =
     (case TID st th of
        Some tid \<Rightarrow> (tid, st)
      | None \<Rightarrow> (NEXT_TID st, \<lparr>NEXT_TID = NEXT_TID st + 1, TID = (TID st)(th \<mapsto> NEXT_TID st)\<rparr>))"

definition loom_gettid :: "nat \<Rightarrow> loom_tids \<Rightarrow> (panic + tid) \<times> loom_tids" where
  "loom_gettid th st =
     (case thread_local_tid th st of
        (tid, st') \<Rightarrow> (if tid AND FUTEX_TID_MASK \<noteq> tid then Inl ExplicitPanic else Inr tid, st'))"

fun loom_calls :: "nat list \<Rightarrow> loom_tids \<Rightarrow> loom_tids" where
  "loom_calls [] st = st"
| "loom_calls (th # ths) st = loom_calls ths (snd (loom_gettid th st))"

text \<open>The ids handed out are the numbers below the counter, one for each thread.\<close>

definition loom_ok :: "loom_tids \<Rightarrow> bool" where
  "loom_ok st \<longleftrightarrow> finite (dom (TID st)) \<and>
     (card (dom (TID st)) < 2 ^ 30 \<longrightarrow>
        unat (NEXT_TID st) = Suc (card (dom (TID st))) \<and> inj_on (TID st) (dom (TID st)) \<and>
        (\<forall>th tid. TID st th = Some tid \<longrightarrow> 0 < unat tid \<and> unat tid < unat (NEXT_TID st)))"

lemma loom_ok_step:
  assumes "loom_ok st"
  shows "loom_ok (snd (thread_local_tid th st))"
proof (cases "TID st th")
  case (Some tid)
  with assms show ?thesis by (simp add: thread_local_tid_def)
next
  case None
  let ?n = "NEXT_TID st" and ?d = "card (dom (TID st))"
  have fin: "finite (dom (TID st))" using assms by (simp add: loom_ok_def)
  have d: "card (insert th (dom (TID st))) = Suc ?d" using fin None by (simp add: domIff)
  show ?thesis
  proof (cases "Suc ?d < 2 ^ 30")
    case True
    then have old: "unat ?n = Suc ?d" "inj_on (TID st) (dom (TID st))"
      "\<And>u tid. TID st u = Some tid \<Longrightarrow> 0 < unat tid \<and> unat tid < unat ?n"
      using assms by (auto simp: loom_ok_def)
    have next1: "unat (?n + 1) = Suc (unat ?n)"
    proof -
      have "unat ?n + 1 < 2 ^ 32" using old(1) True by simp
      then show ?thesis by (simp add: unat_word_ariths(1))
    qed
    have "inj_on ((TID st)(th \<mapsto> ?n)) (insert th (dom (TID st)))"
    proof (rule inj_onI)
      fix u v
      assume u: "u \<in> insert th (dom (TID st))" and v: "v \<in> insert th (dom (TID st))"
        and eq: "((TID st)(th \<mapsto> ?n)) u = ((TID st)(th \<mapsto> ?n)) v"
      consider "u = th" "v = th" | "u = th" "v \<noteq> th" | "u \<noteq> th" "v = th" | "u \<noteq> th" "v \<noteq> th" by blast
      then show "u = v"
        by cases (use u v eq old(3) [of u ?n] old(3) [of v ?n] inj_onD [OF old(2), of u v] in auto)
    qed
    moreover have "0 < unat tid \<and> unat tid < unat (?n + 1)" if "((TID st)(th \<mapsto> ?n)) u = Some tid" for u tid
      using that old(1) old(3) [of u tid] next1 by (auto split: if_splits)
    ultimately show ?thesis
      using None fin d old(1) next1 by (simp add: loom_ok_def thread_local_tid_def)
  next
    case False
    with None fin d show ?thesis by (simp add: loom_ok_def thread_local_tid_def)
  qed
qed

lemma loom_ok_calls: "loom_ok st \<Longrightarrow> loom_ok (loom_calls ths st)"
  by (induction ths arbitrary: st)
    (simp_all add: loom_gettid_def loom_ok_step split: prod.split, metis loom_ok_step snd_conv)

lemma loom_dom: "dom (TID (loom_calls ths st)) = dom (TID st) \<union> set ths"
proof (induction ths arbitrary: st)
  case (Cons th ths)
  have "dom (TID (snd (loom_gettid th st))) = insert th (dom (TID st))"
    by (auto simp: loom_gettid_def thread_local_tid_def split: option.splits)
  with Cons.IH [of "snd (loom_gettid th st)"] show ?case by simp
qed simp

text \<open>
  While fewer than \<open>2 ^ 30\<close> threads have asked, every thread keeps an id of its own that is valid for
  the futex word, and no call panics.
\<close>

lemma loom_tids_unique:
  assumes few: "card (set ths) < 2 ^ 30" and th: "th \<in> set ths"
  defines "st \<equiv> loom_calls ths loom_tids_start"
  shows "\<exists>tid. loom_gettid th st = (Inr tid, st) \<and> valid_tid tid \<and>
    (\<forall>u \<in> set ths. fst (loom_gettid u st) = Inr tid \<longrightarrow> u = th)"
proof -
  have dom: "dom (TID st) = set ths" by (simp add: st_def loom_dom loom_tids_start_def)
  have "loom_ok loom_tids_start" by (simp add: loom_ok_def loom_tids_start_def)
  then have "loom_ok st" unfolding st_def by (rule loom_ok_calls)
  with few have ok: "unat (NEXT_TID st) = Suc (card (set ths))" "inj_on (TID st) (set ths)"
    "\<And>u tid. TID st u = Some tid \<Longrightarrow> 0 < unat tid \<and> unat tid < unat (NEXT_TID st)"
    unfolding loom_ok_def dom by blast+
  have valid: "valid_tid tid" if "TID st u = Some tid" for u tid
  proof -
    have "0 < uint tid" and "uint tid < 2 ^ 30"
    proof -
      have "0 < unat tid" and "unat tid < 2 ^ 30" using ok(3) [OF that] ok(1) few by linarith+
      then have "0 < int (unat tid)" and "int (unat tid) < int (2 ^ 30)"
        by (simp_all only: of_nat_less_iff of_nat_0_less_iff)
      then show "0 < uint tid" and "uint tid < 2 ^ 30" by simp_all
    qed
    with valid_tid_of_int [of "uint tid"] show ?thesis by simp
  qed
  have call: "loom_gettid u st = (Inr tid, st)" if "TID st u = Some tid" for u tid
    using valid [OF that] by (simp add: loom_gettid_def thread_local_tid_def that valid_tid_def)
  obtain tid where tid: "TID st th = Some tid" using dom th by blast
  have "u = th" if u: "u \<in> set ths" and same: "fst (loom_gettid u st) = Inr tid" for u
  proof -
    obtain tid' where "TID st u = Some tid'" using dom u by blast
    with call [OF this] same tid have "TID st u = TID st th" by simp
    with ok(2) u th show ?thesis by (auto dest: inj_onD)
  qed
  with call [OF tid] valid [OF tid] show ?thesis by blast
qed

end
