(* ===== verification/Stderr_Writer.thy ===== *)
theory Stderr_Writer
  imports Prelude
begin

text \<open>
  The buffered writer to standard error that \<open>abort_fmt\<close> uses (\<open>StderrWriter\<close> in
  \<open>signal_lock/src/lib.rs\<close>). The file is a parameter: \<open>write_all file bytes\<close> is whether all bytes could
  be written, and the file afterwards.
\<close>

type_synonym byte = "8 word"

definition capacity :: nat where
  "capacity = 1024"

text \<open>\<open>Cursor<[u8; 1024]>\<close> with its position, and the file.\<close>

record 'f stderr_writer =
  array :: "byte list"
  position :: nat
  out :: 'f

definition stderr_writer_new :: "'f \<Rightarrow> 'f stderr_writer" where
  "stderr_writer_new f = \<lparr>array = replicate capacity 0, position = 0, out = f\<rparr>"

text \<open>
  \<open>Cursor::write_all\<close>: copies at the position as much as fits, and fails when that is not everything.
\<close>

definition cursor_write_all :: "byte list \<Rightarrow> 'f stderr_writer \<Rightarrow> bool \<times> 'f stderr_writer" where
  "cursor_write_all s w =
     (let part = take (length (array w) - position w) s in
      (length part = length s,
       w\<lparr>array := take (position w) (array w) @ part @ drop (position w + length part) (array w),
         position := position w + length part\<rparr>))"

definition flush ::
    "('f \<Rightarrow> byte list \<Rightarrow> bool \<times> 'f) \<Rightarrow> 'f stderr_writer \<Rightarrow> bool \<times> 'f stderr_writer" where
  "flush write_all w =
     (let (res, f) = write_all (out w) (take (position w) (array w)) in
      (res, w\<lparr>position := 0, out := f\<rparr>))"

definition write_str ::
    "('f \<Rightarrow> byte list \<Rightarrow> bool \<times> 'f) \<Rightarrow> byte list \<Rightarrow> 'f stderr_writer \<Rightarrow> bool \<times> 'f stderr_writer" where
  "write_str write_all s w =
     (if length s < length (array w) - position w then cursor_write_all s w
      else
        (case flush write_all w of
           (False, w1) \<Rightarrow> (False, w1)
         | (True, w1) \<Rightarrow>
             if length s < length (array w1) then cursor_write_all s w1
             else (case write_all (out w1) s of (res, f) \<Rightarrow> (res, w1\<lparr>out := f\<rparr>))))"

text \<open>\<open>std::fmt::write\<close> hands the pieces of the message to \<open>write_str\<close> until one fails.\<close>

fun fmt_write ::
    "('f \<Rightarrow> byte list \<Rightarrow> bool \<times> 'f) \<Rightarrow> byte list list \<Rightarrow> 'f stderr_writer \<Rightarrow> bool \<times> 'f stderr_writer" where
  "fmt_write write_all [] w = (True, w)"
| "fmt_write write_all (s # ss) w =
     (case write_str write_all s w of
        (False, w1) \<Rightarrow> (False, w1)
      | (True, w1) \<Rightarrow> fmt_write write_all ss w1)"

definition newline :: byte where
  "newline = 10"

text \<open>
  \<open>abort_fmt\<close> up to the abort: after the message a newline, whose result is ignored, and a flush.
\<close>

definition abort_fmt :: "('f \<Rightarrow> byte list \<Rightarrow> bool \<times> 'f) \<Rightarrow> byte list list \<Rightarrow> 'f \<Rightarrow> 'f" where
  "abort_fmt write_all args f =
     (case fmt_write write_all args (stderr_writer_new f) of
        (False, w1) \<Rightarrow> out w1
      | (True, w1) \<Rightarrow> out (snd (flush write_all (snd (write_str write_all [newline] w1)))))"

section \<open>What reaches the file\<close>

definition writer_ok :: "'f stderr_writer \<Rightarrow> bool" where
  "writer_ok w \<longleftrightarrow> length (array w) = capacity \<and> position w < capacity"

definition pending :: "'f stderr_writer \<Rightarrow> byte list" where
  "pending w = take (position w) (array w)"

lemma capacity_pos: "0 < capacity"
  by (simp add: capacity_def)

lemma writer_ok_new: "writer_ok (stderr_writer_new f)" "pending (stderr_writer_new f) = []" "out (stderr_writer_new f) = f"
  by (simp_all add: writer_ok_def stderr_writer_new_def capacity_pos pending_def)

definition cursor_written :: "byte list \<Rightarrow> 'f stderr_writer \<Rightarrow> 'f stderr_writer" where
  "cursor_written s w =
     w\<lparr>array := take (position w) (array w) @ s @ drop (position w + length s) (array w),
       position := position w + length s\<rparr>"

lemma cursor_write_fits:
  assumes "writer_ok w" and "length s < capacity - position w"
  shows "cursor_write_all s w = (True, cursor_written s w)"
    and "writer_ok (cursor_written s w)" and "pending (cursor_written s w) = pending w @ s"
    and "out (cursor_written s w) = out w"
  using assms by (auto simp: cursor_write_all_def cursor_written_def writer_ok_def pending_def Let_def)

text \<open>
  A file that records every successful call: its contents are the concatenation of the calls.
\<close>

definition append_file :: "byte list list \<Rightarrow> byte list \<Rightarrow> bool \<times> byte list list" where
  "append_file f s = (True, f @ [s])"

lemma flush_append:
  "flush append_file w = (True, w\<lparr>position := 0, out := out w @ [pending w]\<rparr>)"
  by (simp add: flush_def append_file_def pending_def)

text \<open>\<open>write_str\<close> loses no byte: what has been written and what is pending grows by the string.\<close>

lemma write_str_append:
  assumes "writer_ok w"
  obtains w' where "write_str append_file s w = (True, w')" and "writer_ok w'"
    and "concat (out w') @ pending w' = concat (out w) @ pending w @ s"
    and "length (pending w) + length s < capacity \<Longrightarrow> out w' = out w"
proof (cases "length s < length (array w) - position w")
  case True
  with assms have fits: "length s < capacity - position w" by (simp add: writer_ok_def)
  note cur = cursor_write_fits [OF assms fits]
  show thesis
    by (rule that [of "cursor_written s w"]) (use True cur in \<open>simp_all add: write_str_def\<close>)
next
  case False
  let ?w1 = "w\<lparr>position := 0, out := out w @ [pending w]\<rparr>"
  have ok1: "writer_ok ?w1" using assms by (simp add: writer_ok_def)
  have long: "\<not> length (pending w) + length s < capacity"
    using False assms by (simp add: writer_ok_def pending_def)
  show thesis
  proof (cases "length s < length (array w)")
    case short: True
    with assms have "length s < capacity - position ?w1" by (simp add: writer_ok_def)
    note cur = cursor_write_fits [OF ok1 this]
    have "pending ?w1 = []" by (simp add: pending_def)
    show thesis
      by (rule that [of "cursor_written s ?w1"]) (use False short cur long \<open>pending ?w1 = []\<close> in \<open>simp_all add: write_str_def flush_append\<close>)
  next
    case big: False
    show thesis
      by (rule that [of "?w1\<lparr>out := out ?w1 @ [s]\<rparr>"])
        (use False big ok1 long in \<open>simp_all add: write_str_def flush_append append_file_def writer_ok_def pending_def\<close>)
  qed
qed

lemma fmt_write_append:
  assumes "writer_ok w"
  obtains w' where "fmt_write append_file ss w = (True, w')" and "writer_ok w'"
    and "concat (out w') @ pending w' = concat (out w) @ pending w @ concat ss"
    and "length (pending w) + length (concat ss) < capacity \<Longrightarrow> out w' = out w"
  using assms
proof (induction ss arbitrary: w thesis)
  case (Cons s ss)
  obtain w1 where w1: "write_str append_file s w = (True, w1)" "writer_ok w1"
    "concat (out w1) @ pending w1 = concat (out w) @ pending w @ s"
    "length (pending w) + length s < capacity \<Longrightarrow> out w1 = out w"
    using write_str_append [OF Cons.prems(2)] by metis
  obtain w2 where w2: "fmt_write append_file ss w1 = (True, w2)" "writer_ok w2"
    "concat (out w2) @ pending w2 = concat (out w1) @ pending w1 @ concat ss"
    "length (pending w1) + length (concat ss) < capacity \<Longrightarrow> out w2 = out w1"
    using Cons.IH [OF _ w1(2)] by metis
  have "out w2 = out w" if "length (pending w) + length (concat (s # ss)) < capacity"
  proof -
    have "out w1 = out w" using that w1(4) by simp
    with w1(3) have "length (pending w1) = length (pending w) + length s" by simp
    with that w2(4) \<open>out w1 = out w\<close> show ?thesis by simp
  qed
  then show ?case
    using Cons.prems(1) [of w2] w1 w2 by (simp add: append_assoc [symmetric] del: append_assoc)
qed simp

lemma abort_fmt_append:
  "concat (abort_fmt append_file args f) = concat f @ concat args @ [newline]"
  "length (concat args) < capacity - 1 \<Longrightarrow> abort_fmt append_file args f = f @ [concat args @ [newline]]"
proof -
  let ?w = "stderr_writer_new f"
  obtain w1 where w1: "fmt_write append_file args ?w = (True, w1)" "writer_ok w1"
    and "concat (out w1) @ pending w1 = concat (out ?w) @ pending ?w @ concat args"
    and "length (pending ?w) + length (concat args) < capacity \<Longrightarrow> out w1 = out ?w"
    by (rule fmt_write_append [where w = ?w and ss = args, OF writer_ok_new(1)]) (rule that)
  then have w1': "concat (out w1) @ pending w1 = concat f @ concat args"
    "length (concat args) < capacity \<Longrightarrow> out w1 = f"
    by (simp_all only: writer_ok_new append_Nil list.size(3) add_0)
  obtain w2 where w2: "write_str append_file [newline] w1 = (True, w2)" "writer_ok w2"
    "concat (out w2) @ pending w2 = concat (out w1) @ pending w1 @ [newline]"
    "length (pending w1) + length [newline] < capacity \<Longrightarrow> out w2 = out w1"
    by (rule write_str_append [where s = "[newline]", OF w1(2)]) (rule that)
  have run: "abort_fmt append_file args f = out w2 @ [pending w2]"
    by (simp add: abort_fmt_def w1(1) w2(1) flush_append)
  from w1'(1) w2(3) show "concat (abort_fmt append_file args f) = concat f @ concat args @ [newline]"
    by (simp add: run append_assoc [symmetric] del: append_assoc)
  show "abort_fmt append_file args f = f @ [concat args @ [newline]]" if "length (concat args) < capacity - 1"
  proof -
    have f: "out w1 = f" using that w1'(2) by simp
    with w1'(1) have p: "pending w1 = concat args" by simp
    with that w2(4) have "out w2 = f" by (simp add: f)
    with w2(3) p f run show ?thesis by simp
  qed
qed

end
