(* ===== verification/Fake_Signal.thy ===== *)
theory Fake_Signal
  imports Prelude
begin

text \<open>
  The fake signals of the tests under loom and miri (\<open>signal_lock/src/fake_signal.rs\<close>). A thread's
  pending flag is shared between a global map and a thread-local; sending sets the flag, a check
  point takes it and runs the handler. The calls of the handler are recorded.
\<close>

section \<open>State\<close>

text \<open>
  \<open>flags\<close> are the shared \<open>AtomicBool\<close>s, an \<open>Arc\<close> is an index. A thread-local is not initialized before
  its first use, and \<open>ClearThreadLocals\<close> leaves \<open>None\<close> in it.
\<close>

datatype thread_local = Uninit | Local "nat option"

record 'h fake =
  HANDLER :: "'h option"
  is_signaled_map :: "tid \<rightharpoonup> nat"
  flags :: "bool list"
  thread_is_signaled :: "tid \<Rightarrow> thread_local"
  handler_calls :: "(tid \<times> 'h) list"

definition fake_initial :: "'h fake" where
  "fake_initial =
     \<lparr>HANDLER = None, is_signaled_map = Map.empty, flags = [], thread_is_signaled = (\<lambda>_. Uninit), handler_calls = []\<rparr>"

section \<open>Operations\<close>

definition fake_signal_set_handler :: "'h \<Rightarrow> 'h fake \<Rightarrow> 'h fake" where
  "fake_signal_set_handler h f = f\<lparr>HANDLER := Some h\<rparr>"

definition clear_statics :: "'h fake \<Rightarrow> 'h fake" where
  "clear_statics f = f\<lparr>HANDLER := None, is_signaled_map := Map.empty\<rparr>"

definition get_thread_is_signaled :: "tid \<Rightarrow> 'h fake \<Rightarrow> nat \<times> 'h fake" where
  "get_thread_is_signaled t f =
     (case is_signaled_map f t of
        Some i \<Rightarrow> (i, f)
      | None \<Rightarrow>
          (length (flags f),
           f\<lparr>flags := flags f @ [False], is_signaled_map := (is_signaled_map f)(t \<mapsto> length (flags f))\<rparr>))"

text \<open>The first access of a thread-local initializes it.\<close>

definition with_local :: "tid \<Rightarrow> 'h fake \<Rightarrow> nat option \<times> 'h fake" where
  "with_local t f =
     (case thread_is_signaled f t of
        Local l \<Rightarrow> (l, f)
      | Uninit \<Rightarrow>
          (case get_thread_is_signaled t f of
             (i, f1) \<Rightarrow> (Some i, f1\<lparr>thread_is_signaled := (thread_is_signaled f1)(t := Local (Some i))\<rparr>)))"

definition clear_thread_locals :: "tid \<Rightarrow> 'h fake \<Rightarrow> 'h fake" where
  "clear_thread_locals t f =
     (case with_local t f of
        (l, f1) \<Rightarrow> f1\<lparr>thread_is_signaled := (thread_is_signaled f1)(t := Local None)\<rparr>)"

definition handle_fake_signal :: "tid \<Rightarrow> 'h fake \<Rightarrow> 'h fake" where
  "handle_fake_signal t f =
     (case HANDLER f of None \<Rightarrow> f | Some h \<Rightarrow> f\<lparr>handler_calls := (t, h) # handler_calls f\<rparr>)"

definition fake_signal_check_interrupt :: "tid \<Rightarrow> 'h fake \<Rightarrow> panic + 'h fake" where
  "fake_signal_check_interrupt t f =
     (case with_local t f of
        (None, f1) \<Rightarrow> Inl UnwrapFailed
      | (Some i, f1) \<Rightarrow>
          let f2 = f1\<lparr>flags := (flags f1)[i := False]\<rparr> in
          Inr (if flags f1 ! i then handle_fake_signal t f2 else f2))"

definition fake_signal_thread :: "tid \<Rightarrow> 'h fake \<Rightarrow> 'h fake" where
  "fake_signal_thread t f =
     (case is_signaled_map f t of
        Some i \<Rightarrow> f\<lparr>flags := (flags f)[i := True]\<rparr>
      | None \<Rightarrow>
          f\<lparr>flags := flags f @ [True], is_signaled_map := (is_signaled_map f)(t \<mapsto> length (flags f))\<rparr>)"

section \<open>Specification: a set of threads with a pending signal\<close>

definition pending :: "'h fake \<Rightarrow> tid \<Rightarrow> bool" where
  "pending f t = (case is_signaled_map f t of None \<Rightarrow> False | Some i \<Rightarrow> flags f ! i)"

text \<open>
  Each thread has a flag of its own, and its thread-local is the flag in the map. (Clearing the statics
  while threads still run breaks the second part.)
\<close>

definition linked :: "'h fake \<Rightarrow> bool" where
  "linked f \<longleftrightarrow>
     (\<forall>t i. is_signaled_map f t = Some i \<longrightarrow> i < length (flags f)) \<and>
     (\<forall>t u i. is_signaled_map f t = Some i \<and> is_signaled_map f u = Some i \<longrightarrow> t = u) \<and>
     (\<forall>t i. thread_is_signaled f t = Local (Some i) \<longrightarrow> is_signaled_map f t = Some i)"

lemma linked_initial: "linked fake_initial"
  by (simp add: linked_def fake_initial_def)

lemma linkedD:
  assumes "linked f"
  shows "is_signaled_map f t = Some i \<Longrightarrow> i < length (flags f)"
    and "is_signaled_map f t = Some i \<Longrightarrow> is_signaled_map f u = Some i \<Longrightarrow> t = u"
    and "thread_is_signaled f t = Local (Some i) \<Longrightarrow> is_signaled_map f t = Some i"
  using assms unfolding linked_def by blast+

text \<open>Setting one thread's flag.\<close>

lemma set_flag:
  assumes "linked f" and "is_signaled_map f t = Some i"
  shows "linked (f\<lparr>flags := (flags f)[i := b]\<rparr>)"
    and "pending (f\<lparr>flags := (flags f)[i := b]\<rparr>) = (pending f)(t := b)"
proof -
  show "linked (f\<lparr>flags := (flags f)[i := b]\<rparr>)"
    using assms(1) by (simp add: linked_def)
  show "pending (f\<lparr>flags := (flags f)[i := b]\<rparr>) = (pending f)(t := b)"
  proof
    fix u
    show "pending (f\<lparr>flags := (flags f)[i := b]\<rparr>) u = ((pending f)(t := b)) u"
    proof (cases "u = t")
      case True
      with assms linkedD(1) [OF assms] show ?thesis by (simp add: pending_def)
    next
      case False
      then have "is_signaled_map f u \<noteq> Some i" using linkedD(2) [OF assms(1,2)] by blast
      with False show ?thesis by (cases "is_signaled_map f u") (auto simp: pending_def)
    qed
  qed
qed

text \<open>Adding a flag for a thread that has none.\<close>

lemma add_flag:
  fixes b :: bool
  assumes "linked f" and "is_signaled_map f t = None"
  defines "f' \<equiv> f\<lparr>flags := flags f @ [b], is_signaled_map := (is_signaled_map f)(t \<mapsto> length (flags f))\<rparr>"
  shows "linked f'" and "pending f' = (pending f)(t := b)"
proof -
  have lt: "i < length (flags f)" if "is_signaled_map f u = Some i" for u i
    using linkedD(1) [OF assms(1) that] .
  show "linked f'"
    unfolding linked_def
  proof (intro conjI allI impI)
    show "i < length (flags f')" if "is_signaled_map f' u = Some i" for u i
      using that lt [of u i] by (auto simp: f'_def split: if_splits)
    show "u = v" if "is_signaled_map f' u = Some i \<and> is_signaled_map f' v = Some i" for u v i
      using that lt [of u i] lt [of v i] linkedD(2) [OF assms(1), of u i v] by (auto simp: f'_def split: if_splits)
    show "is_signaled_map f' u = Some i" if "thread_is_signaled f' u = Local (Some i)" for u i
      using that linkedD(3) [OF assms(1), of u i] assms(2) by (auto simp: f'_def)
  qed
  show "pending f' = (pending f)(t := b)"
  proof
    fix u
    show "pending f' u = ((pending f)(t := b)) u"
      using lt [of u] by (auto simp: f'_def pending_def nth_append split: option.split)
  qed
qed

lemma set_local:
  assumes "linked f" and "is_signaled_map f t = Some i"
  shows "linked (f\<lparr>thread_is_signaled := (thread_is_signaled f)(t := Local (Some i))\<rparr>)"
  unfolding linked_def
proof (intro conjI allI impI)
  let ?g = "f\<lparr>thread_is_signaled := (thread_is_signaled f)(t := Local (Some i))\<rparr>"
  show "j < length (flags ?g)" if "is_signaled_map ?g u = Some j" for u j
    using linkedD(1) [OF assms(1), of u j] that by simp
  show "u = v" if "is_signaled_map ?g u = Some j \<and> is_signaled_map ?g v = Some j" for u v j
    using linkedD(2) [OF assms(1), of u j v] that by simp
  show "is_signaled_map ?g u = Some j" if "thread_is_signaled ?g u = Local (Some j)" for u j
    using linkedD(3) [OF assms(1), of u j] assms(2) that by (simp split: if_splits)
qed

lemma pending_local [simp]: "pending (f\<lparr>thread_is_signaled := x\<rparr>) = pending f"
  by (simp add: pending_def fun_eq_iff split: option.split)

lemma send_refines:
  assumes "linked f"
  shows "linked (fake_signal_thread t f)" and "pending (fake_signal_thread t f) = (pending f)(t := True)"
    and "HANDLER (fake_signal_thread t f) = HANDLER f"
    and "handler_calls (fake_signal_thread t f) = handler_calls f"
  using set_flag [OF assms, of t _ True] add_flag [OF assms, of t True]
  by (auto simp: fake_signal_thread_def split: option.split)

lemma with_local_refines:
  assumes "linked f" and "thread_is_signaled f t \<noteq> Local None"
  obtains i f1 where "with_local t f = (Some i, f1)" and "linked f1" and "is_signaled_map f1 t = Some i"
    and "pending f1 = pending f" and "HANDLER f1 = HANDLER f" and "handler_calls f1 = handler_calls f"
proof (cases "thread_is_signaled f t")
  case (Local l)
  with assms(2) obtain i where "l = Some i" by auto
  with Local linkedD(3) [OF assms(1)] assms(1) that show thesis by (simp add: with_local_def)
next
  case Uninit
  show thesis
  proof (cases "is_signaled_map f t")
    case None
    let ?f = "f\<lparr>flags := flags f @ [False], is_signaled_map := (is_signaled_map f)(t \<mapsto> length (flags f))\<rparr>"
    let ?g = "?f\<lparr>thread_is_signaled := (thread_is_signaled f)(t := Local (Some (length (flags f))))\<rparr>"
    note add = add_flag [OF assms(1) None, of False]
    have "linked ?g" using set_local [OF add(1), of t "length (flags f)"] by simp
    moreover have "pending ?f = pending f"
      unfolding add(2) using None by (simp add: fun_eq_iff pending_def)
    then have "pending ?g = pending f" by simp
    moreover have "with_local t f = (Some (length (flags f)), ?g)"
      by (simp add: with_local_def get_thread_is_signaled_def Uninit None)
    ultimately show thesis using that by simp
  next
    case (Some i)
    let ?g = "f\<lparr>thread_is_signaled := (thread_is_signaled f)(t := Local (Some i))\<rparr>"
    have "linked ?g" by (rule set_local [OF assms(1) Some])
    moreover have "with_local t f = (Some i, ?g)"
      by (simp add: with_local_def get_thread_is_signaled_def Uninit Some)
    ultimately show thesis using that Some by simp
  qed
qed

lemma handle_fake_simps [simp]:
  "linked (handle_fake_signal t f) = linked f" "pending (handle_fake_signal t f) = pending f"
  "handler_calls (handle_fake_signal t f) =
    (case HANDLER f of None \<Rightarrow> handler_calls f | Some h \<Rightarrow> (t, h) # handler_calls f)"
  by (simp_all add: handle_fake_signal_def linked_def pending_def fun_eq_iff split: option.split)

lemma check_refines:
  assumes "linked f" and "thread_is_signaled f t \<noteq> Local None"
  obtains f' where "fake_signal_check_interrupt t f = Inr f'" and "linked f'"
    and "pending f' = (pending f)(t := False)"
    and "handler_calls f' =
      (case HANDLER f of Some h \<Rightarrow> if pending f t then (t, h) # handler_calls f else handler_calls f
       | None \<Rightarrow> handler_calls f)"
proof -
  obtain i f1 where f1: "with_local t f = (Some i, f1)" "linked f1" "is_signaled_map f1 t = Some i"
    "pending f1 = pending f" "HANDLER f1 = HANDLER f" "handler_calls f1 = handler_calls f"
    by (rule with_local_refines [OF assms])
  have flag: "flags f1 ! i = pending f t" using f1(3,4) by (metis pending_def option.simps(5))
  note set = set_flag [OF f1(2,3), of False]
  show thesis
  proof (rule that)
    show "fake_signal_check_interrupt t f =
      Inr (if pending f t then handle_fake_signal t (f1\<lparr>flags := (flags f1)[i := False]\<rparr>)
           else f1\<lparr>flags := (flags f1)[i := False]\<rparr>)"
      by (simp add: fake_signal_check_interrupt_def f1(1) flag Let_def)
  qed (use set f1 in \<open>auto split: option.split\<close>)
qed

end
