(* ===== verification/Test_Doubles.thy ===== *)
theory Test_Doubles
  imports Futex_Lock Pipe_Lock
begin

text \<open>
  The replacements for system calls that the loom tests run the locks on: \<open>LoomPipe\<close>
  (\<open>signal_lock/src/pipe.rs\<close>) and the fake \<open>Futex\<close> (\<open>signal_lock/src/fake_futex.rs\<close>). They behave
  like the models of the system calls, so the tests exercise the modelled locks.
\<close>

section \<open>\<open>LoomPipe\<close>\<close>

text \<open>
  \<open>read\<close> waits on the condition variable while the count is 0; \<open>write\<close> returns its result and the
  \<open>errno\<close> that it sets.
\<close>

definition loom_read :: "u32 \<Rightarrow> (int \<times> u32) option" where
  "loom_read g = (if 0 < g then Some (1, g - 1) else None)"

definition loom_write :: "u32 \<Rightarrow> int \<times> u32 \<times> errno option" where
  "loom_write g =
     (let is_write = unat g < 2; g' = if is_write then g + 1 else g in
      if is_write then (1, g', None) else (- 1, g', Some EWOULDBLOCK))"

text \<open>What the lock makes of the two results.\<close>

definition after_read :: "int \<Rightarrow> 'l pipe_pc" where
  "after_read res = (if res = 0 then Pipe_Lock.Aborted WriterClosed else AcquireLoop)"

definition after_write :: "int \<Rightarrow> errno option \<Rightarrow> 'l pipe_pc" where
  "after_write res e = (if res < 0 then write_failed (the e) else Pipe_Lock.Done (Inr ()))"

lemma loom_count: "unat (g :: u32) \<le> 2 \<Longrightarrow> unat (if unat g < 2 then g + 1 else g) \<le> 2"
  by (auto simp: unat_word_ariths)

lemma loom_pipe_equiv:
  assumes "pipe_bytes m = unat g" and "unat g \<le> 2"
  shows "read_byte Normal m =
      map_option (\<lambda>(res, g'). (m\<lparr>pipe_bytes := unat g'\<rparr>, after_read res)) (loom_read g)"
    and "unlock_contended 2 Normal m =
      (case loom_write g of (res, g', e) \<Rightarrow> (m\<lparr>pipe_bytes := unat g'\<rparr>, after_write res e))"
    and "case loom_write g of (res, g', e) \<Rightarrow> unat g' \<le> 2"
proof -
  have "unat (g - 1) = unat g - 1" if "0 < g"
    using that unat_sub [of 1 g] by (simp add: word_le_nat_alt word_less_nat_alt Suc_le_eq)
  with assms show "read_byte Normal m =
      map_option (\<lambda>(res, g'). (m\<lparr>pipe_bytes := unat g'\<rparr>, after_read res)) (loom_read g)"
    by (simp add: read_byte_def loom_read_def after_read_def word_less_nat_alt unat_eq_0)
  have "unat (g + 1) = Suc (unat g)" if "unat g < 2"
    using that by (simp add: unat_word_ariths)
  with assms show "unlock_contended 2 Normal m =
      (case loom_write g of (res, g', e) \<Rightarrow> (m\<lparr>pipe_bytes := unat g'\<rparr>, after_write res e))"
    by (simp add: unlock_contended_def loom_write_def after_write_def write_failed_def Let_def)
  show "case loom_write g of (res, g', e) \<Rightarrow> unat g' \<le> 2"
    using loom_count [OF assms(2)] by (simp add: loom_write_def Let_def split: if_splits)
qed

lemma loom_pipe_models_pipe:
  assumes "pipe_bytes m = unat g" and "unat g \<le> 2"
  shows "read_byte Normal m =
      map_option (\<lambda>(res, g'). (m\<lparr>pipe_bytes := unat g'\<rparr>, after_read res)) (loom_read g) \<and>
    (case loom_write g of (res, g', e) \<Rightarrow>
       unlock_contended 2 Normal m = (m\<lparr>pipe_bytes := unat g'\<rparr>, after_write res e) \<and> unat g' \<le> 2)"
  using loom_pipe_equiv [OF assms] by (auto split: prod.splits)

section \<open>The fake futex\<close>

record fake_futex =
  fake_word :: u32
  cv_waiters :: "tid set"

definition fake_futex_new :: "u32 \<Rightarrow> fake_futex" where
  "fake_futex_new val = \<lparr>fake_word = val, cv_waiters = {}\<rparr>"

text \<open>\<open>wait\<close> returns at once or waits on the condition variable (\<open>False\<close>).\<close>

definition fake_wait :: "tid \<Rightarrow> u32 \<Rightarrow> fake_futex \<Rightarrow> fake_futex \<times> bool" where
  "fake_wait t val f =
     (if fake_word f \<noteq> val then (f, True) else (f\<lparr>cv_waiters := insert t (cv_waiters f)\<rparr>, False))"

text \<open>\<open>notify_one\<close> wakes one of the waiters if there is one; \<open>u\<close> is the one it chooses.\<close>

definition fake_wake_one :: "tid option \<Rightarrow> fake_futex \<Rightarrow> fake_futex option" where
  "fake_wake_one u f =
     (case u of
        Some v \<Rightarrow> if v \<in> cv_waiters f then Some (f\<lparr>cv_waiters := cv_waiters f - {v}\<rparr>) else None
      | None \<Rightarrow> if cv_waiters f = {} then Some f else None)"

definition fake_view :: "'a futex_lock \<Rightarrow> fake_futex" where
  "fake_view m = \<lparr>fake_word = futex m, cv_waiters = sleepers m\<rparr>"

lemma fake_futex_equiv:
  "fake_view (futex_lock_new x) = fake_futex_new 0"
  "futex_wait t Normal val m =
    (case fake_wait t val (fake_view m) of
       (f, ret) \<Rightarrow> (m\<lparr>sleepers := cv_waiters f\<rparr>, if ret then Reload else FutexAsleep val))"
  "wake_one (case u of None \<Rightarrow> Normal | Some v \<Rightarrow> Wake v) m =
    map_option (\<lambda>f. (m\<lparr>sleepers := cv_waiters f\<rparr>, Futex_Lock.Done (Inr ()))) (fake_wake_one u (fake_view m))"
  by (cases m; auto simp: fake_view_def futex_lock_new_def fake_futex_new_def futex_wait_def fake_wait_def wait_failed_def
      wake_one_def fake_wake_one_def split: option.split)+

end
