(* ===== verification/Deferred_Signal.thy ===== *)
theory Deferred_Signal
  imports Prelude
begin

text \<open>
  The example \<open>signal_lock/examples/optimistic_handler.rs\<close>: a signal handler takes the lock if it can and
  does its work at once, and otherwise sets \<open>SIGNAL_DEFERRED\<close>, which the interrupted code tests after
  its critical section. One thread runs \<open>normal_code\<close>; the signal may arrive between any two of its
  steps. The lock answers as \<open>SignalLock\<close> does for one thread: free, or \<open>Err(Recursive)\<close>.
\<close>

section \<open>The program\<close>

text \<open>
  The points of \<open>normal_code\<close>: before the lock, in the critical section, at its end, before a test of
  the flag, after a test that was true, in the critical section of the loop before and after
  \<open>do_the_thing\<close>, after the loop, and the panic of \<open>unwrap\<close> when \<open>lock\<close> fails.
\<close>

datatype point = Start | Critical | Leaving | TestFlag | Relock | Deferred | DeferredDone | Finished | Panicked

text \<open>
  \<open>owed\<close> says that a signal has arrived for which \<open>do_the_thing\<close> has not run since; \<open>things\<close> counts its
  runs; \<open>stderr\<close> has the lines that were written to standard error.
\<close>

record demo =
  point :: point
  raise_in_cs :: bool
  locked :: bool
  SIGNAL_DEFERRED :: bool
  things :: nat
  owed :: bool
  demo_errno :: int
  stderr :: "string list"

definition demo_start :: demo where
  "demo_start =
     \<lparr>point = Finished, raise_in_cs = False, locked = False, SIGNAL_DEFERRED = False, things = 0,
      owed = False, demo_errno = 0, stderr = []\<rparr>"

definition do_the_thing :: "demo \<Rightarrow> demo" where
  "do_the_thing d = d\<lparr>things := Suc (things d), owed := False\<rparr>"

definition write_stderr :: "string \<Rightarrow> demo \<Rightarrow> demo" where
  "write_stderr msg d = d\<lparr>stderr := stderr d @ [msg]\<rparr>"

definition deferring_msg :: string where
  "deferring_msg = ''Deferring in signal handler''"

definition handling_msg :: string where
  "handling_msg = ''Handling in signal handler''"

definition detected_msg :: string where
  "detected_msg = ''Detected deferred signal after critical section''"

text \<open>
  \<open>signal_handler\<close>; \<open>clobber\<close> is the value that the calls in it leave in \<open>errno\<close>. The lock is held only
  while the handler runs, which nothing interrupts here.
\<close>

definition signal_handler :: "int \<Rightarrow> demo \<Rightarrow> demo" where
  "signal_handler clobber d =
     (let saved_err = demo_errno d; d1 = d\<lparr>owed := True, demo_errno := clobber\<rparr>;
          d2 = (if locked d1 then (write_stderr deferring_msg d1)\<lparr>SIGNAL_DEFERRED := True\<rparr>
                else do_the_thing (write_stderr handling_msg d1)) in
      d2\<lparr>demo_errno := saved_err\<rparr>)"

text \<open>\<open>normal_code\<close> is called, and makes a step; \<open>raise\<close> runs the handler before it returns.\<close>

definition call_normal_code :: "bool \<Rightarrow> demo \<Rightarrow> demo" where
  "call_normal_code in_cs d = (if point d = Finished then d\<lparr>point := Start, raise_in_cs := in_cs\<rparr> else d)"

definition normal_code :: "int \<Rightarrow> demo \<Rightarrow> demo" where
  "normal_code clobber d =
     (case point d of
        Start \<Rightarrow> if locked d then d\<lparr>point := Panicked\<rparr> else d\<lparr>point := Critical, locked := True\<rparr>
      | Critical \<Rightarrow> (if raise_in_cs d then signal_handler clobber d else d)\<lparr>point := Leaving\<rparr>
      | Leaving \<Rightarrow> d\<lparr>point := TestFlag, locked := False\<rparr>
      | TestFlag \<Rightarrow> d\<lparr>point := if SIGNAL_DEFERRED d then Relock else Finished, SIGNAL_DEFERRED := False\<rparr>
      | Relock \<Rightarrow> if locked d then d\<lparr>point := Panicked\<rparr> else d\<lparr>point := Deferred, locked := True\<rparr>
      | Deferred \<Rightarrow>
          (do_the_thing (write_stderr detected_msg d))\<lparr>point := DeferredDone\<rparr>
      | DeferredDone \<Rightarrow> d\<lparr>point := TestFlag, locked := False\<rparr>
      | Finished \<Rightarrow> d
      | Panicked \<Rightarrow> d)"

datatype demo_event = Signal int | Step int | CallNormalCode bool

fun demo_step :: "demo_event \<Rightarrow> demo \<Rightarrow> demo" where
  "demo_step (Signal clobber) d = signal_handler clobber d"
| "demo_step (Step clobber) d = normal_code clobber d"
| "demo_step (CallNormalCode in_cs) d = call_normal_code in_cs d"

definition demo_run :: "demo_event list \<Rightarrow> demo" where
  "demo_run es = fold demo_step es demo_start"

text \<open>
  \<open>main\<close> after its setup, when no signal arrives from elsewhere; each call of \<open>normal_code\<close> ends within eight steps.
\<close>

definition example_main :: "int \<Rightarrow> demo \<Rightarrow> demo" where
  "example_main clobber d =
     (let d1 = (normal_code clobber ^^ 8) (call_normal_code True d);
          d2 = signal_handler clobber d1 in
      (normal_code clobber ^^ 8) (call_normal_code False d2))"

section \<open>The setup in main\<close>

text \<open>
  \<open>main\<close> up to the first call of \<open>normal_code\<close>. \<open>created\<close> is the leaked result of \<open>SignalLock::new\<close>: an
  error or the lock's address, which is not null. \<open>LOCK\<close> is None while the pointer is null; \<open>handler_registered\<close>
  says that \<open>signal_handler\<close> handles \<open>SIGUSR1\<close>, and \<open>res\<close> is the result of \<open>sigaction\<close>.
\<close>

datatype 'p setup_point = NewLock | StoreLock 'p | RegisterHandler | Ready | SetupPanicked panic

record 'p main_setup =
  stage :: "'p setup_point"
  LOCK :: "'p option"
  handler_registered :: bool

definition setup_start :: "'p main_setup" where
  "setup_start = \<lparr>stage = NewLock, LOCK = None, handler_registered = False\<rparr>"

definition setup_step :: "'e + 'p \<Rightarrow> int \<Rightarrow> 'p main_setup \<Rightarrow> 'p main_setup" where
  "setup_step created res m =
     (case stage m of
        NewLock \<Rightarrow> m\<lparr>stage := case created of Inl e \<Rightarrow> SetupPanicked UnwrapFailed | Inr lock_ptr \<Rightarrow> StoreLock lock_ptr\<rparr>
      | StoreLock lock_ptr \<Rightarrow> m\<lparr>stage := RegisterHandler, LOCK := Some lock_ptr\<rparr>
      | RegisterHandler \<Rightarrow>
          if res = 0 then m\<lparr>stage := Ready, handler_registered := True\<rparr> else m\<lparr>stage := SetupPanicked AssertFailed\<rparr>
      | Ready \<Rightarrow> m
      | SetupPanicked e \<Rightarrow> m)"

text \<open>\<open>get_lock\<close> dereferences the pointer; None stands for a null dereference.\<close>

definition get_lock :: "'p main_setup \<Rightarrow> 'p option" where
  "get_lock m = LOCK m"

definition main_setup_ok :: "'e + 'p \<Rightarrow> 'p main_setup \<Rightarrow> bool" where
  "main_setup_ok created m \<longleftrightarrow>
     (\<forall>q. stage m = StoreLock q \<or> LOCK m = Some q \<longrightarrow> created = Inr q) \<and>
     (stage m = RegisterHandler \<or> stage m = Ready \<or> handler_registered m \<longrightarrow> LOCK m \<noteq> None)"

lemma main_setup_ok_step: "main_setup_ok created m \<Longrightarrow> main_setup_ok created (setup_step created res m)"
  by (cases "stage m") (auto simp: main_setup_ok_def setup_step_def split: sum.splits)

text \<open>
  A signal that the handler receives during or after the setup, also one between two statements of
  \<open>main\<close>, finds the lock that was created, and so does \<open>normal_code\<close>.
\<close>

lemma handler_finds_lock:
  assumes "m = (setup_step created res ^^ n) setup_start" and "handler_registered m \<or> stage m = Ready"
  shows "\<exists>q. created = Inr q \<and> get_lock m = Some q"
proof -
  have "main_setup_ok created ((setup_step created res ^^ n) setup_start)"
    by (induction n) (simp_all add: main_setup_ok_step, simp add: main_setup_ok_def setup_start_def)
  with assms show ?thesis by (auto simp: main_setup_ok_def get_lock_def)
qed

lemma setup_reaches:
  "stage ((setup_step created res ^^ 3) setup_start) =
     (case created of
        Inl e \<Rightarrow> SetupPanicked UnwrapFailed
      | Inr q \<Rightarrow> if res = 0 then Ready else SetupPanicked AssertFailed)"
  by (simp add: eval_nat_numeral setup_start_def setup_step_def split: sum.split)

section \<open>No signal is forgotten\<close>

text \<open>
  Work is owed only while the flag says so or the code is on its way to \<open>do_the_thing\<close>; the lock is
  held exactly in the critical sections, so that \<open>unwrap\<close> never panics, and the flag is set only before the
  test.
\<close>

definition demo_ok :: "demo \<Rightarrow> bool" where
  "demo_ok d \<longleftrightarrow> point d \<noteq> Panicked \<and>
     locked d = (point d \<in> {Critical, Leaving, Deferred, DeferredDone}) \<and>
     (owed d \<longrightarrow> SIGNAL_DEFERRED d \<or> point d \<in> {Relock, Deferred}) \<and>
     (SIGNAL_DEFERRED d \<longrightarrow> point d \<in> {Critical, Leaving, TestFlag, Deferred, DeferredDone})"

lemmas demo_defs = signal_handler_def do_the_thing_def write_stderr_def call_normal_code_def Let_def

lemma normal_code_at:
  "point d = Start \<Longrightarrow> \<not> locked d \<Longrightarrow> normal_code c d = d\<lparr>point := Critical, locked := True\<rparr>"
  "point d = Critical \<Longrightarrow> \<not> raise_in_cs d \<Longrightarrow> normal_code c d = d\<lparr>point := Leaving\<rparr>"
  "point d = Critical \<Longrightarrow> raise_in_cs d \<Longrightarrow> normal_code c d = (signal_handler c d)\<lparr>point := Leaving\<rparr>"
  "point d = Leaving \<Longrightarrow> normal_code c d = d\<lparr>point := TestFlag, locked := False\<rparr>"
  "point d = TestFlag \<Longrightarrow> SIGNAL_DEFERRED d \<Longrightarrow> normal_code c d = d\<lparr>point := Relock, SIGNAL_DEFERRED := False\<rparr>"
  "point d = TestFlag \<Longrightarrow> \<not> SIGNAL_DEFERRED d \<Longrightarrow> normal_code c d = d\<lparr>point := Finished, SIGNAL_DEFERRED := False\<rparr>"
  "point d = Relock \<Longrightarrow> \<not> locked d \<Longrightarrow> normal_code c d = d\<lparr>point := Deferred, locked := True\<rparr>"
  "point d = Deferred \<Longrightarrow> normal_code c d =
     (do_the_thing (write_stderr detected_msg d))\<lparr>point := DeferredDone\<rparr>"
  "point d = DeferredDone \<Longrightarrow> normal_code c d = d\<lparr>point := TestFlag, locked := False\<rparr>"
  "point d = Finished \<Longrightarrow> normal_code c d = d"
  by (simp_all add: normal_code_def)

lemma eight_steps: "(f ^^ 8) x = f (f (f (f (f (f (f (f x)))))))"
  by (simp add: eval_nat_numeral)

lemma demo_ok_handler:
  assumes "demo_ok d"
  shows "demo_ok (signal_handler c d)"
  using assms by (cases "locked d") (auto simp: demo_ok_def demo_defs)

lemma demo_ok_code:
  assumes "demo_ok d"
  shows "demo_ok (normal_code c d)"
proof (cases "point d = Critical \<and> raise_in_cs d")
  case True
  with demo_ok_handler [OF assms] have "demo_ok (signal_handler c d)" by simp
  moreover have "point (signal_handler c d) = Critical" using True by (simp add: demo_defs)
  ultimately show ?thesis using True by (simp add: normal_code_at demo_ok_def)
next
  case False
  with assms show ?thesis
    by (cases "point d"; cases "SIGNAL_DEFERRED d")
      (simp_all add: normal_code_at demo_ok_def do_the_thing_def write_stderr_def)
qed

lemma demo_ok_call: "demo_ok d \<Longrightarrow> demo_ok (call_normal_code b d)"
  by (auto simp: demo_ok_def call_normal_code_def)

lemma demo_ok_step: "demo_ok d \<Longrightarrow> demo_ok (demo_step e d)"
  by (cases e) (simp_all add: demo_ok_handler demo_ok_code demo_ok_call)

lemma demo_ok_run: "demo_ok (demo_run es)"
proof -
  have "demo_ok (fold demo_step es d)" if "demo_ok d" for d
    using that by (induction es arbitrary: d) (simp_all add: demo_ok_step)
  moreover have "demo_ok demo_start" by (simp add: demo_ok_def demo_start_def)
  ultimately show ?thesis by (simp add: demo_run_def)
qed

text \<open>Without further signals, the code finishes within eight steps.\<close>

lemma demo_finishes:
  assumes "demo_ok d"
  shows "point ((normal_code c ^^ 8) d) = Finished"
proof -
  consider "point d = Start" "\<not> locked d" "\<not> SIGNAL_DEFERRED d" | "point d = Critical" "locked d" | "point d = Leaving"
    | "point d = TestFlag" "\<not> locked d" | "point d = Relock" "\<not> locked d" "\<not> SIGNAL_DEFERRED d"
    | "point d = Deferred" | "point d = DeferredDone" | "point d = Finished"
    using assms by (cases "point d") (auto simp: demo_ok_def)
  then show ?thesis
    by cases (cases "SIGNAL_DEFERRED d"; cases "raise_in_cs d"; simp add: eight_steps normal_code_at demo_defs)+
qed

lemma demo_ok_steps: "demo_ok d \<Longrightarrow> demo_ok ((normal_code c ^^ n) d)"
  by (induction n) (use demo_ok_step [of _ "Step c"] in simp_all)

lemma demo_errno_handler: "demo_errno (signal_handler c d) = demo_errno d"
  by (simp add: signal_handler_def Let_def)

lemma demo_errno_code: "demo_errno (normal_code c d) = demo_errno d"
  by (simp add: normal_code_def do_the_thing_def write_stderr_def demo_errno_handler split: point.split)

lemma demo_errno_step: "demo_errno (demo_step e d) = demo_errno d"
  by (cases e) (simp_all add: demo_errno_handler demo_errno_code call_normal_code_def)

lemma demo_errno_run: "demo_errno (demo_run es) = 0"
proof -
  have "demo_errno (fold demo_step es d) = demo_errno d" for d
    by (induction es arbitrary: d) (simp_all add: demo_errno_step)
  then show ?thesis by (simp add: demo_run_def demo_start_def)
qed

text \<open>The lines that the comments in \<open>main\<close> announce.\<close>

lemma example_first_call:
  "(normal_code c ^^ 8) (call_normal_code True demo_start) =
     \<lparr>point = Finished, raise_in_cs = True, locked = False, SIGNAL_DEFERRED = False, things = 1,
      owed = False, demo_errno = 0, stderr = [deferring_msg, detected_msg]\<rparr>"
  by (simp add: eight_steps normal_code_at demo_start_def signal_handler_def do_the_thing_def
      write_stderr_def call_normal_code_def)

lemma example_second_call:
  assumes "point d = Finished" and "\<not> locked d" and "\<not> SIGNAL_DEFERRED d"
  shows "stderr ((normal_code c ^^ 8) (call_normal_code False d)) = stderr d"
  using assms by (simp add: eight_steps normal_code_at call_normal_code_def)

lemma example_main_prints:
  "stderr (example_main c demo_start) = [deferring_msg, detected_msg, handling_msg]"
  unfolding example_main_def Let_def example_first_call
  by (subst example_second_call) (simp_all add: signal_handler_def do_the_thing_def write_stderr_def)

end
