(* ===== verification/Run_Examples.thy ===== *)
theory Run_Examples
  imports Lock_Clients Lock_Sync Registry_Lock Mmap_Examples Spec_Simulation
begin

text \<open>
  Runs that the examples beside the properties evaluate: two critical sections with their views, and
  a registration and a fault as critical sections of the registry's lock.
\<close>

section \<open>A thread that takes the lock after another one\<close>

lemma new_lock_simps [simp]: "futex_lock.item (futex_lock_new x) = x" "holder_tid (pipe_lock_init x) = 0"
  by (simp_all add: futex_lock_new_def pipe_lock_init_def)

text \<open>Thread 1 increments the item and unlocks, then thread 2 takes the lock.\<close>

definition second_run :: "nat \<Rightarrow> event list" where
  "second_run n = Call 1 # runs 1 n @ Return 1 # Call 2 # runs 2 1"

definition second_views :: views where
  "second_views = \<lparr>item_accesses = 2, seen = (\<lambda>_. {})(1 := {1, 0}, 2 := {1, 0}),
     carried = (\<lambda>_. {})(LockWord := {1, 0})\<rparr>"

lemmas view_simps = run_simps second_run_def no_views_def second_views_def cas_access_def acquire_view_def

definition futex_second :: "(64 word futex_lock, increment futex_pc) sys" where
  "futex_second =
     \<lparr>mem = (futex_lock_new 1)\<lparr>futex := 2\<rparr>, stacks = (\<lambda>_. [])(1 := [], 2 := [Futex_Lock.Guarded Load]), live = 1\<rparr>"

lemma futex_second_viewed:
  "viewed futex_client (futex_access increment_body) (futex_lock_new 0) futex_second second_views"
  by (rule views_after_viewed [OF viewed_initial, where es = "second_run 4"])
    (simp add: view_simps futex_run_simps futex_second_def fun_upd_def cong: if_cong)

definition pipe_second :: "(64 word pipe_lock, increment pipe_pc) sys" where
  "pipe_second =
     \<lparr>mem = (pipe_lock_init 1)\<lparr>holder_tid := 2\<rparr>, stacks = (\<lambda>_. [])(1 := [], 2 := [Guarded Load False]), live = 1\<rparr>"

lemma pipe_second_viewed:
  "viewed pipe_client (pipe_access increment_body) (pipe_lock_init 0) pipe_second second_views"
  by (rule views_after_viewed [OF viewed_initial, where es = "second_run 5"])
    (simp add: view_simps pipe_run_simps pipe_second_def fun_upd_def cong: if_cong)

section \<open>A registration and a fault under the lock\<close>

definition two_requests :: "request list" where
  "two_requests = [Register 0x1000 0x2000 3, Fault fault]"

abbreviation "registry_futex \<equiv> futex_code True (registry_body linux True) Fetch"

definition registered_item :: registry_item where
  "registered_item =
     \<lparr>reg_world = registered_world, served = [Register 0x1000 0x2000 3], requests = [Fault fault]\<rparr>"

definition repaired_item :: registry_item where
  "repaired_item =
     \<lparr>reg_world = repaired 12 fault registered_map 0x1000 registered_world, served = two_requests, requests = []\<rparr>"

lemmas registry_run_simps = futex_run_simps section_defs registry_start_def two_requests_def registered_item_def
  repaired_item_def registered_world_def ready_world_def initial_world_def current_root_def root_new_def
  lookup_overlap_def usize_add_def usize_sub_def

lemma registry_registers:
  "exec_all registry_futex (Call 1 # runs 1 9 @ [Return 1])
     (init_sys (futex_lock_new (registry_start ready_world two_requests))) =
   Some (init_sys (futex_lock_new registered_item))"
  by (simp add: registry_run_simps fun_upd_def cong: if_cong)

text \<open>Thread 2 faults; here its handler has made its four stores and still holds the lock.\<close>

definition registry_reported_at :: "(registry_item futex_lock, section_pc futex_pc) sys" where
  "registry_reported_at =
     \<lparr>mem = (futex_lock_new repaired_item)\<lparr>futex := 2\<rparr>, stacks = (\<lambda>_. [])(2 := [Futex_Lock.Guarded Leave]), live = 1\<rparr>"

lemma registry_repairs:
  "exec_all registry_futex (Call 2 # runs 2 8) (init_sys (futex_lock_new registered_item)) = Some registry_reported_at"
  by (simp add: registry_reported_at_def registry_run_simps parse_sigbus_def fault_def linux_def lookup_addr_def
      fix_region_def count_ones_4096 repaired_def registered_map_def page_start_def state_new_def
      fun_upd_def cong: if_cong)

lemma registry_leaves:
  "exec_all registry_futex (runs 2 1 @ [Return 2]) registry_reported_at = Some (init_sys (futex_lock_new repaired_item))"
  by (simp add: registry_reported_at_def futex_run_simps fun_upd_def cong: if_cong)

text \<open>The same runs on the \<open>SignalLock\<close> of Linux.\<close>

lemma linux_lock_new: "signal_lock_new Linux pipe2 fcntl x fds = (Inr (FutexImp (futex_lock_new x)), fds)"
  by (simp add: signal_lock_new_def)

abbreviation "two_requests_lock \<equiv> FutexImp (futex_lock_new (registry_start ready_world two_requests))"

lemma registry_reported_reachable:
  "reachable (registry_code Linux True 1 linux) two_requests_lock (lift_sys FutexImp FutexPc registry_reported_at)"
  unfolding registry_code_def
  by (rule signal_linux.lift_reachable)
    (rule exec_all_reachable_from [OF exec_all_reachable [OF registry_registers] registry_repairs])

lemma registry_leaves_signal:
  "exec_all (registry_code Linux True 1 linux) (runs 2 1 @ [Return 2]) (lift_sys FutexImp FutexPc registry_reported_at) =
    Some (init_sys (FutexImp (futex_lock_new repaired_item)))"
  by (simp only: registry_code_def signal_linux.exec_all_lift registry_leaves option.map lift_init)

lemma registry_done_reachable:
  "reachable (registry_code Linux True 1 linux) two_requests_lock (init_sys (FutexImp (futex_lock_new repaired_item)))"
  by (rule exec_all_reachable_from [OF registry_reported_reachable registry_leaves_signal])

text \<open>The two increments of theory Lock\_Clients on the \<open>SignalLock\<close> of Linux.\<close>

lemma signal_full:
  "exec_all (signal_code Linux True cap increment_body Load) futex_full_run (init_sys (FutexImp (futex_lock_new 0))) =
    Some (init_sys (FutexImp ((futex_lock_new 0)\<lparr>futex_lock.item := 2\<rparr>)))"
  using signal_linux.exec_all_lift [of True cap increment_body Load futex_full_run "init_sys (futex_lock_new 0)"]
  by (simp add: futex_full)

lemma signal_full_reachable:
  "reachable (signal_code Linux True 1 increment_body Load) (FutexImp (futex_lock_new 0))
    (init_sys (FutexImp ((futex_lock_new 0)\<lparr>futex_lock.item := 2\<rparr>)))"
  by (rule exec_all_reachable [OF signal_full])

text \<open>Thread 1 has a guard, and thread 2 sleeps in the kernel.\<close>

definition futex_guard_alive :: "(unit futex_lock, unit futex_pc) sys" where
  "futex_guard_alive =
     \<lparr>mem = (futex_lock_new ())\<lparr>futex := 0x80000001, sleepers := {2}\<rparr>,
      stacks = (\<lambda>_. [])(1 := [Futex_Lock.Guarded ()], 2 := [FutexAsleep 0x80000001]), live = 2\<rparr>"

lemma futex_guard_alive_reachable:
  "reachable (futex_code True no_body ()) (futex_lock_new ()) futex_guard_alive"
  by (rule exec_all_reachable [where es = futex_contended_run])
    (simp add: futex_guard_alive_def futex_contended_run_def futex_run_simps fun_upd_def cong: if_cong)

end
