(* ===== verification/Spec2Isabelle.thy ===== *)
theory Spec2Isabelle
  imports Std_Mutex Spec_Examples Signal_Clients Fork Lock_Clients Lock_Sync Signal_Lock Registry_Lock
    Mmap_History Mmap_Examples Mapped_Examples Try_Once Parker Pipe_Fences Thread_Ids Stderr_Writer Fake_Signal Test_Doubles Deferred_Signal Run_Examples
begin

text \<open>
  A verification library for \<open>signal-crates\<close>: the crate \<open>signal_lock\<close>, a mutex that may be taken in
  signal handlers and reports recursive locking as an error, and the crate \<open>mmapcatch\<close>, which uses it to
  survive SIGBUS in memory-mapped files.

  \<^bold>\<open>Parts and how they interact.\<close> \<open>SignalLock\<close> (\<open>signal_lock/src/lib.rs\<close>) wraps \<open>FutexLock\<close>
  (\<open>futex.rs\<close>) on Linux and \<open>PipeLock\<close> (\<open>pipe.rs\<close>) elsewhere; both compare thread ids from \<open>gettid\<close>.
  Their failures end in \<open>abort_fmt\<close>, which prints through \<open>StderrWriter\<close>. The tests replace signals, the
  futex and the pipe (\<open>fake_signal.rs\<close>, \<open>fake_futex.rs\<close>, \<open>LoomPipe\<close>). \<open>mmapcatch\<close> keeps the registered maps
  in a \<open>BTreeMap\<close> under a \<open>SignalLock\<close>; \<open>register_mmap\<close> and \<open>Drop for Guard\<close> change it, the signal handler
  \<open>handle_sigbus\<close> searches it, replaces pages and reports through the map's shared \<open>State\<close>, which the
  guards read without the lock. The repository also has a TLA+ specification of each lock
  (\<open>tla/futex.tla\<close>, \<open>tla/pipe.tla\<close>), written to be checked for small constants.

  \<^bold>\<open>Theories on the locks.\<close>
  \<^item> Prelude: machine integers, stacks, sums over threads, panics and checked arithmetic.
  \<^item> Lock\_Machine: threads as stacks of activations (a signal handler runs above what it interrupts), the
    step relation over calls, atomic actions and returns, reachability, executable schedules.
  \<^item> Lock\_Contract: locales \<open>exclusive_lock\<close> (at most one holder, exclusive item, refinement of an abstract
    lock) and \<open>owned_lock\<close> (recursion is detected, exactly when it happens).
  \<^item> Lock\_Progress: locale \<open>waking_lock\<close> (hand-over laws; no lost wake-up, no deadlock, termination).
  \<^item> Lock\_Serial: locale \<open>serial_lock\<close> (critical sections are serializable; invariants and monotone
    relations of the item are inherited from the client's code). Lock\_Sync: locale \<open>synchronizing_lock\<close>
    (views of release and acquire operations; no data race on the item). Lock\_Embedding: locale
    \<open>lock_embedding\<close> (a lock that wraps another one runs in lockstep with it).
  \<^item> Futex\_Lock, Futex\_Progress, Futex\_Termination: \<open>FutexLock\<close>, one definition per access of
    \<open>raw_lock\<close>, \<open>raw_lock_contended\<close>, \<open>raw_unlock\<close>, \<open>Futex::wait\<close> and \<open>Futex::wake_one\<close>; its invariant
    \<open>futex_sound\<close>; interpretations of the locales; a lexicographic measure.
  \<^item> Pipe\_Lock, Pipe\_Progress: \<open>PipeLock\<close> in the same way, the creation of its pipe; \<open>pipe_sound\<close> (the
    counter of waiters is exact); a measure in \<open>nat\<close>. Pipe\_Fences: the memory-order argument for it.
  \<^item> Signal\_Lock: \<open>SignalLock\<close>, its choice of the implementation, constructor and delegation.
    Signal\_Clients: the contracts of the two implementations, read off \<open>SignalLock\<close>. Fork: a fork while
    a guard is alive, and a run in which two processes share the pipe of a \<open>PipeLock\<close>.
    Thread\_Ids: \<open>gettid\<close>, the faster function of the C library, the counter of loom and miri.
  \<^item> Std\_Mutex: the trait \<open>Lock\<close> on \<open>std::sync::Mutex\<close>, which poisons and does not detect recursion.
    Parker: \<open>Parker\<close> and what is written of \<open>ParkLock\<close> (\<open>park.rs\<close>).
  \<^item> Lock\_Clients: locale \<open>counted_lock\<close>, the benchmark's \<open>contend_lock\<close> on both locks, and schedules for
    the examples; Run\_Examples has those that need several theories.
  \<^item> Stderr\_Writer: \<open>abort_fmt\<close>. Fake\_Signal and Test\_Doubles: the test support. Deferred\_Signal: the
    example \<open>optimistic_handler\<close>.

  \<^bold>\<open>Theories on the specifications.\<close>
  \<^item> Spec\_Machine: the frame that both PlusCal algorithms share (processes with their stacks of procedure
    activations, \<open>handle_signal\<close>, \<open>maybe_signal\<close>, the counters), with \<open>lock_unlock\<close> as a parameter.
    Spec\_Simulation: locales \<open>spec_simulation\<close> (each action of \<open>lock_unlock\<close> is a quiet action of the
    lock's code or leaves its state as it is; so the runs of the specification are runs of the code and
    its assertions hold) and \<open>spec_termination\<close> (the order on its states that every step descends).
  \<^item> Futex\_Spec and Pipe\_Spec: the two procedures, one case per label, their states read as states of
    \<open>FutexLock\<close> and \<open>PipeLock\<close>, and the interpretations. Spec\_Examples: a short run of each.

  \<^bold>\<open>Theories on mmapcatch.\<close>
  \<^item> Ordered\_Map: the contract of \<open>BTreeMap\<close> as a locale and its implementation. Mmap\_Root: \<open>Root\<close>,
    \<open>lookup_addr\<close>, \<open>lookup_overlap\<close>. Try\_Once: \<open>TryOnce\<close> under concurrent calls (an \<open>exclusive_lock\<close> and a
    \<open>synchronizing_lock\<close>) and the drop of \<open>StaticRoot\<close>.
  \<^item> Mmap\_World: \<open>with_root\<close> with poisoning, \<open>register_mmap\<close>, \<open>install_signal_handler\<close>, \<open>Guard\<close>.
    Sigbus\_Handler: \<open>parse_sigbus\<close> and \<open>handle_sigbus\<close>, branch by branch. Mmap\_History: sequences of
    registrations, drops and faults, with their invariant. Mmap\_Examples: a world to evaluate them on.
  \<^item> Mapped\_Reads: loads from a registered map that fault, run the handler and are tried again, and the
    documented behaviour as an abstract reader that they refine; the memory itself (what a load from an
    address yields) is a parameter with the documented laws of \<open>mmap\<close>. Mapped\_Tests: the crate's tests as
    programs on it. Mapped\_Examples: the loads of a Linux map, for the examples.
  \<^item> Registry\_Sections: the critical sections of \<open>ROOT\<close> step by step, and that one that runs alone is the
    transition of the world in the theories above. State\_Publication: the order of the handler's stores,
    as seen without the lock. State\_Ownership: the registry inside a section, and that errors are
    reported to the right map. Registry\_Lock: all three on the machine of \<open>SignalLock\<close>.

  \<^bold>\<open>How state and operations correspond.\<close> The fields of a lock are the record of its shared memory, with the
  kernel's queue of the word or the bytes in the pipe beside them; a program point carries the local
  variables. An activation lasts from \<open>lock()\<close> to the drop of the guard; the critical section is a
  parameter \<open>body\<close> that reads and writes the item step by step. The environment chooses weak failures,
  spurious wake-ups, restarts, \<open>errno\<close> values and the thread that the kernel wakes, among the documented
  ones (\<open>futex_allowed\<close>, \<open>pipe_allowed\<close>). A quiet step is one in which it does nothing of that sort. The
  critical sections of \<open>ROOT\<close> are single transitions of a \<open>world\<close> in the sequential theories, which C20
  justifies for any interleaving on either lock; panics and aborts are values of \<open>outcome\<close>.

  \<^bold>\<open>Bounds.\<close> Thread ids are 32-bit words within the mask of the futex word; at most \<open>2 ^ 32 - 2\<close> activations
  are in progress (\<open>max_live\<close>; each occupies memory on a stack), which keeps the counter of waiters from
  wrapping around. The pipe holds at least one byte. There is no fuel: runs are relations, and the
  termination theorems bound the quiet ones. In the specifications, processes times signal levels stay
  below \<open>max_live\<close>. Registered intervals are not empty and do not reach the
  end of the address space (\<open>region_ok\<close>); pages have \<open>2 ^ k\<close> bytes with \<open>k < 63\<close>.

  \<^bold>\<open>Not modelled.\<close> Weak memory beyond the theories Lock\_Sync and Pipe\_Fences: the values that a thread
  reads are those of the sequentially consistent interleaving. The contended path of \<open>ParkLock\<close>, where the
  source breaks off (the file is not compiled), and the thread ids of macOS, which do not compile; the
  harness of the benchmarks; the tests other than their fakes and the fork; the symmetry sets and the
  configurations of the model checker. The fairness of the scheduler is not assumed of the code: its
  liveness theorems speak of quiet steps that exist, or of all sequences of them. Only C17 on the
  specifications assumes it, as their formula \<open>Spec\<close> does.

  \<^bold>\<open>Properties.\<close> C1 to C9 on the two locks: exclusion, wake-ups, progress, recursion, forks. C10 to C13 on the
  item: data races, serializability, updates. C14 on the abstract lock, C15 to C17 on the TLA+
  specifications, C18 and C19 on the words of the locks. C20 and C21 on the registry under its lock, C22
  and C23 on whole histories of a process that uses \<open>mmapcatch\<close>, C24 to C26 on its registry, C27 to C30
  on the signal handler, C31 and C32 on the reads of a registered map, C33 and C34 on errors, C35 on the
  initialization, C36 on the fences, C37 on messages, C38 on the creation of a lock, C39 and C40 on the
  test support and the example.
\<close>

section \<open>The two locks\<close>

text \<open>
  C1. \<open>SignalLock\<close>: in every reachable state, at most one activation of all threads and signal handlers
  holds the lock, and it is an activation of the thread whose id is in the lock's word, on either platform.
\<close>

theorem signal_mutual_exclusion:
  assumes "signal_lock_new os pipe2 fcntl x fds = (Inr l, fds')"
    and "reachable (signal_code os dbg cap body l0) l s"
  shows "total signal_holds s \<le> 1 \<and>
    (\<forall>t. count_of signal_holds (stacks s t) = (if t \<noteq> 0 \<and> signal_lock_owner (mem s) = t then 1 else 0))"
  by (rule signal_one_holder [OF assms])

theorem signal_mutual_exclusion_witness:
  "total signal_holds (lift_sys FutexImp FutexPc futex_contended :: (64 word signal_lock, increment signal_pc) sys) \<le> 1"
  using signal_mutual_exclusion [OF linux_lock_new signal_linux.lift_reachable [OF futex_contended_reachable]] by blast

text \<open>
  C2. \<open>FutexLock\<close>, no lost wake-up: while a thread sleeps in the kernel, either the lock is held and
  its word says that there are waiters, so that the unlock will wake one, or some thread's running
  activation (or one beneath it that no waiting activation covers) is about to wake a sleeper or to
  contend for the lock.
\<close>

theorem futex_no_lost_wakeup:
  assumes "reachable (futex_code dbg body l0) (futex_lock_new x0) s" and "t \<in> sleepers (mem s)"
  shows "futex_owner (mem s) \<noteq> 0 \<and> futex (mem s) AND FUTEX_WAITERS \<noteq> 0 \<or>
    (\<exists>u. exposed (futex_resp u (mem s)) (futex_waiting u (mem s)) (stacks s u))"
proof -
  have sound: "futex_sound s" by (rule futex_reachable_sound [OF assms(1)])
  then obtain w ps where "stacks s t = FutexAsleep w # ps"
    using assms(2) by (auto simp: futex_sound_def futex_queue_ok_def)
  then have "some_waiting futex_waiting (mem s) (stacks s)"
    using assms(2) unfolding some_waiting_def by (intro exI [of _ t] bexI [of _ "FutexAsleep w"]) simp_all
  with futex.no_lost_wakeup [OF assms(1)]
  have "futex_pend (mem s) \<or> (\<exists>u. exposed (futex_resp u (mem s)) (futex_waiting u (mem s)) (stacks s u))"
    by (simp add: backed_def)
  moreover have "word_ok (futex (mem s))" using sound by (simp add: futex_sound_def)
  ultimately show ?thesis
    by (elim word_ok_cases) (auto simp: futex_pend_def futex_owner_def)
qed

theorem futex_no_lost_wakeup_witness:
  "2 \<in> sleepers (mem futex_contended) \<and>
    (futex_owner (mem futex_contended) \<noteq> 0 \<and> futex (mem futex_contended) AND FUTEX_WAITERS \<noteq> 0 \<or>
     (\<exists>u. exposed (futex_resp u (mem futex_contended)) (futex_waiting u (mem futex_contended))
        (stacks futex_contended u)))"
proof
  show asleep: "2 \<in> sleepers (mem futex_contended)" by (simp add: futex_contended_def)
  show "futex_owner (mem futex_contended) \<noteq> 0 \<and> futex (mem futex_contended) AND FUTEX_WAITERS \<noteq> 0 \<or>
     (\<exists>u. exposed (futex_resp u (mem futex_contended)) (futex_waiting u (mem futex_contended))
        (stacks futex_contended u))"
    by (rule futex_no_lost_wakeup [OF futex_contended_reachable asleep])
qed

text \<open>
  C3. \<open>PipeLock\<close>, no lost wake-up: while an activation is blocked in \<open>read\<close>, the counter of waiters
  is positive, and either the lock is held, so that the unlock will see it, or a byte is in the
  pipe, or some activation is about to test the lock again or to write a byte.
\<close>

theorem pipe_no_lost_wakeup:
  assumes "reachable (pipe_code dbg (Suc cap) body l0) (pipe_lock_init x0) s"
    and "ReadByte \<in> set (stacks s t)"
  shows "0 < waiters (mem s) \<and>
    (holder_tid (mem s) \<noteq> 0 \<or> 0 < pipe_bytes (mem s) \<or>
     (\<exists>u. exposed (pipe_resp u (mem s)) (pipe_waiting u (mem s)) (stacks s u)))"
proof -
  have "0 < waiters (mem s)"
    by (rule waiters_pos [OF assms(1) pipe_reachable_sound [OF assms(1)] assms(2)]) simp
  moreover have "some_waiting pipe_waiting (mem s) (stacks s)"
    using assms(2) unfolding some_waiting_def pipe_waiting_def by blast
  ultimately show ?thesis
    using pipe.no_lost_wakeup [OF assms(1)] by (auto simp: backed_def pipe_pend_def)
qed

theorem pipe_no_lost_wakeup_witness:
  "ReadByte \<in> set (stacks pipe_contended 2) \<and> 0 < waiters (mem pipe_contended)"
proof
  show blocked: "ReadByte \<in> set (stacks pipe_contended 2)" by (simp add: pipe_contended_def)
  show "0 < waiters (mem pipe_contended)"
    using pipe_no_lost_wakeup [OF pipe_contended_reachable blocked] by simp
qed

text \<open>
  C4. \<open>SignalLock\<close>, no deadlock: as long as some activation of \<open>lock()\<close> has not returned, some thread can
  take a step that needs no further signal, spurious wake-up or failure, on either platform.
\<close>

theorem signal_no_deadlock:
  assumes "signal_lock_new os pipe2 fcntl x fds = (Inr l, fds')"
    and "reachable (signal_code os dbg (Suc cap) body l0) l s" and "\<not> idle s"
  shows "\<exists>s'. quiet_step (signal_code os dbg (Suc cap) body l0) s s'"
  by (rule signal_progress [OF assms])

theorem signal_no_deadlock_witness:
  "\<exists>s'. quiet_step (signal_code Linux True (Suc 0) increment_body Load) (lift_sys FutexImp FutexPc futex_contended) s'"
proof (rule signal_no_deadlock [OF linux_lock_new])
  show "reachable (signal_code Linux True (Suc 0) increment_body Load) (FutexImp (futex_lock_new 0))
      (lift_sys FutexImp FutexPc futex_contended)"
    by (rule signal_linux.lift_reachable [OF futex_contended_reachable])
  show "\<not> idle (lift_sys FutexImp FutexPc futex_contended :: (64 word signal_lock, increment signal_pc) sys)"
    unfolding idle_def futex_contended_def by (simp add: exI [of _ 1])
qed

text \<open>
  C5. \<open>FutexLock\<close>, every call returns: if the critical sections are bounded, then from every reachable
  state the quiet steps lead to a state where all activations have returned, and no sequence of quiet
  steps goes on forever.
\<close>

theorem futex_calls_return:
  assumes "reachable (futex_code dbg body l0) (futex_lock_new x0) s" and "body_bounded body bm"
  shows "(\<exists>s'. (quiet_step (futex_code dbg body l0))\<^sup>*\<^sup>* s s' \<and> idle s') \<and>
    \<not> (\<exists>f. f 0 = s \<and> (\<forall>i. quiet_step (futex_code dbg body l0) (f i) (f (Suc i))))"
proof -
  have wf: "wf (futex_descent bm l0)" by (simp add: futex_descent_def)
  have desc: "(s2, s1) \<in> futex_descent bm l0"
    if "reachable (futex_code dbg body l0) (futex_lock_new x0) s1" "quiet_step (futex_code dbg body l0) s1 s2" for s1 s2
    by (rule futex_quiet_descends [OF that assms(2)])
  from futex.all_return [OF wf desc assms(1)] futex.no_infinite_run [OF wf desc] assms(1)
  show ?thesis by blast
qed

theorem futex_calls_return_witness:
  "\<exists>s'. (quiet_step futex_client)\<^sup>*\<^sup>* futex_contended s' \<and> idle s'"
  using futex_calls_return [OF futex_contended_reachable increment_bounded] by simp



text \<open>
  C7. \<open>FutexLock\<close>, recursion is detected exactly when it happens: a running activation fails with
  \<open>Err(Recursive)\<close> only while an activation beneath it (which a signal handler interrupted) holds the
  lock, and when one does, then the only possible step of a call is that failure, which leaves the
  shared memory untouched.
\<close>

theorem futex_recursion_detected:
  assumes "reachable (futex_code dbg body l0) (futex_lock_new x0) s"
  shows "(stacks s t = Futex_Lock.Done (Inl Recursive) # ps \<longrightarrow> (\<exists>q \<in> set ps. futex_holds q)) \<and>
    (stacks s t = RawLock # ps \<and> (\<exists>q \<in> set ps. futex_holds q) \<and>
      sys_step (futex_code dbg body l0) (Run t c) s s' \<longrightarrow>
        stacks s' t = Futex_Lock.Done (Inl Recursive) # ps \<and> mem s' = mem s)"
  using futex_recursive_justified [OF assms] futex_reentrant_call [OF assms] by blast

theorem futex_recursion_detected_witness:
  "stacks futex_refused 1 = [Futex_Lock.Done (Inl Recursive), Futex_Lock.Guarded Load] \<and>
    mem futex_refused = mem futex_signalled"
  using futex_recursion_detected [OF futex_signalled_reachable, of 1 "[Futex_Lock.Guarded Load]" Normal futex_refused]
    futex_refused_step
  by (simp add: futex_signalled_def)

text \<open>
  C8. \<open>PipeLock\<close>: recursion is detected exactly when it happens, in the same sense.
\<close>

theorem pipe_recursion_detected:
  assumes "reachable (pipe_code dbg cap body l0) (pipe_lock_init x0) s"
  shows "(stacks s t = Done (Inl Recursive) # ps \<longrightarrow> (\<exists>q \<in> set ps. pipe_holds q)) \<and>
    (stacks s t = TryLock # ps \<and> (\<exists>q \<in> set ps. pipe_holds q) \<and>
      sys_step (pipe_code dbg cap body l0) (Run t c) s s' \<longrightarrow>
        stacks s' t = Done (Inl Recursive) # ps \<and> mem s' = mem s)"
  using pipe_recursive_justified [OF assms] pipe_reentrant_call [OF assms] by blast

theorem pipe_recursion_detected_witness:
  "stacks pipe_refused 1 = [Done (Inl Recursive), Guarded Load False] \<and> mem pipe_refused = mem pipe_signalled"
  using pipe_recursion_detected [OF pipe_signalled_reachable, of 1 "[Guarded Load False]" Normal pipe_refused]
    pipe_refused_step
  by (simp add: pipe_signalled_def)



section \<open>The protected item\<close>

text \<open>
  C10. \<open>FutexLock\<close>, no data race: with the orderings that the source gives to its atomic operations, every
  access to the protected item happens after all earlier accesses to it, whichever thread made them.
\<close>

theorem futex_data_race_free:
  assumes "viewed (futex_code dbg body l0) (futex_access body) (futex_lock_new x0) s v"
    and "stacks s t = p # ps" and "futex_act dbg body l0 t c (mem s) p = Some (m', p')"
    and "futex_access body t c (mem s) p = ItemAccess \<or> futex_lock.item m' \<noteq> futex_lock.item (mem s)"
  shows "{..<item_accesses v} \<subseteq> seen v t"
proof -
  have act: "act (futex_code dbg body l0) t c (mem s) p = Some (m', p')" using assms(3) by simp
  have "futex_access body t c (mem s) p = ItemAccess"
    using assms(4) futex_sync.item_accessed [OF act] by blast
  with futex_sync.data_race_free [OF assms(1,2) act] show ?thesis .
qed

theorem futex_data_race_free_witness: "{..<item_accesses second_views} \<subseteq> seen second_views 2"
  using futex_data_race_free [OF futex_second_viewed, of 2 "Futex_Lock.Guarded Load" "[]" Normal]
  by (simp add: futex_second_def futex_run_simps)

text \<open>
  C11. \<open>PipeLock\<close>, no data race: the orderings of the owner's word alone order the accesses to the item.
\<close>

theorem pipe_data_race_free:
  assumes "viewed (pipe_code dbg cap body l0) (pipe_access body) (pipe_lock_init x0) s v"
    and "stacks s t = p # ps" and "pipe_act dbg cap body l0 t c (mem s) p = Some (m', p')"
    and "pipe_access body t c (mem s) p = ItemAccess \<or> item m' \<noteq> item (mem s)"
  shows "{..<item_accesses v} \<subseteq> seen v t"
proof -
  have act: "act (pipe_code dbg cap body l0) t c (mem s) p = Some (m', p')" using assms(3) by simp
  have "pipe_access body t c (mem s) p = ItemAccess"
    using assms(4) pipe_sync.item_accessed [OF act] by blast
  with pipe_sync.data_race_free [OF assms(1,2) act] show ?thesis .
qed

theorem pipe_data_race_free_witness: "{..<item_accesses second_views} \<subseteq> seen second_views 2"
  using pipe_data_race_free [OF pipe_second_viewed, of 2 "Guarded Load False" "[]" Normal]
  by (simp add: pipe_second_def pipe_run_simps)

text \<open>
  C12. \<open>SignalLock\<close>, critical sections are serializable: whenever the lock is free, the item is what complete
  sections produce that run alone and one after the other, on either platform and for any code inside
  the lock, however its steps were interleaved and interrupted.
\<close>

theorem signal_lock_serializable:
  assumes "signal_lock_new os pipe2 fcntl x fds = (Inr l, fds')"
    and "reachable (signal_code os dbg cap body l0) l s" and "signal_lock_owner (mem s) = 0"
  shows "(section_from body l0)\<^sup>*\<^sup>* x (signal_lock_item (mem s))"
  by (rule signal_serial [OF assms])

theorem signal_lock_serializable_witness:
  "(section_from increment_body Load)\<^sup>*\<^sup>* 0 (2 :: 64 word)"
  using signal_lock_serializable [OF linux_lock_new signal_full_reachable]
  by (simp add: futex_owner_def futex_lock_new_def)

text \<open>
  C13. \<open>SignalLock\<close> with the benchmark's critical section: in every interleaved run, with any signals and
  spurious failures, after which all calls have returned, the counter has been incremented exactly
  as often as \<open>lock()\<close> has returned a guard.
\<close>

theorem signal_no_lost_update:
  assumes "signal_lock_new os pipe2 fcntl x fds = (Inr l, fds')"
    and "exec_all (signal_code os dbg cap increment_body Load) es (init_sys l) = Some s" and "idle s"
  shows "signal_lock_item (mem s) =
    x + of_nat (returns (signal_code os dbg cap increment_body Load) signal_succeeded es (init_sys l))"
  by (rule signal_counts [OF assms])

theorem signal_no_lost_update_witness:
  "(2 :: 64 word) = 0 + of_nat (returns (signal_code Linux True 1 increment_body Load) signal_succeeded futex_full_run
     (init_sys (FutexImp (futex_lock_new 0))))"
  using signal_no_lost_update [OF linux_lock_new signal_full] by (simp add: idle_def)

text \<open>
  C14. \<open>SignalLock\<close> refines the abstract lock: seen through the owner of the implementation, every step
  is a step in which its thread takes the free lock, frees the lock it holds, or does neither.
\<close>

theorem signal_refines_lock:
  assumes "signal_lock_new os pipe2 fcntl x fds = (Inr l, fds')"
    and "reachable (signal_code os dbg cap body l0) l s" and "sys_step (signal_code os dbg cap body l0) e s s'"
  shows "abs_lock_step (event_thread e) (owner_of signal_lock_owner s) (owner_of signal_lock_owner s')"
  by (rule signal_abs_step [OF assms])

theorem signal_refines_lock_witness:
  "abs_lock_step 1 (owner_of signal_lock_owner (lift_sys FutexImp FutexPc futex_signalled :: (64 word signal_lock, increment signal_pc) sys))
    (owner_of signal_lock_owner (lift_sys FutexImp FutexPc futex_refused :: (64 word signal_lock, increment signal_pc) sys))"
  using signal_refines_lock [OF linux_lock_new
    signal_linux.lift_reachable [OF futex_signalled_reachable] signal_linux.step_lift [OF futex_refused_step]]
  by simp

section \<open>The TLA+ specifications of the two locks\<close>

text \<open>
  C15. \<open>tla/futex.tla\<close>, for any number of processes, signal depth and number of iterations: every
  reachable state of the specification is, through \<open>spec_view\<close>, a reachable state of the model of
  \<open>FutexLock\<close>; its assertions never fail; and its branch for \<open>Err(Recursive)\<close> is never taken, as no
  signal arrives between the acquisition and the unlock.
\<close>

theorem futex_spec_sound:
  assumes "spec_reachable futex_procedure Proc D N futex_globals_init s"
    and "\<forall>t \<in> Proc. valid_tid t" and "card Proc * Suc D < max_live"
  shows "reachable (futex_model dbg) (futex_lock_new ()) (spec_view futex_spec_mem futex_spec_pc s) \<and>
    \<not> failed s \<and>
    (\<forall>t v cs c g. calls (procs s t) = In_lock v # cs \<longrightarrow>
       futex_lock_unlock t c (signal_depth (procs s t)) (glob s) v \<noteq> Some (g, Err_recursive))"
  using futex_spec.spec_reachable_ok [OF assms(1)] futex_spec.assertions_hold [OF assms(1)]
    futex_spec.never_leaves [OF assms(1)] assms(2,3) by simp

theorem futex_spec_sound_witness:
  "reachable (futex_model True) (futex_lock_new ()) (spec_view futex_spec_mem futex_spec_pc futex_spec_interrupted)"
  using futex_spec_sound [OF futex_spec_interrupted_reachable two_valid two_processes] by blast

text \<open>
  C16. \<open>tla/pipe.tla\<close>: its reachable states are reachable states of the model of \<open>PipeLock\<close> with a pipe
  of one byte, its assertions never fail, among them that \<open>waiters\<close> is positive before it is decremented,
  and its branch for \<open>Err(Recursive)\<close> is never taken.
\<close>

theorem pipe_spec_sound:
  assumes "spec_reachable pipe_procedure Proc D N pipe_globals_init s"
    and "0 \<notin> Proc" and "card Proc * Suc D < max_live"
  shows "reachable (pipe_model dbg) (pipe_lock_init ()) (spec_view pipe_spec_mem pipe_spec_pc s) \<and>
    \<not> failed s \<and>
    (\<forall>t v cs c g. calls (procs s t) = In_lock v # cs \<longrightarrow>
       pipe_lock_unlock t c (signal_depth (procs s t)) (glob s) v \<noteq> Some (g, Err_recursive))"
proof -
  have "\<forall>t \<in> Proc. t \<noteq> 0" using assms(2) by auto
  with pipe_spec.spec_reachable_ok [OF assms(1)] pipe_spec.assertions_hold [OF assms(1)]
    pipe_spec.never_leaves [OF assms(1)] assms(3) show ?thesis by simp
qed

theorem pipe_spec_sound_witness:
  "reachable (pipe_model True) (pipe_lock_init ()) (spec_view pipe_spec_mem pipe_spec_pc pipe_spec_interrupted)"
  using pipe_spec_sound [OF pipe_spec_interrupted_reachable _ two_processes] by simp

text \<open>
  C17. Both specifications have their property \<open>Termination\<close> for all finite constants, where the model
  checker covers two or three processes: every weakly fair behaviour reaches a state with all processes at
  \<open>Done\<close>. By then, each process has taken and released the lock at least \<open>MaxIterations\<close> times.
\<close>

theorem lock_specs_terminate:
  assumes "\<forall>t \<in> Proc. valid_tid t" and "card Proc * Suc D < max_live"
  shows "spec_terminating futex_procedure Proc D N futex_globals_init \<and>
    all_take_turns futex_procedure Proc D N futex_globals_init \<and>
    spec_terminating pipe_procedure Proc D N pipe_globals_init \<and>
    all_take_turns pipe_procedure Proc D N pipe_globals_init"
proof (intro conjI at_least_iterations)
  show "spec_terminating futex_procedure Proc D N futex_globals_init"
    by (rule futex_spec.terminating) (use assms in simp_all)
  show "spec_terminating pipe_procedure Proc D N pipe_globals_init"
    by (rule pipe_spec.terminating) (use assms in \<open>auto simp: valid_tid_def\<close>)
qed

theorem lock_specs_terminate_witness:
  "spec_terminating futex_procedure {1, 2} 1 1 futex_globals_init \<and>
    1 \<le> unlocks futex_procedure 1 1 (one_after_another 9) (spec_init {1, 2} 1 futex_globals_init) \<and>
    1 \<le> unlocks pipe_procedure 1 2 (one_after_another 9) (spec_init {1, 2} 1 pipe_globals_init)"
  using lock_specs_terminate [OF two_valid two_processes, of 1]
    all_take_turnsD [OF _ futex_spec_completed all_at_done, of 1]
    all_take_turnsD [OF _ pipe_spec_completed all_at_done, of 2] by simp

section \<open>The shared words of the locks\<close>

text \<open>
  C18. \<open>FutexLock\<close>, no abort: no activation reaches one of the aborts or the debug assertion of
  \<open>raw_unlock\<close>, and the futex word is always 0, a thread id, or a thread id with the waiters flag.
\<close>

theorem futex_never_aborts:
  assumes "reachable (futex_code dbg body l0) (futex_lock_new x0) s"
  shows "Futex_Lock.Aborted a \<notin> set (stacks s t) \<and>
    (futex (mem s) AND FUTEX_TID_MASK = futex (mem s) \<or>
     futex_owner (mem s) \<noteq> 0 \<and> futex (mem s) = futex_owner (mem s) OR FUTEX_WAITERS)"
  using futex_reachable_sound [OF assms] futex_sound_stack(1) [of s t, OF _ refl]
  by (auto simp: futex_sound_def word_ok_def futex_owner_def list_all_iff)

theorem futex_never_aborts_witness:
  "Futex_Lock.Aborted (UnexpectedWord 0) \<notin> set (stacks futex_contended 1)"
  using futex_never_aborts [OF futex_contended_reachable] by simp



section \<open>The registry under its lock\<close>

text \<open>
  C20. The registry under its lock: when the lock of \<open>ROOT\<close> is free, the registrations, drops and faults whose
  sections have run have had the effect of the transitions \<open>with_root\<close> and \<open>handle_sigbus\<close> of the world,
  one after the other in the order in which they got the lock.
\<close>

theorem registry_serialized:
  assumes "signal_lock_new pl pipe2 fcntl (registry_start w rs) fds = (Inr l, fds')"
    and "reachable (registry_code pl dbg cap os) l s" and "root_unlocked s" and "root_ready w"
  shows "served (registry_of s) @ requests (registry_of s) = rs \<and>
    reg_world (registry_of s) = serve_all os dbg t (served (registry_of s)) w"
  using sections_serve [OF registry_serial [OF assms(1-3)] assms(4), of t] by simp

theorem registry_serialized_witness:
  "reg_world repaired_item = serve_all linux True 1 [Register 0x1000 0x2000 3, Fault fault] ready_world"
  using registry_serialized [OF linux_lock_new registry_done_reachable]
  by (auto simp: root_unlocked_def root_ready_def registry_of_def repaired_item_def two_requests_def
      ready_world_def initial_world_def)

text \<open>
  C21. A guard's reader outside the lock: once \<open>is_err\<close> is seen, at any moment of the handler's run, it stays
  so, and every later read of the other fields gives the code and the address of a fault that was
  raised and the start of a region that was replaced, never the initial values; the address lies in
  the guard's own map as long as that is registered.
\<close>

theorem state_published:
  assumes "signal_lock_new pl pipe2 fcntl (registry_start w rs) fds = (Inr l, fds')"
    and "world_ok w" and "\<forall>st \<in> set (states w). \<not> err st" and "list_all request_ok rs"
    and "reachable (registry_code pl dbg cap os) l s"
    and "exec_all (registry_code pl dbg cap os) es s = Some s'"
    and "guard_state g < length (states (reg_world (registry_of s)))"
    and "is_err g (reg_world (registry_of s))"
  shows "is_err g (reg_world (registry_of s')) \<and>
    guard_si_code g (reg_world (registry_of s')) \<in> fault_codes (registry_of s') \<and>
    guard_fix_addr g (reg_world (registry_of s')) \<in> repaired_addrs (registry_of s') \<and>
    guard_err_addr g (reg_world (registry_of s')) \<in> fault_addrs (registry_of s') \<and>
    (\<forall>m. registry (reg_world (registry_of s')) (guard_addr g) = Some m \<and> m_state m = guard_state g \<longrightarrow>
      in_region (guard_addr g) (m_len m) (guard_err_addr g (reg_world (registry_of s'))))"
proof -
  have r: "reachable (registry_code pl dbg cap os) l s'" by (rule exec_all_reachable_from [OF assms(5,6)])
  have "all_reported (registry_start w rs)"
    using assms(3) by (simp add: all_reported_def reported_def registry_start_def)
  note reported = registry_reported [OF assms(1) r this]
  have "section_ok Fetch (registry_start w rs)"
    using world_ok_fine [OF assms(2,3)] assms(4) by (simp add: section_ok_def registry_start_def)
  note fine = registry_fine [OF assms(1) r this]
  have "later (registry_of s) (registry_of s')" by (rule registry_later [OF assms(1,5,6)])
  with assms(7,8) have len: "guard_state g < length (states (reg_world (registry_of s')))"
    and err: "err (states (reg_world (registry_of s')) ! guard_state g)"
    by (auto simp: later_def is_err_def)
  have "in_region (guard_addr g) (m_len m) (err_addr (states (reg_world (registry_of s')) ! guard_state g))"
    if "registry (reg_world (registry_of s')) (guard_addr g) = Some m" "m_state m = guard_state g" for m
    using own_error_at [OF fine that(1)] err that(2) by simp
  with reported_nth [OF reported len] err show ?thesis
    by (simp add: reported_def is_err_def guard_si_code_def guard_fix_addr_def guard_err_addr_def)
qed

theorem state_published_witness:
  "is_err registered_guard (reg_world repaired_item) \<and>
    guard_err_addr registered_guard (reg_world repaired_item) = si_addr fault \<and>
    in_region 0x1000 0x2000 (si_addr fault)"
  using state_published [OF linux_lock_new _ _ _ registry_reported_reachable registry_leaves_signal, of registered_guard]
    ready_world_ok
  by (simp add: registry_of_def registry_reported_at_def repaired_item_def repaired_def registered_world_def
      registered_guard_def ready_world_def initial_world_def is_err_def guard_err_addr_def fault_sets
      two_requests_def registered_map_def registry_def current_root_def region_ok_def)

section \<open>Histories of a process that uses mmapcatch\<close>

text \<open>
  C22. Any history of registrations, drops and faults keeps the registry exact: the registered intervals are
  disjoint and are those of the guards in use, each map has a state of its own and its guard refers to
  it, the lock is free and not poisoned, and all memory that has been replaced is the end of an interval
  that was registered, with the protection it was registered with.
\<close>

theorem history_invariant:
  assumes "history k os dbg sr s" and "setup_fine sr" and "os_ok k os"
  shows "world_ok (process s) \<and> holder (process s) = None \<and>
    distinct (map guard_addr (guards s)) \<and> dom (registry (process s)) = guard_addr ` set (guards s) \<and>
    list_all (\<lambda>g. guard_ok g (process s)) (guards s) \<and> list_all (within_mapped (mapped s)) (remaps (process s))"
  using history_ok [OF assms] by (simp add: session_ok_def guards_ok_def maps_ok_def list_all_iff)

theorem history_invariant_witness:
  "list_all (within_mapped (mapped used_session)) (remaps (process used_session)) \<and> remaps (process used_session) \<noteq> []"
  using history_invariant [OF used_history setup_ok_fine linux_ok]
  by (simp add: used_session_def repaired_def)



section \<open>The registry of memory maps\<close>

text \<open>
  C24. \<open>Root::lookup_addr\<close> and \<open>Root::lookup_overlap\<close> look at one entry only, and yet their answers are
  exact. The first never panics and finds the registered map that includes the address, or none if there is
  none. The second, for a non-empty interval that does not reach the end of the address space, never
  panics, returns a registered map that overlaps the interval, and none only if no registered map does.
\<close>

theorem lookups_correct:
  assumes "root_ok r"
  shows "(\<exists>res. lookup_addr dbg addr r = Inr res \<and>
      (\<forall>m. res = Some m \<longleftrightarrow> map_of (root_map r) (m_start m) = Some m \<and> in_region (m_start m) (m_len m) addr) \<and>
      (res = None \<longleftrightarrow> (\<forall>k m. map_of (root_map r) k = Some m \<longrightarrow> \<not> in_region k (m_len m) addr))) \<and>
    (region_ok addr len \<longrightarrow> (\<exists>res. lookup_overlap dbg addr len r = Inr res \<and>
      (\<forall>m. res = Some m \<longrightarrow>
         map_of (root_map r) (m_start m) = Some m \<and> overlapping addr len (m_start m) (m_len m)) \<and>
      (res = None \<longleftrightarrow> (\<forall>k m. map_of (root_map r) k = Some m \<longrightarrow> \<not> overlapping addr len k (m_len m)))))"
proof (intro conjI impI)
  obtain res where "lookup_addr dbg addr r = Inr res" by (rule lookup_addr_total [OF assms])
  with lookup_addr_some [OF assms, of dbg addr] lookup_addr_none [OF assms, of dbg addr]
  show "\<exists>res. lookup_addr dbg addr r = Inr res \<and>
      (\<forall>m. res = Some m \<longleftrightarrow> map_of (root_map r) (m_start m) = Some m \<and> in_region (m_start m) (m_len m) addr) \<and>
      (res = None \<longleftrightarrow> (\<forall>k m. map_of (root_map r) k = Some m \<longrightarrow> \<not> in_region k (m_len m) addr))"
    by auto
  assume region: "region_ok addr len"
  obtain res where "lookup_overlap dbg addr len r = Inr res"
    using lookup_overlap_eq(1) [OF assms region] by blast
  with lookup_overlap_some [OF assms region, of dbg] lookup_overlap_none [OF assms region, of dbg]
  show "\<exists>res. lookup_overlap dbg addr len r = Inr res \<and>
      (\<forall>m. res = Some m \<longrightarrow>
         map_of (root_map r) (m_start m) = Some m \<and> overlapping addr len (m_start m) (m_len m)) \<and>
      (res = None \<longleftrightarrow> (\<forall>k m. map_of (root_map r) k = Some m \<longrightarrow> \<not> overlapping addr len k (m_len m)))"
    by auto
qed

theorem lookups_correct_witness:
  "lookup_addr True 0x2fff two_maps =
      Inr (Some \<lparr>m_start = 0x1000, m_len = 0x2000, mmap_prot = 1, m_state = 0\<rparr>) \<and>
    lookup_overlap True 0x3000 0x5000 two_maps = Inr None"
proof
  obtain res where res: "lookup_addr True 0x2fff two_maps = Inr res"
    and iff: "\<forall>m. res = Some m \<longleftrightarrow>
      map_of (root_map two_maps) (m_start m) = Some m \<and> in_region (m_start m) (m_len m) 0x2fff"
    using lookups_correct [OF two_maps_ok, of True "0x2fff"] by blast
  from iff have "res = Some \<lparr>m_start = 0x1000, m_len = 0x2000, mmap_prot = 1, m_state = 0\<rparr>"
    by (simp add: two_maps_def in_region_def)
  with res show "lookup_addr True 0x2fff two_maps =
      Inr (Some \<lparr>m_start = 0x1000, m_len = 0x2000, mmap_prot = 1, m_state = 0\<rparr>)" by simp
  show "lookup_overlap True 0x3000 0x5000 two_maps = Inr None"
    using lookups_correct [OF two_maps_ok, of True "0x3000" "0x5000"]
    by (auto simp: two_maps_def overlapping_def region_ok_def split: if_splits)
qed

section \<open>Registering maps\<close>



text \<open>
  C26. Registering a map and dropping its guard is the identity on the registry: the drop does not panic,
  it unregisters exactly that map, and the world stays well-formed.
\<close>

theorem register_drop_roundtrip:
  assumes "world_ok w" and "root_available (lock_created sr) w"
    and "install_signal_handler (sigfillset_ok sr) (sigaction_ok sr) w = (Ret (), w1)"
    and "region_ok addr len"
    and "register_mmap dbg sr t addr len prot w = (Ret (Inr g), w2)"
  shows "\<exists>w3. guard_drop created u g w2 = (Ret (), w3) \<and> registry w3 = registry w \<and>
    world_ok w3 \<and> holder w3 = None"
proof (rule register_cases [OF assms(1-4), of dbg t prot])
  fix g' w'
  assume run: "register_mmap dbg sr t addr len prot w = (Ret (Inr g'), w')" and g': "guard_addr g' = addr"
    and free: "\<And>k m. registry w k = Some m \<Longrightarrow> \<not> overlapping addr len k (m_len m)"
    and reg: "registry w' = (registry w)(addr \<mapsto>
      \<lparr>m_start = addr, m_len = len, mmap_prot = prot, m_state = guard_state g'\<rparr>)"
    and ok: "world_ok w'" "holder w' = None"
  from run assms(5) have same: "g' = g" "w' = w2" by simp_all
  have "guard_ok g w2" using reg g' by (simp add: guard_ok_def same)
  then obtain w3 where "guard_drop created u g w2 = (Ret (), w3)"
    and "registry w3 = (registry w2)(guard_addr g := None)" "world_ok w3" "holder w3 = None"
    using guard_drop_run [of w2 g created u] ok same by metis
  moreover have "registry w addr = None"
    using free [of addr] regions_ok_at [OF world_ok_parts(5) [OF assms(1)], of addr] assms(4)
    by (cases "registry w addr") (auto simp: overlapping_def region_ok_def word_less_nat_alt)
  ultimately show ?thesis using reg g' same by (auto simp: fun_upd_idem)
qed (use assms(5) in simp)

theorem register_drop_roundtrip_witness:
  "\<exists>w3. guard_drop None 2 registered_guard registered_world = (Ret (), w3) \<and> registry w3 = registry initial_world"
  using register_drop_roundtrip [OF first_call region_ok_example register_example, of None 2] by blast

section \<open>The signal handler\<close>



text \<open>
  C28. \<open>handle_sigbus\<close> swallows no other signal: if it returns, then the signal was a synchronous memory fault
  with an address, the address lies in a registered map, and the guard's state of that map reports the
  error and the address.
\<close>

theorem handle_sigbus_only_registered:
  assumes "handler_ready w" and "handle_sigbus os dbg t info w = (Ret (), w')"
  shows "bus_signal os info \<and>
    (\<exists>m. registry w (m_start m) = Some m \<and> in_region (m_start m) (m_len m) (si_addr info) \<and>
      err (states w' ! m_state m) \<and> err_addr (states w' ! m_state m) = si_addr info)"
  using handle_sigbus_returns [OF assms] by blast

theorem handle_sigbus_only_registered_witness:
  "\<exists>m. registry registered_world (m_start m) = Some m \<and> in_region (m_start m) (m_len m) (si_addr fault)"
  using handle_sigbus_only_registered [OF registered_world_ready(1) fault_handled] by blast

text \<open>
  C29. What \<open>handle_sigbus\<close> refuses, and how: a signal that is no memory fault, or one before the first
  registration, aborts the process; a fault of the thread that holds the lock itself aborts and does not
  deadlock, and a fault while another thread holds it waits for that thread; a fault outside all
  registered maps aborts, and no memory has been replaced.
\<close>

theorem handle_sigbus_rejects:
  "(\<not> bus_signal os info \<or> static_root w = None \<longrightarrow> handle_sigbus os dbg t info w = (Abort SomeOtherSigbus, w)) \<and>
   (bus_signal os info \<and> static_root w \<noteq> None \<and> holder w = Some u \<longrightarrow>
     handle_sigbus os dbg t info w = (if u = t then Abort RecursiveSigbus else Blocked, w)) \<and>
   (bus_signal os info \<and> handler_ready w \<and>
     (\<forall>k m. registry w k = Some m \<longrightarrow> \<not> in_region k (m_len m) (si_addr info)) \<longrightarrow>
     handle_sigbus os dbg t info w = (Abort SomeOtherSigbus, w\<lparr>holder := Some t\<rparr>))"
  using handle_sigbus_foreign handle_sigbus_held handle_sigbus_unregistered by blast

theorem handle_sigbus_rejects_witness:
  "handle_sigbus linux True 1 fault (registered_world\<lparr>holder := Some 1\<rparr>) =
    (Abort RecursiveSigbus, registered_world\<lparr>holder := Some 1\<rparr>)"
  using handle_sigbus_rejects [of linux fault "registered_world\<lparr>holder := Some 1\<rparr>" True 1 1]
  by (simp add: fault_in_map registered_world_def ready_world_def)



section \<open>Reading a registered map\<close>



text \<open>
  C32. The tests of \<open>mmapcatch\<close> pass when a page has 4096 bytes, the system calls succeed and the map of the
  test is new, in every process that has used \<open>mmapcatch\<close> as documented before; afterwards the guards in
  use are the same as before and the process is in a legal state.
\<close>

theorem mmapcatch_tests_pass:
  assumes "history 12 os dbg sr s" and "setup_fine sr" and "os_ok 12 os"
    and "env_ok 12 os (3 * 4096) (process s) env"
  shows "\<forall>test \<in> {partial_truncate os dbg sr t env, progressive_truncates os dbg sr t env, full_truncate os dbg sr t env}.
    \<exists>s'. test (process s) = Some (Ret (), process s') \<and> session_ok 12 s' \<and> guards s' = guards s"
proof -
  have s: "session_ok 12 s" by (rule history_ok [OF assms(1-3)])
  have env: "env_ok 12 os (2 * 4096) (process s) env"
    by (rule env_ok_less [OF assms(4)]) simp_all
  from partial_truncate_passes [OF s assms(2,3) env, of dbg t] progressive_truncates_passes [OF s assms(2-4), of dbg t]
    full_truncate_passes [OF s assms(2,3) env, of dbg t]
  show ?thesis by blast
qed

theorem mmapcatch_tests_pass_witness:
  "\<exists>s'. partial_truncate linux True setup_ok 1 example_env (process registered_session) = Some (Ret (), process s') \<and>
    session_ok 12 s' \<and> guards s' = guards registered_session"
  by (rule mmapcatch_tests_pass [OF registered_history setup_ok_fine linux_ok example_env_ok, THEN bspec, OF insertI1])

section \<open>Errors of the registration\<close>





section \<open>Initialization, parking, memory order and messages\<close>

text \<open>
  C35. \<open>TryOnce\<close>: however the calls interleave and however often the initialization fails, the cell is
  written at most once; when a call has returned \<open>Ok\<close>, the flag is set, the cell has been written and
  its thread sees the write; and when all calls are over, \<open>Drop for StaticRoot\<close> drops the cell exactly
  if it was written.
\<close>

theorem try_once_publishes:
  assumes "viewed once_code once_access try_once_new s v"
  shows "writes (mem s) \<le> 1 \<and>
    (Returned (Inr ()) \<in> set (stacks s t) \<longrightarrow>
      init (mem s) \<and> writes (mem s) = 1 \<and> {..<item_accesses v} \<subseteq> seen v t) \<and>
    (stacks s = (\<lambda>_. []) \<longrightarrow> (static_root_drops (mem s) \<longleftrightarrow> writes (mem s) = 1))"
proof -
  have r: "reachable once_code try_once_new s" by (rule viewed_reachable [OF assms])
  have "{..<item_accesses v} \<subseteq> seen v t" if "Returned (Inr ()) \<in> set (stacks s t)"
    using publishedD(2) [OF viewed_published [OF assms] that] by simp
  with try_once_writes_once [OF r, of t] once_drop_exact [OF r] show ?thesis by blast
qed

theorem try_once_publishes_witness:
  "\<exists>v. viewed once_code once_access try_once_new once_raced v \<and> {..<item_accesses v} \<subseteq> seen v 1 \<and>
    writes (mem once_raced) = 1"
proof -
  obtain v where v: "viewed once_code once_access try_once_new once_raced v"
    using reachable_viewed [OF once_raced_reachable] by blast
  have "Returned (Inr ()) \<in> set (stacks once_raced 1)" by (simp add: once_raced_def)
  with try_once_publishes [OF v, of 1] v show ?thesis by blast
qed






section \<open>The test support and the example\<close>

text \<open>
  C39. The fake signals implement a set of threads with a pending signal: sending adds the thread and runs
  nothing; a check point of a thread whose locals are alive removes it and runs the installed handler
  exactly once if it was in the set, and leaves the other threads' signals alone.
\<close>

theorem fake_signal_delivers:
  assumes "linked f" and "thread_is_signaled f t \<noteq> Local None"
  shows "linked (fake_signal_thread u f) \<and> pending (fake_signal_thread u f) = (pending f)(u := True) \<and>
    handler_calls (fake_signal_thread u f) = handler_calls f \<and>
    (\<exists>f'. fake_signal_check_interrupt t f = Inr f' \<and> linked f' \<and> pending f' = (pending f)(t := False) \<and>
      handler_calls f' =
        (case HANDLER f of
           Some h \<Rightarrow> if pending f t then (t, h) # handler_calls f else handler_calls f
         | None \<Rightarrow> handler_calls f))"
proof -
  obtain f' where "fake_signal_check_interrupt t f = Inr f'" "linked f'" "pending f' = (pending f)(t := False)"
    "handler_calls f' =
      (case HANDLER f of
         Some h \<Rightarrow> if pending f t then (t, h) # handler_calls f else handler_calls f
       | None \<Rightarrow> handler_calls f)"
    by (rule check_refines [OF assms])
  with send_refines [OF assms(1), of u] show ?thesis by simp
qed

definition signalled_once :: "nat fake" where
  "signalled_once = fake_signal_thread 2 (fake_signal_set_handler 7 fake_initial)"

lemma signalled_once_linked: "linked signalled_once" "thread_is_signaled signalled_once 2 \<noteq> Local None"
  by (auto simp: signalled_once_def fake_signal_thread_def fake_signal_set_handler_def fake_initial_def linked_def)

theorem fake_signal_delivers_witness:
  "\<exists>f'. fake_signal_check_interrupt 2 signalled_once = Inr f' \<and> handler_calls f' = [(2, 7)] \<and> \<not> pending f' 2"
proof -
  have "pending signalled_once 2" "HANDLER signalled_once = Some 7" "handler_calls signalled_once = []"
    by (simp_all add: signalled_once_def fake_signal_thread_def fake_signal_set_handler_def fake_initial_def pending_def)
  with fake_signal_delivers [OF signalled_once_linked, of 2] show ?thesis by auto
qed

text \<open>
  C40. The example's deferral of signals forgets none: after any interleaving of signals with calls of
  \<open>normal_code\<close>, a call finishes within eight steps once no further signal arrives, and then the lock is
  free, the flag is clear, \<open>do_the_thing\<close> has run since the last signal, and the handler has preserved
  \<open>errno\<close>. \<open>main\<close> prints the lines that its comments announce.
\<close>

theorem deferred_signal_handled:
  "point ((normal_code c ^^ 8) (demo_run es)) = Finished \<and> \<not> owed ((normal_code c ^^ 8) (demo_run es)) \<and>
    \<not> SIGNAL_DEFERRED ((normal_code c ^^ 8) (demo_run es)) \<and> \<not> locked ((normal_code c ^^ 8) (demo_run es)) \<and>
    demo_errno (demo_run es) = 0 \<and>
    stderr (example_main c demo_start) =
      [''Deferring in signal handler'', ''Detected deferred signal after critical section'',
       ''Handling in signal handler'']"
proof -
  let ?d = "(normal_code c ^^ 8) (demo_run es)"
  have "point ?d = Finished" by (rule demo_finishes [OF demo_ok_run])
  moreover have "demo_ok ?d" by (rule demo_ok_steps [OF demo_ok_run])
  ultimately show ?thesis
    using demo_errno_run [of es] example_main_prints [of c]
    by (auto simp: demo_ok_def deferring_msg_def detected_msg_def handling_msg_def)
qed

end
